(* ===== verification/Prelude.thy ===== *)
theory Prelude
  imports Main "HOL-Library.Word"
begin

unbundle bit_operations_syntax

text \<open>
  Shared vocabulary of the development: the machine integers of the Rust source as words,
  the \<open>io::Result\<close> of its readers and writers as a sum type, \<open>Read::read_exact\<close> on the
  bytes that remain in a stream, the little-endian encodings \<open>to_le_bytes\<close> and
  \<open>from_le_bytes\<close>, and the generic lemmas on them that the component theories use.

  Conventions.  \<open>u8\<close>, \<open>u16\<close>, \<open>u32\<close> and \<open>u64\<close> are words of that width and \<open>i32\<close>, \<open>i64\<close>
  are words read through \<^const>\<open>sint\<close>; \<open>usize\<close> values that index or count memory are \<open>nat\<close>,
  and the places where the source saturates or checks them are written out.  Arithmetic that
  the source performs with the plain operators wraps, as in the release profile of the
  workspace (no \<open>overflow-checks\<close>).  A reader is the list of bytes it has yet to deliver.
\<close>

section \<open>Integers and results\<close>

type_synonym u8 = "8 word"
type_synonym u16 = "16 word"
type_synonym u32 = "32 word"
type_synonym u64 = "64 word"
type_synonym i32 = "32 word"
type_synonym i64 = "64 word"
type_synonym bytes = "u8 list"

text \<open>The \<open>io::ErrorKind\<close> values the modelled code raises, and the \<open>InvalidData\<close> errors that
  carry the \<open>ProtocolViolation\<close> tag (exit code 2 instead of 12).\<close>

datatype io_error =
    UnexpectedEof
  | InvalidData
  | InvalidInput
  | ProtocolViolation

type_synonym 'a io_result = "io_error + 'a"

text \<open>The type of a reading operation: the value read and the bytes left in the stream.\<close>

type_synonym 'a read_result = "(io_error + 'a \<times> bytes)"

text \<open>Rust's \<open>?\<close>: an error returns early.\<close>

definition bindE :: "'e + 'a \<Rightarrow> ('a \<Rightarrow> 'e + 'b) \<Rightarrow> 'e + 'b" where
  "bindE m f = (case m of Inl e \<Rightarrow> Inl e | Inr x \<Rightarrow> f x)"

lemma bindE_simps [simp]:
  "bindE (Inl e) f = Inl e"
  "bindE (Inr x) f = f x"
  by (simp_all add: bindE_def)

lemma bindE_eq_Inr: "bindE m f = Inr y \<longleftrightarrow> (\<exists>x. m = Inr x \<and> f x = Inr y)"
  by (cases m) simp_all

lemma bindE_cong [fundef_cong]:
  "m = m' \<Longrightarrow> (\<And>x. m' = Inr x \<Longrightarrow> f x = f' x) \<Longrightarrow> bindE m f = bindE m' f'"
  by (cases m') simp_all

definition okOr :: "'e \<Rightarrow> 'a option \<Rightarrow> 'e + 'a" where
  "okOr e x = (case x of None \<Rightarrow> Inl e | Some v \<Rightarrow> Inr v)"

lemma okOr_simps [simp]:
  "okOr e None = Inl e"
  "okOr e (Some v) = Inr v"
  by (simp_all add: okOr_def)

section \<open>Readers\<close>

definition read_exact :: "nat \<Rightarrow> bytes \<Rightarrow> bytes read_result" where
  "read_exact n bs = (if n \<le> length bs then Inr (take n bs, drop n bs) else Inl UnexpectedEof)"

lemma read_exact_append [simp]:
  "length xs = n \<Longrightarrow> read_exact n (xs @ ys) = Inr (xs, ys)"
  by (simp add: read_exact_def)

lemma read_exact_Cons [simp]:
  "read_exact (Suc 0) (x # ys) = Inr ([x], ys)"
  by (simp add: read_exact_def)

lemma read_exact_Inr:
  "read_exact n bs = Inr (xs, ys) \<Longrightarrow> bs = xs @ ys \<and> length xs = n"
  by (auto simp: read_exact_def split: if_splits)

lemma read_exact_short: "length bs < n \<Longrightarrow> read_exact n bs = Inl UnexpectedEof"
  by (simp add: read_exact_def)

section \<open>Little-endian encodings\<close>

definition le_bytes :: "nat \<Rightarrow> 'a::len word \<Rightarrow> bytes" where
  "le_bytes n w = map (\<lambda>i. ucast (drop_bit (8 * i) w)) [0..<n]"

fun from_le :: "bytes \<Rightarrow> 'a::len word" where
  "from_le [] = 0"
| "from_le (b # bs) = ucast b OR push_bit 8 (from_le bs)"

lemma length_le_bytes [simp]: "length (le_bytes n w) = n"
  by (simp add: le_bytes_def)

lemma nth_le_bytes: "i < n \<Longrightarrow> le_bytes n w ! i = ucast (drop_bit (8 * i) w)"
  by (simp add: le_bytes_def)

lemma bit_byte_bound: "bit (b::u8) i \<Longrightarrow> i < 8"
  using bit_imp_le_length [of b i] by simp

lemma bit_from_le:
  "bit (from_le bs :: 'a::len word) i \<longleftrightarrow>
     i < LENGTH('a) \<and> i div 8 < length bs \<and> bit (bs ! (i div 8)) (i mod 8)"
proof (induction bs arbitrary: i)
  case Nil
  then show ?case by simp
next
  case (Cons b bs)
  show ?case
  proof (cases "i < 8")
    case True
    then show ?thesis by (auto simp: bit_or_iff bit_push_bit_iff bit_unsigned_iff)
  next
    case False
    then obtain j where j: "i = j + 8" by (metis add.commute le_iff_add not_less)
    then have "i div 8 = Suc (j div 8)" "i mod 8 = j mod 8" by simp_all
    moreover have "\<not> bit b (j + 8)" using bit_byte_bound [of b "j + 8"] by auto
    ultimately show ?thesis using Cons.IH [of j]
      by (auto simp: j bit_or_iff bit_push_bit_iff bit_unsigned_iff)
  qed
qed

lemma bit_nth_le_bytes:
  "i < n \<Longrightarrow> bit (le_bytes n (w :: 'a::len word) ! i) k \<longleftrightarrow> k < 8 \<and> bit w (8 * i + k)"
  using bit_imp_le_length [of w "8 * i + k"]
  by (auto simp: nth_le_bytes bit_unsigned_iff bit_drop_bit_eq)

lemma from_le_le_bytes [simp]:
  "LENGTH('a) \<le> 8 * n \<Longrightarrow> from_le (le_bytes n (w :: 'a::len word)) = w"
  by (rule bit_word_eqI) (auto simp: bit_from_le bit_nth_le_bytes)

lemma le_bytes_from_le [simp]:
  assumes "length bs = n" "8 * n \<le> LENGTH('a)"
  shows "le_bytes n (from_le bs :: 'a::len word) = bs"
proof (rule nth_equalityI)
  show "length (le_bytes n (from_le bs :: 'a word)) = length bs" using assms by simp
next
  fix i assume "i < length (le_bytes n (from_le bs :: 'a word))"
  then have i: "i < n" by simp
  show "le_bytes n (from_le bs :: 'a word) ! i = bs ! i"
  proof (rule bit_word_eqI)
    fix k assume "k < LENGTH(8)"
    then have k: "k < 8" by simp
    have "8 * i + k < 8 * n" using i k by simp
    then have "8 * i + k < LENGTH('a)" using assms by simp
    then show "bit (le_bytes n (from_le bs :: 'a word) ! i) k = bit (bs ! i) k"
      using i k assms by (simp add: bit_nth_le_bytes bit_from_le)
  qed
qed

lemma le_bytes_inj:
  "LENGTH('a) \<le> 8 * n \<Longrightarrow> le_bytes n (v :: 'a::len word) = le_bytes n w \<Longrightarrow> v = w"
  by (metis from_le_le_bytes)

lemma le_bytes_4: "le_bytes 4 w = [le_bytes 4 w ! 0, le_bytes 4 w ! 1, le_bytes 4 w ! 2, le_bytes 4 w ! 3]"
  by (simp add: le_bytes_def upt_rec)

text \<open>Quantification over a byte is a finite check.\<close>

lemma all_bytes_iff: "(\<forall>b::u8. P b) \<longleftrightarrow> list_all P (map word_of_nat [0..<256])"
proof -
  have "(UNIV :: u8 set) = set (map word_of_nat [0..<256])"
    by (simp add: UNIV_word_eq_word_of_nat lessThan_atLeast0)
  then show ?thesis by (metis UNIV_I list_all_iff)
qed

text \<open>A small word is a small number.\<close>

lemma word_less_bound:
  assumes "b < (2::'a::len word) ^ n" "n < LENGTH('a)"
  obtains m where "b = word_of_nat m" "m < 2 ^ n"
proof
  show "b = word_of_nat (unat b)" by simp
  have "unat ((2::'a word) ^ n) = 2 ^ n"
    using assms(2) unat_of_nat [where 'a='a, of "2 ^ n"] by (simp add: take_bit_nat_eq_self)
  then show "unat b < 2 ^ n"
    using assms(1) by (simp add: word_less_nat_alt)
qed

text \<open>\<open>usize\<close> is 64 bits wide and kept as a natural number; \<open>saturating_add\<close> clamps at its
  maximum, and \<open>saturating_sub\<close> is the truncated subtraction of the naturals.\<close>

definition USIZE_MAX :: nat where
  "USIZE_MAX = 2 ^ 64 - 1"

definition sat_add :: "nat \<Rightarrow> nat \<Rightarrow> nat" where
  "sat_add a b = min (a + b) USIZE_MAX"

lemma sat_add_assoc [simp]: "sat_add (sat_add a b) c = sat_add a (b + c)"
  by (simp add: sat_add_def min_def)

lemma unat_lt2p: "unat (w::'a::len word) < 2 ^ LENGTH('a)"
  by (rule unsigned_less)

lemma unat_power_2: "n < LENGTH('a) \<Longrightarrow> unat (2 ^ n :: 'a::len word) = 2 ^ n"
  using unat_of_nat [of "2 ^ n", where ?'a = 'a] by (simp add: take_bit_nat_eq_self)


lemma unat_ucast_small: "unat (w :: 'a::len word) < 2 ^ LENGTH('b) \<Longrightarrow> unat (ucast w :: 'b::len word) = unat w"
  by (simp add: unsigned_ucast_eq unsigned_take_bit_eq take_bit_nat_eq_self)

lemma unat_ucast_up: "LENGTH('a) \<le> LENGTH('b) \<Longrightarrow> unat (ucast (w :: 'a::len word) :: 'b::len word) = unat w"
  using less_le_trans [OF unat_lt2p power_increasing [of "LENGTH('a)" "LENGTH('b)" "2::nat"]]
  by (intro unat_ucast_small) simp

lemma le_div_power_iff: "(2::nat) ^ a \<le> x div 2 ^ b \<longleftrightarrow> 2 ^ (a + b) \<le> x"
  by (simp add: power_add less_eq_div_iff_mult_less_eq)

lemma from_le_le_bytes_take: "(from_le (le_bytes n w) :: 'a word) = take_bit (8 * n) (w :: 'a::len word)"
proof (rule bit_word_eqI)
  fix i assume "i < LENGTH('a)"
  have "i div 8 < n \<longleftrightarrow> i < 8 * n" by (simp add: div_less_iff_less_mult mult.commute)
  then show "bit (from_le (le_bytes n w) :: 'a word) i = bit (take_bit (8 * n) w) i"
    using \<open>i < LENGTH('a)\<close> by (auto simp: bit_from_le bit_nth_le_bytes bit_take_bit_iff)
qed

lemma drop_le_bytes: "i \<le> n \<Longrightarrow> drop i (le_bytes n w) = le_bytes (n - i) (drop_bit (8 * i) w)"
  by (rule nth_equalityI) (auto simp: nth_le_bytes drop_bit_drop_bit algebra_simps)

lemma from_le_replicate_0 [simp]: "from_le (replicate n 0) = 0"
  by (induction n) auto

lemma sint_of_nat_small: "n < 2 ^ 31 \<Longrightarrow> sint (of_nat n :: i32) = int n"
  by (simp add: signed_of_nat signed_take_bit_int_eq_self)

lemma sint_unat: "unat (w :: i32) < 2 ^ 31 \<Longrightarrow> sint w = int (unat w)"
  using sint_of_nat_small [of "unat w"] by simp

lemma sint_neg_iff: "sint (w :: i32) < 0 \<longleftrightarrow> 2 ^ 31 \<le> unat w"
proof
  show "2 ^ 31 \<le> unat w" if "sint w < 0"
    using that sint_unat [of w] by (cases "unat w < 2 ^ 31") auto
  show "sint w < 0" if "2 ^ 31 \<le> unat w"
  proof (rule ccontr)
    assume "\<not> sint w < 0"
    then have "\<not> bit w 31" using bit_last_iff [of w] by simp
    then have "take_bit 31 w = w"
      by (intro bit_word_eqI) (auto simp: bit_take_bit_iff less_Suc_eq numeral_eq_Suc)
    then have "unat w < 2 ^ 31" using take_bit_nat_less_exp [of 31 "unat w"] by (metis unsigned_take_bit_eq)
    then show False using that by simp
  qed
qed

lemma sint_nonneg_unat: "\<not> sint (w :: i32) < 0 \<Longrightarrow> sint w = int (unat w)"
  using sint_neg_iff [of w] sint_unat [of w] by linarith

end
