(* ===== verification/Codec.thy ===== *)
theory Codec
  imports Prelude
begin

text \<open>
  The contract between a writer and the reader of the same wire item.  The locale
  \<open>codec\<close> asks for the round trip on a stream that continues with arbitrary bytes; from it
  follow that encodings can be told apart in a stream and that a sequence of items decodes
  item by item.  \<open>stream_codec\<close> adds that the reader decides from a prefix of the stream,
  which gives rejection of every truncated encoding.  \<open>stateful_codec\<close> is the contract of a pair
  whose two sides each carry a state that must stay in step.  Each codec of the development
  interprets one of the three.
\<close>

section \<open>Readers that decide from a prefix\<close>

definition prefix_decided :: "(bytes \<Rightarrow> 'a read_result) \<Rightarrow> bool" where
  "prefix_decided dec \<longleftrightarrow> (\<forall>s v r t. dec s = Inr (v, r) \<longrightarrow> dec (s @ t) = Inr (v, r @ t))"

lemma prefix_decidedD: "prefix_decided dec \<Longrightarrow> dec s = Inr (v, r) \<Longrightarrow> dec (s @ t) = Inr (v, r @ t)"
  by (auto simp: prefix_decided_def)

named_theorems prefix_decided_intros

lemma prefix_decided_read_exact [prefix_decided_intros]: "prefix_decided (read_exact n)"
  by (auto simp: prefix_decided_def read_exact_def split: if_splits)

lemma prefix_decided_return [prefix_decided_intros]: "prefix_decided (\<lambda>s. Inr (v, s))"
  by (simp add: prefix_decided_def)

lemma prefix_decided_error [prefix_decided_intros]: "prefix_decided (\<lambda>s. Inl e)"
  by (simp add: prefix_decided_def)

lemma prefix_decided_bind [prefix_decided_intros]:
  assumes "prefix_decided m" "\<And>x. prefix_decided (f x)"
  shows "prefix_decided (\<lambda>s. bindE (m s) (\<lambda>(x, s'). f x s'))"
  using assms by (fastforce simp: prefix_decided_def bindE_eq_Inr)

lemma prefix_decided_if [prefix_decided_intros]:
  "(b \<Longrightarrow> prefix_decided f) \<Longrightarrow> (\<not> b \<Longrightarrow> prefix_decided g) \<Longrightarrow>
   prefix_decided (\<lambda>s. if b then f s else g s)"
  by (cases b) simp_all

lemma prefix_decided_let [prefix_decided_intros]:
  "(\<And>x. prefix_decided (f x)) \<Longrightarrow> prefix_decided (\<lambda>s. let x = c in f x s)"
  by simp

lemma prefix_decided_case_option [prefix_decided_intros]:
  "(x = None \<Longrightarrow> prefix_decided f) \<Longrightarrow> (\<And>y. x = Some y \<Longrightarrow> prefix_decided (g y)) \<Longrightarrow>
   prefix_decided (\<lambda>s. case x of None \<Rightarrow> f s | Some y \<Rightarrow> g y s)"
  by (cases x) simp_all

text \<open>Reading a counted sequence of items, as the \<open>for _ in 0..count\<close> loops do.\<close>

fun read_many :: "(bytes \<Rightarrow> 'a read_result) \<Rightarrow> nat \<Rightarrow> bytes \<Rightarrow> 'a list read_result" where
  "read_many dec 0 s = Inr ([], s)"
| "read_many dec (Suc n) s =
     bindE (dec s) (\<lambda>(v, s'). bindE (read_many dec n s') (\<lambda>(vs, s''). Inr (v # vs, s'')))"

lemma prefix_decided_read_many [prefix_decided_intros]:
  assumes "prefix_decided dec"
  shows "prefix_decided (read_many dec n)"
proof (induction n)
  case 0
  then show ?case by (simp add: prefix_decided_def)
next
  case (Suc n)
  show ?case
    using assms Suc.IH by (simp add: prefix_decided_bind prefix_decided_return)
qed

section \<open>Codecs\<close>

locale codec =
  fixes enc :: "'a \<Rightarrow> bytes"
    and dec :: "bytes \<Rightarrow> 'a read_result"
    and valid :: "'a \<Rightarrow> bool"
  assumes dec_enc: "valid v \<Longrightarrow> dec (enc v @ rest) = Inr (v, rest)"
begin

lemma enc_unambiguous:
  assumes "valid v" "valid w" "enc v @ r = enc w @ s"
  shows "v = w \<and> r = s"
proof -
  have "Inr (v, r) = dec (enc v @ r)" using dec_enc [OF assms(1)] by metis
  also have "\<dots> = dec (enc w @ s)" by (simp only: assms(3))
  also have "\<dots> = Inr (w, s)" using dec_enc [OF assms(2)] by metis
  finally show ?thesis by simp
qed

lemma enc_inject: "valid v \<Longrightarrow> valid w \<Longrightarrow> enc v = enc w \<longleftrightarrow> v = w"
  using enc_unambiguous [of v w "[]" "[]"] by auto

lemma read_many_enc:
  "list_all valid vs \<Longrightarrow> read_many dec (length vs) (concat (map enc vs) @ rest) = Inr (vs, rest)"
  by (induction vs) (simp_all add: dec_enc)

end

locale stream_codec = codec +
  assumes decided: "prefix_decided dec"
begin

lemma dec_truncated:
  assumes "valid v" "k < length (enc v)"
  shows "\<exists>e. dec (take k (enc v)) = Inl e"
proof (cases "dec (take k (enc v))")
  case (Inl e)
  then show ?thesis by blast
next
  case (Inr p)
  obtain w r where "p = (w, r)" by (cases p)
  with Inr have "dec (take k (enc v) @ drop k (enc v)) = Inr (w, r @ drop k (enc v))"
    using prefix_decidedD [OF decided, of "take k (enc v)" w r "drop k (enc v)"] by simp
  moreover have "dec (enc v @ []) = Inr (v, [])" using assms(1) by (rule dec_enc)
  ultimately show ?thesis using assms(2) by simp
qed

end

section \<open>Codecs with state\<close>

fun enc_seq :: "('s \<Rightarrow> 'a \<Rightarrow> bytes \<times> 's) \<Rightarrow> 's \<Rightarrow> 'a list \<Rightarrow> bytes \<times> 's" where
  "enc_seq enc s [] = ([], s)"
| "enc_seq enc s (v # vs) =
    (let (b, s) = enc s v; (bs, s) = enc_seq enc s vs in (b @ bs, s))"

fun dec_seq :: "('s \<Rightarrow> bytes \<Rightarrow> ('a \<times> 's) read_result) \<Rightarrow> nat \<Rightarrow> 's \<Rightarrow> bytes \<Rightarrow> ('a list \<times> 's) read_result" where
  "dec_seq dec 0 s bs = Inr (([], s), bs)"
| "dec_seq dec (Suc n) s bs =
    bindE (dec s bs) (\<lambda>((v, s), bs). bindE (dec_seq dec n s bs) (\<lambda>((vs, s), bs). Inr ((v # vs, s), bs)))"

locale stateful_codec =
  fixes enc :: "'s \<Rightarrow> 'a \<Rightarrow> bytes \<times> 's"
    and dec :: "'s \<Rightarrow> bytes \<Rightarrow> ('a \<times> 's) read_result"
    and valid :: "'a \<Rightarrow> bool"
  assumes dec_enc: "valid v \<Longrightarrow> enc s v = (bs, s') \<Longrightarrow> dec s (bs @ rest) = Inr ((v, s'), rest)"
begin

lemma dec_seq_enc_seq:
  "list_all valid vs \<Longrightarrow> enc_seq enc s vs = (bs, s') \<Longrightarrow> dec_seq dec (length vs) s (bs @ rest) = Inr ((vs, s'), rest)"
proof (induction vs arbitrary: s bs)
  case (Cons v vs)
  obtain b s1 where e: "enc s v = (b, s1)" by fastforce
  obtain bs1 where es: "enc_seq enc s1 vs = (bs1, s')" "bs = b @ bs1" using Cons.prems(2) e by (auto split: prod.splits)
  have "dec s (b @ bs1 @ rest) = Inr ((v, s1), bs1 @ rest)" using Cons.prems(1) e by (intro dec_enc) simp_all
  then show ?case using Cons.IH [OF _ es(1)] Cons.prems(1) es(2) by simp
qed simp

end

end
