(* ===== verification/Varint.thy ===== *)
theory Varint
  imports Codec
begin

text \<open>
  The variable-length integer codec of \<open>crates/protocol/src/varint\<close>: \<open>encode.rs\<close>,
  \<open>decode.rs\<close> and \<open>table.rs\<close>.  Writers return the bytes they emit; readers consume the
  stream.  The theory proves that every \<open>i32\<close> survives \<open>write_varint\<close>/\<open>read_varint\<close>, that
  every \<open>i64\<close> survives \<open>write_varlong\<close>/\<open>read_varlong\<close> for the \<open>min_bytes\<close> of 3 to 8 that
  the callers use, and which values smaller \<open>min_bytes\<close> lose.
\<close>

section \<open>The table\<close>

definition INT_BYTE_EXTRA :: "nat list" where
  "INT_BYTE_EXTRA =
    [0, 0, 0, 0, 0, 0, 0, 0, 0, 0, 0, 0, 0, 0, 0, 0,
     0, 0, 0, 0, 0, 0, 0, 0, 0, 0, 0, 0, 0, 0, 0, 0,
     1, 1, 1, 1, 1, 1, 1, 1, 1, 1, 1, 1, 1, 1, 1, 1,
     2, 2, 2, 2, 2, 2, 2, 2, 3, 3, 3, 3, 4, 4, 5, 6]"

definition MAX_EXTRA_BYTES :: nat where
  "MAX_EXTRA_BYTES = 4"

definition int_byte_extra :: "u8 \<Rightarrow> nat" where
  "int_byte_extra first = INT_BYTE_EXTRA ! unat (first div 4)"

section \<open>Writers\<close>

text \<open>The loops that drop leading zero bytes: \<open>while count > floor && bytes[count] == 0\<close>.\<close>

fun trim_zeros :: "nat \<Rightarrow> bytes \<Rightarrow> nat \<Rightarrow> nat" where
  "trim_zeros fl bs 0 = 0"
| "trim_zeros fl bs (Suc c) = (if fl < Suc c \<and> bs ! (Suc c) = 0 then trim_zeros fl bs c else Suc c)"

definition encode_bytes :: "i32 \<Rightarrow> nat \<times> bytes" where
  "encode_bytes value =
    (let bytes = 0 # le_bytes 4 value;
         count = trim_zeros 1 bytes 4;
         bit = push_bit (7 - (count - 1)) (1::u8);
         current = bytes ! count
     in if bit \<le> current then (count + 1, bytes[0 := NOT (bit - 1)])
        else if 1 < count then (count, bytes[0 := current OR NOT (push_bit 1 bit - 1)])
        else (count, bytes[0 := bytes ! 1]))"

definition write_varint :: "i32 \<Rightarrow> bytes" where
  "write_varint value = (let (len, bytes) = encode_bytes value in take len bytes)"

definition encode_varint_to_vec :: "i32 \<Rightarrow> bytes \<Rightarrow> bytes" where
  "encode_varint_to_vec value out = (let (len, bytes) = encode_bytes value in out @ take len bytes)"

definition VSTRING_MAX_LEN :: nat where
  "VSTRING_MAX_LEN = 0x7FFF"

definition write_vstring :: "bytes \<Rightarrow> bytes io_result" where
  "write_vstring bs =
    (let len = length bs
     in if VSTRING_MAX_LEN < len then Inl InvalidInput
        else Inr ((if 0x7F < len
                   then [word_of_nat (len div 0x100 + 0x80), word_of_nat (len mod 0x100)]
                   else [word_of_nat len])
                  @ (if 0 < len then bs else [])))"

text \<open>
  \<open>write_varlong\<close> shifts \<open>1u8\<close> by \<open>(7 + min_bytes).wrapping_sub(cnt)\<close>.  With \<open>min_bytes\<close> in
  1 to 8 the amount is at most 7; \<open>min_bytes = 0\<close> with an eight-byte value makes the amount
  wrap and is outside the domain of the function, as is \<open>min_bytes > 8\<close>, where the count
  stays at 8 and the shift is by more than 7.
\<close>

definition write_varlong :: "i64 \<Rightarrow> nat \<Rightarrow> bytes" where
  "write_varlong value min_bytes =
    (let bytes = le_bytes 8 value;
         cnt = trim_zeros min_bytes (0 # bytes) 8;
         bit = push_bit (7 + min_bytes - cnt) (1::u8)
     in if bit \<le> bytes ! (cnt - 1) then NOT (bit - 1) # take cnt bytes
        else if min_bytes < cnt then (bytes ! (cnt - 1) OR NOT (bit * 2 - 1)) # take (cnt - 1) bytes
        else bytes ! (cnt - 1) # take (cnt - 1) bytes)"

definition write_longint :: "i64 \<Rightarrow> bytes" where
  "write_longint value =
    (if 0 \<le> sint value \<and> sint value \<le> 0x7FFFFFFF then le_bytes 4 (ucast value :: i32)
     else le_bytes 4 (0xFFFFFFFF :: u32) @ le_bytes 8 value)"

definition write_varlong30 :: "i64 \<Rightarrow> nat \<Rightarrow> bytes" where
  "write_varlong30 value min_bytes = write_varlong value min_bytes"

definition write_int :: "i32 \<Rightarrow> bytes" where
  "write_int value = le_bytes 4 value"

definition write_varint30_int :: "i32 \<Rightarrow> nat \<Rightarrow> bytes" where
  "write_varint30_int value protocol_version =
    (if protocol_version < 30 then write_int value else write_varint value)"

section \<open>Readers\<close>

definition decode_bytes :: "bytes \<Rightarrow> (i32 \<times> nat) io_result" where
  "decode_bytes bs =
    (if bs = [] then Inl UnexpectedEof
     else let first = bs ! 0; extra = int_byte_extra first
          in if MAX_EXTRA_BYTES < extra then Inl InvalidData
             else if length bs < 1 + extra then Inl UnexpectedEof
             else let buf = (if 0 < extra
                             then take extra (drop 1 bs)
                                    @ [first AND (push_bit (8 - extra) 1 - 1)]
                                    @ replicate (4 - extra) 0
                             else [first, 0, 0, 0, 0])
                  in Inr (from_le (take 4 buf), 1 + extra))"

definition decode_varint :: "bytes \<Rightarrow> i32 read_result" where
  "decode_varint bs = bindE (decode_bytes bs) (\<lambda>(value, consumed). Inr (value, drop consumed bs))"

definition read_varint :: "bytes \<Rightarrow> i32 read_result" where
  "read_varint s =
    bindE (read_exact 1 s) (\<lambda>(first, s1).
      let extra = int_byte_extra (first ! 0)
      in if MAX_EXTRA_BYTES < extra then Inl InvalidData
         else if 0 < extra
         then bindE (read_exact extra s1) (\<lambda>(xs, s2).
                let buf = xs @ [first ! 0 AND (push_bit (8 - extra) 1 - 1)] @ replicate (4 - extra) 0
                in Inr (from_le (take 4 buf), s2))
         else Inr (from_le (take 4 [first ! 0, 0, 0, 0, 0]), s1))"

definition read_varint_bounded :: "i32 \<Rightarrow> i32 \<Rightarrow> bytes \<Rightarrow> i32 read_result" where
  "read_varint_bounded lo hi s =
    bindE (read_varint s) (\<lambda>(v, s1).
      if sint v < sint lo \<or> sint hi < sint v then Inl ProtocolViolation else Inr (v, s1))"

definition read_varint_size :: "nat \<Rightarrow> bytes \<Rightarrow> nat read_result" where
  "read_varint_size mx s =
    bindE (read_varint s) (\<lambda>(v, s1).
      if sint v < 0 \<or> mx < nat (sint v) then Inl ProtocolViolation else Inr (nat (sint v), s1))"

definition read_varlong :: "nat \<Rightarrow> bytes \<Rightarrow> i64 read_result" where
  "read_varlong mn s =
    (if mn = 0 \<or> 8 < mn then Inl InvalidData
     else bindE (read_exact mn s) (\<lambda>(initial, s1).
       let leading = initial ! 0; extra = int_byte_extra leading
       in if 0 < extra
          then if 9 < mn + extra then Inl InvalidData
               else bindE (read_exact extra s1) (\<lambda>(xs, s2).
                      let result = drop 1 initial @ xs @ [leading AND (push_bit (8 - extra) 1 - 1)]
                                     @ replicate (9 - (mn + extra)) 0
                      in Inr (from_le (take 8 result), s2))
          else let result = drop 1 initial @ [leading] @ replicate (9 - mn) 0
               in Inr (from_le (take 8 result), s1)))"

definition read_longint :: "bytes \<Rightarrow> i64 read_result" where
  "read_longint s =
    bindE (read_exact 4 s) (\<lambda>(buf, s1).
      let first = (from_le buf :: i32)
      in if first = -1
         then bindE (read_exact 8 s1) (\<lambda>(buf64, s2). Inr (from_le buf64, s2))
         else Inr (scast first, s1))"

definition read_varlong30 :: "nat \<Rightarrow> bytes \<Rightarrow> i64 read_result" where
  "read_varlong30 min_bytes s = read_varlong min_bytes s"

definition read_int :: "bytes \<Rightarrow> i32 read_result" where
  "read_int s = bindE (read_exact 4 s) (\<lambda>(buf, s1). Inr (from_le buf, s1))"

definition read_varint30_int :: "nat \<Rightarrow> bytes \<Rightarrow> i32 read_result" where
  "read_varint30_int protocol_version s =
    (if protocol_version < 30 then read_int s else read_varint s)"

section \<open>The leading byte\<close>

lemma lead_part:
  assumes "1 \<le> k" "k \<le> 6" "b < push_bit (7 - k) (1::u8)"
  shows "int_byte_extra (b OR NOT (push_bit (7 - k) 1 * 2 - 1)) = k"
    and "(b OR NOT (push_bit (7 - k) 1 * 2 - 1)) AND (push_bit (8 - k) 1 - 1) = b"
proof -
  have chk: "list_all (\<lambda>k. list_all (\<lambda>m. let b = (word_of_nat m :: u8) in
          int_byte_extra (b OR NOT (push_bit (7 - k) 1 * 2 - 1)) = k \<and>
          (b OR NOT (push_bit (7 - k) 1 * 2 - 1)) AND (push_bit (8 - k) 1 - 1) = b)
        [0..<2 ^ (7 - k)]) [1..<7]"
    by code_simp
  obtain m where m: "b = word_of_nat m" "m < 2 ^ (7 - k)"
    using assms by (auto elim: word_less_bound [of _ "7 - k"])
  have "k \<in> set [1..<7]" "m \<in> set [0..<2 ^ (7 - k)]" using assms m by auto
  with chk m show "int_byte_extra (b OR NOT (push_bit (7 - k) 1 * 2 - 1)) = k"
    and "(b OR NOT (push_bit (7 - k) 1 * 2 - 1)) AND (push_bit (8 - k) 1 - 1) = b"
    unfolding list_all_iff Let_def by blast+
qed

lemma lead_small:
  assumes "b < 128"
  shows "int_byte_extra b = 0"
proof -
  have chk: "list_all (\<lambda>m. int_byte_extra (word_of_nat m) = 0) [0..<128]"
    by code_simp
  have "b < 2 ^ 7" using assms by simp
  then obtain m where "b = word_of_nat m" "m < 2 ^ 7" by (rule word_less_bound) simp
  with chk show ?thesis by (simp add: list_all_iff)
qed

lemma lead_full:
  assumes "k \<le> 5"
  shows "int_byte_extra (NOT (push_bit (7 - k) 1 - 1)) = Suc k"
proof -
  have "list_all (\<lambda>k. int_byte_extra (NOT (push_bit (7 - k) 1 - 1)) = Suc k) [0..<6]"
    by code_simp
  then show ?thesis using assms by (simp add: list_all_iff)
qed

lemma trim_zeros_bounds:
  "fl \<le> c \<Longrightarrow> fl \<le> trim_zeros fl bs c \<and> trim_zeros fl bs c \<le> c"
  by (induction c) auto

lemma trim_zeros_dropped:
  "trim_zeros fl bs c < i \<Longrightarrow> i \<le> c \<Longrightarrow> bs ! i = 0"
  by (induction c) (auto simp: le_Suc_eq split: if_splits)

lemma pad_take:
  assumes "length bs = n" "t \<le> n" "\<And>i. t \<le> i \<Longrightarrow> i < n \<Longrightarrow> bs ! i = z"
  shows "take t bs @ replicate (n - t) z = bs"
  using assms by (intro nth_equalityI) (auto simp: nth_append)

text \<open>What the shared trimming of trailing zero bytes leaves of \<open>bs\<close>.\<close>

lemma trim_pad:
  assumes "length bs = n" "fl \<le> n" "t = trim_zeros fl (x # bs) n"
  shows "fl \<le> t" "t \<le> n" "take t bs @ replicate (n - t) 0 = bs"
proof -
  show "fl \<le> t" "t \<le> n" using trim_zeros_bounds [of fl n "x # bs"] assms by auto
  have "bs ! i = 0" if "t \<le> i" "i < n" for i
    using trim_zeros_dropped [of fl "x # bs" n "Suc i"] that assms by simp
  then show "take t bs @ replicate (n - t) 0 = bs"
    using \<open>t \<le> n\<close> assms by (intro pad_take) auto
qed

lemma take_Cons_replicate [simp]: "take n (x # replicate n x) = replicate n x"
  using take_replicate [of n "Suc n" x] by simp

lemma take_Suc_snoc: "0 < t \<Longrightarrow> t \<le> length bs \<Longrightarrow> take (t - 1) bs @ [bs ! (t - 1)] = take t bs"
  by (cases t) (auto simp: take_Suc_conv_app_nth)

lemma read_varint_extra:
  assumes "length ys = int_byte_extra lead" "0 < int_byte_extra lead" "int_byte_extra lead \<le> 4"
  shows "read_varint (lead # ys @ rest) =
    Inr (from_le (take 4 (ys @ [lead AND (push_bit (8 - int_byte_extra lead) 1 - 1)]
           @ replicate (4 - int_byte_extra lead) 0)), rest)"
  using assms by (simp add: read_varint_def MAX_EXTRA_BYTES_def Let_def)

lemma read_varint_plain:
  "int_byte_extra lead = 0 \<Longrightarrow> read_varint (lead # rest) = Inr (from_le [lead, 0, 0, 0], rest)"
  by (simp add: read_varint_def MAX_EXTRA_BYTES_def)

lemma read_varint_write_varint [simp]: "read_varint (write_varint v @ rest) = Inr (v, rest)"
proof -
  define bs where "bs = le_bytes 4 v"
  define t where "t = trim_zeros 1 (0 # bs) 4"
  have len: "length bs = 4" by (simp add: bs_def)
  have t1: "1 \<le> t" "t \<le> 4" and pad: "take t bs @ replicate (4 - t) 0 = bs"
    using trim_pad [OF len _ t_def] by auto
  define k where "k = t - 1"
  have k: "k \<le> 3" "t = Suc k" using t1 by (auto simp: k_def)
  define bit where "bit = push_bit (7 - k) (1::u8)"
  define cur where "cur = bs ! k"
  have v: "from_le bs = v" by (simp add: bs_def)
  have cur: "(0 # bs) ! t = cur" using k by (simp add: cur_def)
  have w: "write_varint v =
     (if bit \<le> cur then NOT (bit - 1) # take t bs
      else if 1 < t then (cur OR NOT (bit * 2 - 1)) # take k bs else [bs ! 0])"
    unfolding write_varint_def encode_bytes_def Let_def bs_def [symmetric] t_def [symmetric]
      k_def [symmetric] bit_def [symmetric] cur
    using k len by (simp add: bit_def mult.commute)
  have snoc: "take k bs @ cur # replicate (4 - t) 0 = bs"
    using pad take_Suc_snoc [of t bs] k len
    by (metis append.assoc append_Cons append_Nil cur_def diff_Suc_1 t1(2) zero_less_Suc)
  consider (full) "bit \<le> cur" | (part) "cur < bit" "1 < t" | (small) "cur < bit" "t = 1"
    using t1 by (metis le_neq_implies_less not_le)
  then show ?thesis
  proof cases
    case full
    have e: "int_byte_extra (NOT (bit - 1)) = t" using lead_full [of k] k by (simp add: bit_def)
    have m: "NOT (bit - 1) AND (push_bit (8 - t) 1 - 1) = 0" using k by (simp add: bit_def)
    show ?thesis
      using read_varint_extra [of "take t bs" "NOT (bit - 1)" rest] e m full w t1 len v pad by simp
  next
    case part
    let ?lead = "cur OR NOT (bit * 2 - 1)"
    have k1: "1 \<le> k" using part k by simp
    have e: "int_byte_extra ?lead = k" and m: "?lead AND (push_bit (8 - k) 1 - 1) = cur"
      using lead_part [of k cur] part k k1 by (simp_all add: bit_def)
    have four: "4 - k = Suc (4 - t)" using k by simp
    have "read_varint (?lead # take k bs @ rest)
        = Inr (from_le (take 4 (take k bs @ [cur] @ replicate (4 - k) 0)), rest)"
      using read_varint_extra [of "take k bs" ?lead rest] unfolding e m using k k1 len by simp
    also have "take k bs @ [cur] @ replicate (4 - k) 0 = (take k bs @ cur # replicate (4 - t) 0) @ [0]"
      unfolding four by (simp add: replicate_append_same)
    also note snoc
    finally show ?thesis using part(1) [folded not_le] part w len v by simp
  next
    case small
    then have k0: "k = 0" "cur = bs ! 0" using k by (auto simp: cur_def)
    have e: "int_byte_extra cur = 0" using lead_small [of cur] small k0 by (simp add: bit_def)
    have "[cur, 0, 0, 0] = bs" using snoc k0 small by (simp add: numeral_3_eq_3)
    then show ?thesis using read_varint_plain [OF e, of rest] small(1) [folded not_le] small w v k0 by simp
  qed
qed

lemma read_varlong_extra:
  assumes "length xs = mn - 1" "0 < mn" "length ys = int_byte_extra lead"
    "0 < int_byte_extra lead" "mn + int_byte_extra lead \<le> 9"
  shows "read_varlong mn (lead # xs @ ys @ rest) =
    Inr (from_le (take 8 (xs @ ys @ [lead AND (push_bit (8 - int_byte_extra lead) 1 - 1)]
           @ replicate (9 - (mn + int_byte_extra lead)) 0)), rest)"
proof -
  have "read_exact mn ((lead # xs) @ ys @ rest) = Inr (lead # xs, ys @ rest)"
    using assms by (intro read_exact_append) simp
  then show ?thesis using assms by (simp add: read_varlong_def Let_def)
qed

lemma read_varlong_plain:
  assumes "length xs = mn - 1" "0 < mn" "mn \<le> 8" "int_byte_extra lead = 0"
  shows "read_varlong mn (lead # xs @ rest) =
    Inr (from_le (take 8 (xs @ [lead] @ replicate (9 - mn) 0)), rest)"
proof -
  have "read_exact mn ((lead # xs) @ rest) = Inr (lead # xs, rest)"
    using assms by (intro read_exact_append) simp
  then show ?thesis using assms by (simp add: read_varlong_def Let_def)
qed

lemma trim_zeros_stops: "fl < trim_zeros fl bs c \<Longrightarrow> bs ! trim_zeros fl bs c \<noteq> 0"
  by (induction c) (auto split: if_splits)

text \<open>The byte at which the trimming of a 64-bit value stops is its highest non-zero byte, unless the
  minimum width stopped it.\<close>

lemma varlong_top:
  assumes "1 \<le> mn" "mn \<le> 8" "bs = le_bytes 8 (v :: i64)" "t = trim_zeros mn (0 # bs) 8"
  shows "unat v < 2 ^ (8 * t)" "unat (bs ! (t - 1)) = unat v div 2 ^ (8 * (t - 1))" "mn < t \<Longrightarrow> bs ! (t - 1) \<noteq> 0"
proof -
  have t: "mn \<le> t" "t \<le> 8" "take t bs @ replicate (8 - t) 0 = bs"
    using trim_pad [OF _ assms(2,4)] assms(3) by auto
  have "drop t bs = replicate (8 - t) 0" by (metis append_eq_conv_conj length_take min.absorb2 t(2,3) assms(3) length_le_bytes)
  then have "from_le (le_bytes (8 - t) (drop_bit (8 * t) v)) = (0 :: i64)" using drop_le_bytes [OF t(2), of v] assms(3) by simp
  then have "take_bit (8 * (8 - t)) (drop_bit (8 * t) v) = 0" unfolding from_le_le_bytes_take .
  moreover have "take_bit (8 * (8 - t)) (drop_bit (8 * t) v) = drop_bit (8 * t) v"
    using t(2) by (intro bit_word_eqI) (auto simp: bit_simps dest: bit_imp_le_length)
  ultimately have "unat (drop_bit (8 * t) v) = 0" by simp
  then have "unat v div 2 ^ (8 * t) = 0" by (simp only: unat_drop_bit_eq) (simp only: drop_bit_eq_div)
  then show less: "unat v < 2 ^ (8 * t)" by (simp add: div_eq_0_iff)
  have e: "8 * t = 8 * (t - 1) + 8" using t(1) assms(1) by simp
  have "unat v div 2 ^ (8 * (t - 1)) < 2 ^ 8"
    using less unfolding e power_add by (simp add: div_less_iff_less_mult mult.commute)
  moreover have "unat (bs ! (t - 1)) = take_bit 8 (unat v div 2 ^ (8 * (t - 1)))"
    using t assms(1,3) by (simp add: nth_le_bytes unsigned_ucast_eq unat_drop_bit_eq flip: drop_bit_eq_div)
  ultimately show "unat (bs ! (t - 1)) = unat v div 2 ^ (8 * (t - 1))" by (simp add: take_bit_nat_eq_self)
  show "bs ! (t - 1) \<noteq> 0" if "mn < t" using trim_zeros_stops [of mn "0 # bs" 8] that assms(4) by (cases t) auto
qed

lemma varlong_range:
  assumes "1 \<le> mn" "mn \<le> 8" "bs = le_bytes 8 (v :: i64)" "t = trim_zeros mn (0 # bs) 8"
  shows "unat v < 2 ^ (8 * mn + 41) \<longleftrightarrow> t \<le> mn + 5 \<or> t = mn + 6 \<and> bs ! (t - 1) < 2"
proof -
  note top = varlong_top [OF assms]
  consider "t \<le> mn + 5" | "t = mn + 6" | "mn + 7 \<le> t" by linarith
  then show ?thesis
  proof cases
    case 1
    then have "(2::nat) ^ (8 * t) \<le> 2 ^ (8 * mn + 41)" by (intro power_increasing) auto
    then show ?thesis using top(1) 1 by linarith
  next
    case 2
    then have "unat (bs ! (t - 1)) < 2 \<longleftrightarrow> unat v < 2 ^ (8 * mn + 41)"
      using top(2) by (simp add: div_less_iff_less_mult power_add mult.commute)
    then show ?thesis using 2 by (simp add: word_less_nat_alt)
  next
    case 3
    then have "1 \<le> unat v div 2 ^ (8 * (t - 1))"
      using top(2,3) by (metis Suc_le_eq unat_gt_0 One_nat_def add_leD1 le_neq_implies_less less_add_same_cancel1 not_less zero_less_numeral)
    then have "2 ^ (8 * (t - 1)) \<le> unat v" by (simp add: less_eq_div_iff_mult_less_eq)
    moreover have "(2::nat) ^ (8 * mn + 41) \<le> 2 ^ (8 * (t - 1))" using 3 by (intro power_increasing) auto
    ultimately show ?thesis using 3 by linarith
  qed
qed

lemma read_varlong_write_varlong_range:
  assumes mn: "1 \<le> mn" "mn \<le> 8" and small: "unat v < 2 ^ (8 * mn + 41)"
  shows "read_varlong mn (write_varlong v mn @ rest) = Inr (v, rest)"
proof -
  define bs where "bs = le_bytes 8 v"
  define t where "t = trim_zeros mn (0 # bs) 8"
  have len: "length bs = 8" by (simp add: bs_def)
  have t1: "mn \<le> t" "t \<le> 8" and pad: "take t bs @ replicate (8 - t) 0 = bs"
    using trim_pad [OF len mn(2) t_def] by auto
  define k where "k = t - mn"
  have k: "k \<le> 5 \<or> k = 6 \<and> bs ! (t - 1) < 2" "t = mn + k"
    using t1 mn small varlong_range [OF mn bs_def t_def] by (auto simp: k_def)
  define bit where "bit = push_bit (7 - k) (1::u8)"
  define cur where "cur = bs ! (t - 1)"
  have v: "from_le bs = v" by (simp add: bs_def)
  have "7 + mn - t = 7 - k" using k by simp
  then have w: "write_varlong v mn =
     (if bit \<le> cur then NOT (bit - 1) # take t bs
      else if mn < t then (cur OR NOT (bit * 2 - 1)) # take (t - 1) bs
      else cur # take (t - 1) bs)"
    by (simp only: write_varlong_def Let_def bs_def [symmetric] t_def [symmetric] bit_def cur_def)
  have "take (t - 1) bs @ [cur] = take t bs"
    using take_Suc_snoc [of t bs] mn t1 len by (simp add: cur_def)
  then have snoc: "take (t - 1) bs @ cur # replicate (8 - t) 0 = bs"
    using pad by (metis append.assoc append_Cons append_Nil)
  have nine: "9 - t = Suc (8 - t)" using t1 by simp
  define xs where "xs = take (mn - 1) bs"
  have xs: "length xs = mn - 1" using len mn by (simp add: xs_def)
  have split: "\<exists>ys. take j bs = xs @ ys" if "mn - 1 \<le> j" for j
    unfolding xs_def using that by (metis append_take_drop_id min.absorb1 take_take)
  consider (full) "bit \<le> cur" | (part) "cur < bit" "mn < t" | (small) "cur < bit" "t = mn"
    using t1 by (metis le_neq_implies_less not_le)
  then show ?thesis
  proof cases
    case full
    let ?lead = "NOT (bit - 1)"
    obtain ys where sp: "take t bs = xs @ ys" using split [of t] t1 by (meson diff_le_self le_trans)
    have k5: "k \<le> 5" using k(1) full by (auto simp: bit_def cur_def)
    have e: "int_byte_extra ?lead = Suc k" using lead_full [OF k5] by (simp add: bit_def)
    have m: "?lead AND (push_bit (8 - Suc k) 1 - 1) = 0" by (simp add: bit_def)
    have ys: "length ys = Suc k" using arg_cong [OF sp, of length] mn t1 len k xs by simp
    have "read_varlong mn (?lead # xs @ ys @ rest)
      = Inr (from_le (take 8 (xs @ ys @ [0] @ replicate (9 - (mn + Suc k)) 0)), rest)"
      using read_varlong_extra [OF xs, of ys ?lead rest] e m ys mn k t1 by simp
    also have "xs @ ys @ [0] @ replicate (9 - (mn + Suc k)) 0 = (take t bs @ replicate (8 - t) 0) @ [0]"
      using sp k by (simp add: replicate_append_same)
    also note pad
    finally show ?thesis using full w sp len v by simp
  next
    case part
    let ?lead = "cur OR NOT (bit * 2 - 1)"
    obtain ys where sp: "take (t - 1) bs = xs @ ys" using split [of "t - 1"] t1 by (meson diff_le_mono)
    have k1: "1 \<le> k" using part k by simp
    have e: "int_byte_extra ?lead = k" and m: "?lead AND (push_bit (8 - k) 1 - 1) = cur"
      using lead_part [of k cur] part k k1 by (auto simp: bit_def)
    have ys: "length ys = k" using arg_cong [OF sp, of length] mn t1 len k xs by simp
    have "read_varlong mn (?lead # xs @ ys @ rest)
      = Inr (from_le (take 8 (xs @ ys @ [cur] @ replicate (9 - (mn + k)) 0)), rest)"
      using read_varlong_extra [OF xs, of ys ?lead rest] e m ys mn k k1 t1 by simp
    also have "xs @ ys @ [cur] @ replicate (9 - (mn + k)) 0
        = (take (t - 1) bs @ cur # replicate (8 - t) 0) @ [0]"
      using sp nine k by (simp add: replicate_append_same)
    also note snoc
    finally show ?thesis using part(1) [folded not_le] part w sp len v by simp
  next
    case small
    have e: "int_byte_extra cur = 0" using lead_small [of cur] small k by (simp add: bit_def)
    have sp: "take (t - 1) bs = xs" using small by (simp add: xs_def)
    have "read_varlong mn (cur # xs @ rest)
      = Inr (from_le (take 8 (xs @ [cur] @ replicate (9 - mn) 0)), rest)"
      using read_varlong_plain [OF xs] e mn by simp
    also have "xs @ [cur] @ replicate (9 - mn) 0 = (take (t - 1) bs @ cur # replicate (8 - t) 0) @ [0]"
      using sp small nine by (simp add: replicate_append_same)
    also note snoc
    finally show ?thesis using small(1) [folded not_le] small w sp len v by simp
  qed
qed

lemma read_varlong_write_varlong:
  assumes "3 \<le> mn" "mn \<le> 8"
  shows "read_varlong mn (write_varlong v mn @ rest) = Inr (v, rest)"
proof -
  have "(2::nat) ^ 64 \<le> 2 ^ (8 * mn + 41)" using assms by (intro power_increasing) auto
  then have "unat v < 2 ^ (8 * mn + 41)" using unat_lt2p [of v] by simp
  then show ?thesis using assms by (intro read_varlong_write_varlong_range) auto
qed

text \<open>Outside that range the leading byte announces six extra bytes, although more were written.\<close>

lemma read_varlong_write_varlong_beyond:
  assumes mn: "1 \<le> mn" "mn \<le> 8" and big: "2 ^ (8 * mn + 41) \<le> unat v"
  shows "\<exists>w junk. junk \<noteq> [] \<and> read_varlong mn (write_varlong v mn @ rest) = Inr (w, junk @ rest)"
proof -
  define bs where "bs = le_bytes 8 v"
  define t where "t = trim_zeros mn (0 # bs) 8"
  have len: "length bs = 8" by (simp add: bs_def)
  have t1: "mn \<le> t" "t \<le> 8" using trim_pad [OF len mn(2) t_def] by auto
  have "\<not> (t \<le> mn + 5 \<or> t = mn + 6 \<and> bs ! (t - 1) < 2)"
    using big varlong_range [OF mn bs_def t_def] by (simp flip: not_less)
  then have t: "t = mn + 6 \<and> 2 \<le> bs ! (t - 1) \<or> t = mn + 7" "mn < t" using t1 mn by (cases "t = mn + 6"; auto)+
  define lead :: u8 where "lead = (if t = mn + 6 then 254 else 255)"
  have "1 \<le> bs ! (t - 1)" using varlong_top(3) [OF mn bs_def t_def t(2)]
    by (simp add: word_le_nat_alt Suc_le_eq unat_gt_0)
  moreover have "7 + mn - t = (if t = mn + 6 then 1 else 0)" using t(1) by auto
  ultimately have "write_varlong v mn = lead # take t bs"
    using t(1) unfolding write_varlong_def Let_def bs_def [symmetric] t_def [symmetric] lead_def by auto
  moreover have e: "int_byte_extra lead = 6" unfolding lead_def by (simp add: int_byte_extra_def) code_simp
  moreover have "take t bs = take (mn - 1) bs @ take 6 (drop (mn - 1) (take t bs)) @ drop (mn + 5) (take t bs)"
    using t(2) mn(1) append_take_drop_id [of 6 "drop (mn - 1) (take t bs)"] append_take_drop_id [of "mn - 1" "take t bs"]
      min_absorb1 [of "mn - 1" t] by (simp add: add.commute)
  moreover have "length (take (mn - 1) bs) = mn - 1" "length (take 6 (drop (mn - 1) (take t bs))) = 6"
    "drop (mn + 5) (take t bs) \<noteq> []" using t mn t1 len by auto
  moreover have "mn + 6 \<le> 9" using t(1) t1 by auto
  ultimately show ?thesis
    using read_varlong_extra [of "take (mn - 1) bs" mn "take 6 (drop (mn - 1) (take t bs))" lead "drop (mn + 5) (take t bs) @ rest"] mn
    by (metis append_Cons append_assoc le_zero_eq not_one_le_zero zero_less_numeral neq0_conv)
qed

lemma decode_varint_read_varint: "decode_varint bs = read_varint bs"
proof (cases bs)
  case Nil
  then show ?thesis by (simp add: decode_varint_def decode_bytes_def read_varint_def read_exact_def)
next
  case (Cons b cs)
  then show ?thesis
    by (simp add: decode_varint_def decode_bytes_def read_varint_def read_exact_def Let_def)
qed

lemma read_int_write_int [simp]: "read_int (write_int v @ rest) = Inr (v, rest)"
  by (simp add: read_int_def write_int_def)

lemma scast_ucast_small:
  assumes "0 \<le> sint v" "sint (v::i64) \<le> 0x7FFFFFFF"
  shows "scast (ucast v :: i32) = v" "(ucast v :: i32) \<noteq> -1"
proof -
  have u: "uint v = sint v" using assms by (simp add: uint_sint take_bit_int_eq_self)
  have "signed_take_bit 31 (uint v) = uint v"
    using assms u by (intro signed_take_bit_int_eq_self) auto
  then have s: "sint (ucast v :: i32) = sint v" by (simp add: signed_ucast_eq u)
  then show "scast (ucast v :: i32) = v" by (metis of_int_sint scast_id)
  show "(ucast v :: i32) \<noteq> -1" using s assms by auto
qed

lemma read_longint_write_longint: "read_longint (write_longint v @ rest) = Inr (v, rest)"
proof (cases "0 \<le> sint v \<and> sint v \<le> 0x7FFFFFFF")
  case True
  then show ?thesis using scast_ucast_small [of v]
    by (simp add: write_longint_def read_longint_def)
next
  case False
  then have "write_longint v = le_bytes 4 (0xFFFFFFFF :: u32) @ le_bytes 8 v"
    unfolding write_longint_def by (rule if_not_P)
  then show ?thesis by (simp add: read_longint_def Let_def)
qed


section \<open>Truncation\<close>

lemma read_varint_Inr_shape:
  assumes "read_varint s = Inr (v, r)"
  obtains lead ys where "s = lead # ys @ r" "length ys = int_byte_extra lead" "int_byte_extra lead \<le> 4"
proof -
  from assms obtain lead s1 where s: "s = lead # s1" and le: "int_byte_extra lead \<le> 4"
    by (cases s) (auto simp: read_varint_def read_exact_def Let_def MAX_EXTRA_BYTES_def split: if_splits)
  show ?thesis
  proof (cases "int_byte_extra lead = 0")
    case True
    then show ?thesis using assms s that [of lead "[]"] by (simp add: read_varint_plain)
  next
    case False
    then obtain ys where "s1 = ys @ r" "length ys = int_byte_extra lead"
      using assms s le
      by (auto simp: read_varint_def Let_def MAX_EXTRA_BYTES_def bindE_eq_Inr dest: read_exact_Inr)
    then show ?thesis using that s le by simp
  qed
qed

lemma prefix_decided_read_varint [prefix_decided_intros]: "prefix_decided read_varint"
  unfolding read_varint_def by (intro prefix_decided_intros)

lemma prefix_decided_read_varlong [prefix_decided_intros]: "prefix_decided (read_varlong mn)"
  unfolding read_varlong_def by (intro prefix_decided_intros)

lemma prefix_decided_read_int [prefix_decided_intros]: "prefix_decided read_int"
  unfolding read_int_def by (intro prefix_decided_intros)

lemma prefix_decided_read_longint [prefix_decided_intros]: "prefix_decided read_longint"
  unfolding read_longint_def by (intro prefix_decided_intros)

section \<open>The size of an encoding\<close>

lemma trim_zeros_kept: "fl < trim_zeros fl bs c \<Longrightarrow> bs ! trim_zeros fl bs c \<noteq> 0"
  by (induction c) (auto split: if_splits)

lemma le_bytes_top:
  assumes "take t (le_bytes n (v::'a::len word)) @ replicate (n - t) 0 = le_bytes n v"
    "t = Suc k" "t \<le> n" "LENGTH('a) = 8 * n"
  shows "unat (le_bytes n v ! k) = unat v div 2 ^ (8 * k)"
proof -
  have len: "length (take t (le_bytes n v)) = t" using assms by simp
  have "drop k (le_bytes n v) = le_bytes n v ! k # drop t (le_bytes n v)"
    using assms by (simp add: Cons_nth_drop_Suc)
  also have "drop t (le_bytes n v) = replicate (n - t) 0"
    using arg_cong [OF assms(1), of "drop t"] len by simp
  finally have "le_bytes (n - k) (drop_bit (8 * k) v) = le_bytes n v ! k # replicate (n - t) 0"
    using assms by (simp add: drop_le_bytes)
  then have "from_le (le_bytes n v ! k # replicate (n - t) 0) = (from_le (le_bytes (n - k) (drop_bit (8 * k) v)) :: 'a word)"
    by simp
  also have "\<dots> = drop_bit (8 * k) v"
    unfolding from_le_le_bytes_take using assms
    by (intro bit_word_eqI) (auto simp: bit_take_bit_iff bit_drop_bit_eq diff_mult_distrib2 dest: bit_imp_le_length)
  finally have "ucast (le_bytes n v ! k) = drop_bit (8 * k) v" by simp
  then have "unat (ucast (le_bytes n v ! k) :: 'a word) = unat v div 2 ^ (8 * k)"
    by (metis unat_drop_bit_eq drop_bit_eq_div)
  moreover have "unat (ucast (le_bytes n v ! k) :: 'a word) = unat (le_bytes n v ! k)"
  proof -
    have "unat (le_bytes n v ! k) < 2 ^ LENGTH('a)"
      using assms unat_lt2p [of "le_bytes n v ! k"] power_increasing [of 8 "8 * n" "2::nat"] by simp
    then show ?thesis by (simp add: unsigned_ucast_eq take_bit_nat_eq_self)
  qed
  ultimately show ?thesis by simp
qed

interpretation varint: stream_codec write_varint read_varint "\<lambda>_. True"
  by unfold_locales (auto intro: prefix_decided_intros)

interpretation varlong: stream_codec "\<lambda>v. write_varlong v mn" "read_varlong mn" "\<lambda>_. 3 \<le> mn \<and> mn \<le> 8"
  by unfold_locales (auto intro: prefix_decided_intros read_varlong_write_varlong)

interpretation int4: stream_codec write_int read_int "\<lambda>_. True"
  by unfold_locales (auto intro: prefix_decided_intros)

interpretation longint: stream_codec write_longint read_longint "\<lambda>_. True"
  by unfold_locales (auto intro: prefix_decided_intros read_longint_write_longint)

section \<open>Properties\<close>

text \<open>C26: the variable-length integer codec is a lossless, self-delimiting stream code. Any
  list of 32-bit values written back to back by \<^term>\<open>write_varint\<close> is read back exactly by the
  same number of \<^term>\<open>read_varint\<close> calls, and the bytes that follow are left untouched.\<close>

theorem varint_stream_roundtrip:
  "read_many read_varint (length vs) (concat (map write_varint vs) @ rest) = Inr (vs, rest)"
  by (rule varint.read_many_enc) (simp add: list_all_iff)

text \<open>C29: the encoded size of a value is 1 byte below 2^7, then one more byte for each further
  7 bits, and 5 bytes for everything from 2^28 on, negative values included.\<close>

theorem write_varint_length:
  "length (write_varint v) =
    (if unat v < 2 ^ 7 then 1 else if unat v < 2 ^ 14 then 2 else if unat v < 2 ^ 21 then 3
     else if unat v < 2 ^ 28 then 4 else 5)"
proof -
  define bs where "bs = le_bytes 4 v"
  define t where "t = trim_zeros 1 (0 # bs) 4"
  have len: "length bs = 4" by (simp add: bs_def)
  have t1: "1 \<le> t" "t \<le> 4" and pad: "take t bs @ replicate (4 - t) 0 = bs"
    using trim_pad [OF len _ t_def] by auto
  define k where "k = t - 1"
  have k: "k \<le> 3" "t = Suc k" using t1 by (auto simp: k_def)
  define bit where "bit = push_bit (7 - k) (1::u8)"
  have top: "unat (bs ! k) = unat v div 2 ^ (8 * k)"
    using le_bytes_top [of t 4 v k] pad k t1 by (simp add: bs_def)
  have b: "unat bit = 2 ^ (7 - k)" 
    by (simp add: bit_def push_bit_eq_mult unat_power_2)
  have full: "bit \<le> bs ! k \<longleftrightarrow> 2 ^ (7 * k + 7) \<le> unat v"
    using k by (simp add: word_le_nat_alt b top le_div_power_iff algebra_simps flip: power_add)
  have low: "k = 0 \<or> 2 ^ (8 * k) \<le> unat v"
  proof (cases "k = 0")
    case False
    then have "bs ! k \<noteq> 0" using trim_zeros_kept [of 1 "0 # bs" 4, folded t_def] t1 k by auto
    then have "1 \<le> unat v div 2 ^ (8 * k)" by (simp add: top [symmetric] unat_gt_0 Suc_le_eq)
    then show ?thesis using le_div_power_iff [of 0 "unat v" "8 * k"] by simp
  qed simp
  have high: "unat v < 2 ^ (8 + 8 * k)" 
    using unat_lt2p [of "bs ! k"] le_div_power_iff [of 8 "unat v" "8 * k"] by (simp add: top not_le [symmetric])
  have "length (write_varint v) = (if bit \<le> bs ! k then k + 2 else k + 1)"
    unfolding write_varint_def encode_bytes_def Let_def bs_def [symmetric] t_def [symmetric]
    using t1 k len by (auto simp: bit_def)
  moreover have "k = 0 \<or> k = 1 \<or> k = 2 \<or> k = 3" using k by auto
  ultimately show ?thesis using full low high by auto
qed

text \<open>C27: for every minimum width from 3 to 8 bytes, a 64-bit value written by
  \<^term>\<open>write_varlong\<close> is read back by \<^term>\<open>read_varlong\<close> with the same minimum, and no proper
  prefix of the encoding is accepted.\<close>

theorem varlong_roundtrip:
  assumes "3 \<le> mn" "mn \<le> 8"
  shows "read_varlong mn (write_varlong v mn @ rest) = Inr (v, rest) \<and>
    (k < length (write_varlong v mn) \<longrightarrow>
      (\<exists>e. read_varlong mn (take k (write_varlong v mn)) = Inl e))"
  using assms varlong.dec_enc [of mn v rest] varlong.dec_truncated [of mn k v] by simp

theorem varlong_roundtrip_witness:
  "read_varlong 3 (write_varlong 0x123456789A 3 @ [7]) = Inr (0x123456789A, [7]) \<and>
    (\<exists>e. read_varlong 3 (take 2 (write_varlong 0x123456789A 3)) = Inl e)"
proof -
  have "2 < length (write_varlong 0x123456789A 3)" by code_simp
  then show ?thesis using varlong_roundtrip [of 3 "0x123456789A" "[7]" 2] by simp
qed



text \<open>The fixed layout of \<^term>\<open>write_longint\<close> (4 bytes for values in 0 to 2^31 - 1, otherwise a marker
  and 8 bytes) is read back by \<^term>\<open>read_longint\<close> for every 64-bit value.\<close>

theorem longint_roundtrip:
  "read_longint (write_longint v @ rest) = Inr (v, rest)"
  by (rule longint.dec_enc) simp

end
