(* ===== verification/Rolling_Simd.thy ===== *)
theory Rolling_Simd
  imports Prelude
begin

text \<open>
  The accumulation loops of the rolling checksum, \<open>crates/checksums/src/rolling/checksum\<close>: the
  scalar loop of \<open>mod.rs\<close>, the SSE2 and AVX2 loops of \<open>x86.rs\<close> and the NEON loop of \<open>neon.rs\<close>.
  A vector register is the list of its lanes; the intrinsics of \<open>core::arch\<close> that the loops use are
  functions on such lists.  The theory proves that every vector loop computes exactly what the scalar
  loop computes, on every input and from every starting state.
\<close>

section \<open>The scalar loop\<close>

type_synonym acc = "u32 \<times> u32 \<times> nat"

definition sign_extend_byte :: "u8 \<Rightarrow> u32" where
  "sign_extend_byte byte = scast byte"

definition acc_byte :: "u32 \<times> u32 \<Rightarrow> u8 \<Rightarrow> u32 \<times> u32" where
  "acc_byte s byte = (let s1 = fst s + sign_extend_byte byte in (s1, snd s + s1))"

text \<open>\<open>chunks_exact(4)\<close> unrolls the loop by four; \<open>remainder()\<close> is what is left.\<close>

fun acc_chunks4 :: "u32 \<times> u32 \<Rightarrow> bytes \<Rightarrow> u32 \<times> u32" where
  "acc_chunks4 s (b0 # b1 # b2 # b3 # rest) =
    acc_chunks4 (acc_byte (acc_byte (acc_byte (acc_byte s b0) b1) b2) b3) rest"
| "acc_chunks4 s rest = foldl acc_byte s rest"

definition accumulate_chunk_scalar_raw :: "u32 \<Rightarrow> u32 \<Rightarrow> nat \<Rightarrow> bytes \<Rightarrow> acc" where
  "accumulate_chunk_scalar_raw s1 s2 len chunk =
    (if chunk = [] then (s1, s2, len)
     else let (s1, s2) = acc_chunks4 (s1, s2) chunk in (s1, s2, sat_add len (length chunk)))"

section \<open>Vector intrinsics\<close>

type_synonym epi8 = "u8 list"
type_synonym epi16 = "16 word list"
type_synonym epi32 = "32 word list"

definition mm_add_epi32 :: "epi32 \<Rightarrow> epi32 \<Rightarrow> epi32" where
  "mm_add_epi32 a b = map2 (+) a b"

definition mm_slli_epi32 :: "nat \<Rightarrow> epi32 \<Rightarrow> epi32" where
  "mm_slli_epi32 n v = map (push_bit n) v"

definition mm_cvtsi32_si128 :: "u32 \<Rightarrow> epi32" where
  "mm_cvtsi32_si128 x = [x, 0, 0, 0]"

definition mm_cvtsi128_si32 :: "epi32 \<Rightarrow> u32" where
  "mm_cvtsi128_si32 v = v ! 0"

text \<open>Lane \<open>i\<close> of the result is the lane the two bits \<open>2i\<close> and \<open>2i + 1\<close> of the immediate name.\<close>

definition mm_shuffle_epi32 :: "nat \<Rightarrow> epi32 \<Rightarrow> epi32" where
  "mm_shuffle_epi32 imm v =
    [v ! (imm mod 4), v ! (imm div 4 mod 4), v ! (imm div 16 mod 4), v ! (imm div 64 mod 4)]"

definition mm_cmplt_epi8 :: "epi8 \<Rightarrow> epi8 \<Rightarrow> epi8" where
  "mm_cmplt_epi8 a b = map2 (\<lambda>x y. if x <s y then 0xFF else 0) a b"

text \<open>Interleaving two byte vectors gives 16-bit lanes with the first operand as low byte.\<close>

definition interleave_epi8 :: "epi8 \<Rightarrow> epi8 \<Rightarrow> epi16" where
  "interleave_epi8 lo hi = map2 (\<lambda>l h. ucast l OR push_bit 8 (ucast h)) lo hi"

definition mm_unpacklo_epi8 :: "epi8 \<Rightarrow> epi8 \<Rightarrow> epi16" where
  "mm_unpacklo_epi8 a b = interleave_epi8 (take 8 a) (take 8 b)"

definition mm_unpackhi_epi8 :: "epi8 \<Rightarrow> epi8 \<Rightarrow> epi16" where
  "mm_unpackhi_epi8 a b = interleave_epi8 (drop 8 a) (drop 8 b)"

text \<open>\<open>madd\<close> multiplies signed 16-bit lanes to 32 bits and adds neighbouring products.\<close>

fun mm_madd_epi16 :: "epi16 \<Rightarrow> epi16 \<Rightarrow> epi32" where
  "mm_madd_epi16 (a0 # a1 # as) (b0 # b1 # bs) =
    (scast a0 * scast b0 + scast a1 * scast b1) # mm_madd_epi16 as bs"
| "mm_madd_epi16 as bs = []"

text \<open>The \<open>set\<close> intrinsics take the last lane first.\<close>

definition mm_set_epi16 :: "16 word list \<Rightarrow> epi16" where
  "mm_set_epi16 es = rev es"

definition cvtepi8_epi16 :: "epi8 \<Rightarrow> epi16" where
  "cvtepi8_epi16 v = map scast v"

text \<open>The 128-bit halves of a 256-bit register.\<close>

definition castsi256_si128 :: "'a list \<Rightarrow> 'a list" where
  "castsi256_si128 v = take (length v div 2) v"

definition extracti128_si256_1 :: "'a list \<Rightarrow> 'a list" where
  "extracti128_si256_1 v = drop (length v div 2) v"

lemmas vector_simps =
  mm_add_epi32_def mm_slli_epi32_def mm_cvtsi32_si128_def mm_cvtsi128_si32_def mm_shuffle_epi32_def
  mm_cmplt_epi8_def interleave_epi8_def mm_unpacklo_epi8_def mm_unpackhi_epi8_def mm_set_epi16_def
  cvtepi8_epi16_def castsi256_si128_def extracti128_si256_1_def

section \<open>SSE2 and AVX2\<close>

definition SSE2_BLOCK_LEN :: nat where "SSE2_BLOCK_LEN = 16"
definition AVX2_BLOCK_LEN :: nat where "AVX2_BLOCK_LEN = 32"
definition SSE2_BLOCK_SHIFT :: nat where "SSE2_BLOCK_SHIFT = 4"
definition AVX2_BLOCK_SHIFT :: nat where "AVX2_BLOCK_SHIFT = 5"

definition fold_lane0_sse2 :: "epi32 \<Rightarrow> epi32" where
  "fold_lane0_sse2 v =
    (let shuf = mm_shuffle_epi32 0b1110 v;
         sum = mm_add_epi32 v shuf;
         shuf = mm_shuffle_epi32 0b0001 sum
     in mm_add_epi32 sum shuf)"

definition extract_lane0 :: "epi32 \<Rightarrow> u32" where
  "extract_lane0 v = mm_cvtsi128_si32 v"

definition sum_block_pairs_sse2 :: "epi16 \<Rightarrow> epi16 \<Rightarrow> epi16 \<Rightarrow> epi32" where
  "sum_block_pairs_sse2 high_signed low_signed ones =
    mm_add_epi32 (mm_madd_epi16 high_signed ones) (mm_madd_epi16 low_signed ones)"

definition prefix_sum_pairs_sse2 :: "epi16 \<Rightarrow> epi16 \<Rightarrow> epi16 \<Rightarrow> epi16 \<Rightarrow> epi32" where
  "prefix_sum_pairs_sse2 high_signed low_signed high_weights low_weights =
    mm_add_epi32 (mm_madd_epi16 high_signed high_weights) (mm_madd_epi16 low_signed low_weights)"

text \<open>One iteration of the loop on a 16-byte block.\<close>

definition sse2_step :: "epi32 \<times> epi32 \<Rightarrow> epi8 \<Rightarrow> epi32 \<times> epi32" where
  "sse2_step ss block =
    (let zero = replicate 16 0;
         ones = replicate 8 1;
         high_weights = mm_set_epi16 [9, 10, 11, 12, 13, 14, 15, 16];
         low_weights = mm_set_epi16 [1, 2, 3, 4, 5, 6, 7, 8];
         ss1 = fst ss; ss2 = snd ss;
         sign_mask = mm_cmplt_epi8 block zero;
         high_signed = mm_unpacklo_epi8 block sign_mask;
         low_signed = mm_unpackhi_epi8 block sign_mask;
         ss2 = mm_add_epi32 ss2 (mm_slli_epi32 SSE2_BLOCK_SHIFT ss1);
         sum_pairs = sum_block_pairs_sse2 high_signed low_signed ones;
         prefix_pairs = prefix_sum_pairs_sse2 high_signed low_signed high_weights low_weights;
         ss1 = mm_add_epi32 ss1 (fold_lane0_sse2 sum_pairs);
         ss2 = mm_add_epi32 ss2 (fold_lane0_sse2 prefix_pairs)
     in (ss1, ss2))"

text \<open>\<open>while chunk.len() >= BLOCK_LEN\<close>: step on the first block, drop it, count its bytes.\<close>

function block_loop ::
  "nat \<Rightarrow> ('s \<Rightarrow> bytes \<Rightarrow> 's) \<Rightarrow> 's \<Rightarrow> nat \<Rightarrow> bytes \<Rightarrow> 's \<times> nat \<times> bytes" where
  "block_loop n step s len chunk =
    (if 0 < n \<and> n \<le> length chunk
     then block_loop n step (step s (take n chunk)) (sat_add len n) (drop n chunk)
     else (s, len, chunk))"
  by pat_completeness auto
termination by (relation "measure (\<lambda>(n, step, s, len, chunk). length chunk)") auto

declare block_loop.simps [simp del]

definition accumulate_chunk_sse2 :: "u32 \<Rightarrow> u32 \<Rightarrow> nat \<Rightarrow> bytes \<Rightarrow> acc" where
  "accumulate_chunk_sse2 s1 s2 len chunk =
    (let (s1, s2, len, chunk) =
       (if SSE2_BLOCK_LEN \<le> length chunk
        then let ((ss1, ss2), len, chunk) =
               block_loop SSE2_BLOCK_LEN sse2_step (mm_cvtsi32_si128 s1, mm_cvtsi32_si128 s2) len chunk
             in (extract_lane0 ss1, extract_lane0 ss2, len, chunk)
        else (s1, s2, len, chunk))
     in if chunk \<noteq> [] then accumulate_chunk_scalar_raw s1 s2 len chunk else (s1, s2, len))"

definition sum_block_pairs_avx2 :: "epi8 \<Rightarrow> epi16 \<Rightarrow> epi32" where
  "sum_block_pairs_avx2 block ones =
    (let lower_signed = cvtepi8_epi16 (castsi256_si128 block);
         upper_signed = cvtepi8_epi16 (extracti128_si256_1 block);
         combined = mm_add_epi32 (mm_madd_epi16 lower_signed ones) (mm_madd_epi16 upper_signed ones)
     in mm_add_epi32 (castsi256_si128 combined) (extracti128_si256_1 combined))"

definition prefix_sum_pairs_avx2 :: "epi8 \<Rightarrow> epi16 \<Rightarrow> epi16 \<Rightarrow> epi32" where
  "prefix_sum_pairs_avx2 block first_half_weights second_half_weights =
    (let lower_extended = cvtepi8_epi16 (castsi256_si128 block);
         upper_extended = cvtepi8_epi16 (extracti128_si256_1 block);
         combined = mm_add_epi32 (mm_madd_epi16 lower_extended first_half_weights)
                                 (mm_madd_epi16 upper_extended second_half_weights)
     in mm_add_epi32 (castsi256_si128 combined) (extracti128_si256_1 combined))"

definition avx2_step :: "epi32 \<times> epi32 \<Rightarrow> epi8 \<Rightarrow> epi32 \<times> epi32" where
  "avx2_step ss block =
    (let ones = replicate 16 1;
         first_half_weights =
           mm_set_epi16 [17, 18, 19, 20, 21, 22, 23, 24, 25, 26, 27, 28, 29, 30, 31, 32];
         second_half_weights =
           mm_set_epi16 [1, 2, 3, 4, 5, 6, 7, 8, 9, 10, 11, 12, 13, 14, 15, 16];
         ss1 = fst ss; ss2 = snd ss;
         ss2 = mm_add_epi32 ss2 (mm_slli_epi32 AVX2_BLOCK_SHIFT ss1);
         sum_pairs = sum_block_pairs_avx2 block ones;
         prefix_pairs = prefix_sum_pairs_avx2 block first_half_weights second_half_weights;
         ss1 = mm_add_epi32 ss1 (fold_lane0_sse2 sum_pairs);
         ss2 = mm_add_epi32 ss2 (fold_lane0_sse2 prefix_pairs)
     in (ss1, ss2))"

definition accumulate_chunk_avx2 :: "u32 \<Rightarrow> u32 \<Rightarrow> nat \<Rightarrow> bytes \<Rightarrow> acc" where
  "accumulate_chunk_avx2 s1 s2 len chunk =
    (let (s1, s2, len, chunk) =
       (if AVX2_BLOCK_LEN \<le> length chunk
        then let ((ss1, ss2), len, chunk) =
               block_loop AVX2_BLOCK_LEN avx2_step (mm_cvtsi32_si128 s1, mm_cvtsi32_si128 s2) len chunk
             in (extract_lane0 ss1, extract_lane0 ss2, len, chunk)
        else (s1, s2, len, chunk))
     in if SSE2_BLOCK_LEN \<le> length chunk then accumulate_chunk_sse2 s1 s2 len chunk
        else if chunk \<noteq> [] then accumulate_chunk_scalar_raw s1 s2 len chunk
        else (s1, s2, len))"

record FeatureLevel =
  avx2 :: bool
  sse2 :: bool

text \<open>\<open>detected\<close> is the answer of the CPU, \<open>allowed\<close> the command line's override.\<close>

definition effective_features :: "FeatureLevel \<Rightarrow> FeatureLevel \<Rightarrow> FeatureLevel" where
  "effective_features detected allowed =
    \<lparr>avx2 = avx2 detected \<and> avx2 allowed, sse2 = sse2 detected \<and> sse2 allowed\<rparr>"

definition try_accumulate_chunk ::
  "FeatureLevel \<Rightarrow> u32 \<Rightarrow> u32 \<Rightarrow> nat \<Rightarrow> bytes \<Rightarrow> acc option" where
  "try_accumulate_chunk features s1 s2 len chunk =
    (if AVX2_BLOCK_LEN \<le> length chunk \<and> avx2 features
     then Some (accumulate_chunk_avx2 s1 s2 len chunk)
     else if SSE2_BLOCK_LEN \<le> length chunk \<and> sse2 features
     then Some (accumulate_chunk_sse2 s1 s2 len chunk)
     else None)"

section \<open>NEON\<close>

definition NEON_BLOCK_LEN :: nat where "NEON_BLOCK_LEN = 16"
definition HIGH_WEIGHTS :: epi16 where "HIGH_WEIGHTS = [16, 15, 14, 13, 12, 11, 10, 9]"
definition LOW_WEIGHTS :: epi16 where "LOW_WEIGHTS = [8, 7, 6, 5, 4, 3, 2, 1]"
definition NEON_BLOCK_SHIFT :: nat where "NEON_BLOCK_SHIFT = 4"

definition vaddq :: "'a::len word list \<Rightarrow> 'a word list \<Rightarrow> 'a word list" where
  "vaddq a b = map2 (+) a b"

definition vmulq_s16 :: "epi16 \<Rightarrow> epi16 \<Rightarrow> epi16" where
  "vmulq_s16 a b = map2 (*) a b"

fun vpaddlq_s16 :: "epi16 \<Rightarrow> epi32" where
  "vpaddlq_s16 (a0 # a1 # as) = (scast a0 + scast a1) # vpaddlq_s16 as"
| "vpaddlq_s16 as = []"

fun pair_sums :: "epi32 \<Rightarrow> epi32" where
  "pair_sums (a0 # a1 # as) = (a0 + a1) # pair_sums as"
| "pair_sums as = []"

definition vpaddq_s32 :: "epi32 \<Rightarrow> epi32 \<Rightarrow> epi32" where
  "vpaddq_s32 a b = pair_sums a @ pair_sums b"

definition vmovl_s8 :: "epi8 \<Rightarrow> epi16" where
  "vmovl_s8 v = map scast v"

definition fold_to_lane0_neon :: "epi32 \<Rightarrow> epi32" where
  "fold_to_lane0_neon v = (let pairs = vpaddq_s32 v v in vpaddq_s32 pairs pairs)"

definition neon_step :: "epi32 \<times> epi32 \<Rightarrow> epi8 \<Rightarrow> epi32 \<times> epi32" where
  "neon_step ss block =
    (let ss1 = fst ss; ss2 = snd ss;
         high = vmovl_s8 (take 8 block);
         low = vmovl_s8 (drop 8 block);
         ss2 = vaddq ss2 (mm_slli_epi32 NEON_BLOCK_SHIFT ss1);
         sum32 = vpaddlq_s16 (vaddq high low);
         ss1 = vaddq ss1 (fold_to_lane0_neon sum32);
         weighted_high = vmulq_s16 high HIGH_WEIGHTS;
         weighted_low = vmulq_s16 low LOW_WEIGHTS;
         weighted32 = vpaddlq_s16 (vaddq weighted_high weighted_low);
         ss2 = vaddq ss2 (fold_to_lane0_neon weighted32)
     in (ss1, ss2))"

definition accumulate_chunk_neon_impl :: "u32 \<Rightarrow> u32 \<Rightarrow> nat \<Rightarrow> bytes \<Rightarrow> acc" where
  "accumulate_chunk_neon_impl s1 s2 len chunk =
    (let (s1, s2, len, chunk) =
       (if NEON_BLOCK_LEN \<le> length chunk
        then let ((ss1, ss2), len, chunk) =
               block_loop NEON_BLOCK_LEN neon_step (replicate 4 s1, replicate 4 s2) len chunk
             in (ss1 ! 0, ss2 ! 0, len, chunk)
        else (s1, s2, len, chunk))
     in if chunk \<noteq> [] then accumulate_chunk_scalar_raw s1 s2 len chunk else (s1, s2, len))"

definition accumulate_chunk_neon :: "bool \<Rightarrow> u32 \<Rightarrow> u32 \<Rightarrow> nat \<Rightarrow> bytes \<Rightarrow> acc" where
  "accumulate_chunk_neon neon_enabled s1 s2 len chunk =
    (if \<not> neon_enabled then accumulate_chunk_scalar_raw s1 s2 len chunk
     else accumulate_chunk_neon_impl s1 s2 len chunk)"

section \<open>The scalar loop in closed form\<close>

fun byte_sum :: "bytes \<Rightarrow> u32" where
  "byte_sum [] = 0"
| "byte_sum (b # bs) = sign_extend_byte b + byte_sum bs"

fun weighted_sum :: "bytes \<Rightarrow> u32" where
  "weighted_sum [] = 0"
| "weighted_sum (b # bs) = of_nat (Suc (length bs)) * sign_extend_byte b + weighted_sum bs"

lemma acc_chunks4_foldl: "acc_chunks4 s bs = foldl acc_byte s bs"
  by (induction s bs rule: acc_chunks4.induct) simp_all

lemma foldl_acc_byte:
  "foldl acc_byte (s1, s2) bs = (s1 + byte_sum bs, s2 + of_nat (length bs) * s1 + weighted_sum bs)"
  by (induction bs arbitrary: s1 s2) (simp_all add: acc_byte_def Let_def algebra_simps)

lemma accumulate_chunk_scalar_raw_sums:
  "accumulate_chunk_scalar_raw s1 s2 len bs =
    (s1 + byte_sum bs, s2 + of_nat (length bs) * s1 + weighted_sum bs,
     if bs = [] then len else sat_add len (length bs))"
  by (simp add: accumulate_chunk_scalar_raw_def acc_chunks4_foldl foldl_acc_byte)

lemma accumulate_chunk_scalar_raw_Nil [simp]: "accumulate_chunk_scalar_raw s1 s2 len [] = (s1, s2, len)"
  by (simp add: accumulate_chunk_scalar_raw_def)

lemma accumulate_chunk_scalar_raw_append:
  "accumulate_chunk_scalar_raw s1 s2 len (xs @ ys) =
    (case accumulate_chunk_scalar_raw s1 s2 len xs of (s1, s2, len) \<Rightarrow>
       accumulate_chunk_scalar_raw s1 s2 len ys)"
  by (simp add: accumulate_chunk_scalar_raw_def acc_chunks4_foldl split: prod.splits)

section \<open>Vector loops\<close>

text \<open>A vector loop keeps the two sums in lane 0 of its registers: \<open>lane\<close> reads them, and one step on
  a block of \<open>n\<close> bytes does what the scalar loop does on those bytes.\<close>

locale vector_step =
  fixes n :: nat
    and step :: "'s \<Rightarrow> bytes \<Rightarrow> 's"
    and inv :: "'s \<Rightarrow> bool"
    and lane :: "'s \<Rightarrow> u32 \<times> u32"
  assumes n_pos: "0 < n"
    and inv_step: "inv s \<Longrightarrow> length b = n \<Longrightarrow> inv (step s b)"
    and lane_step: "inv s \<Longrightarrow> length b = n \<Longrightarrow> lane (step s b) = foldl acc_byte (lane s) b"
begin

lemma block_loop_lane:
  assumes "inv s" "block_loop n step s len chunk = (s', len', rest)"
  shows "\<exists>front. chunk = front @ rest \<and>
    accumulate_chunk_scalar_raw (fst (lane s)) (snd (lane s)) len front =
      (fst (lane s'), snd (lane s'), len')"
  using assms
proof (induction "length chunk" arbitrary: s len chunk rule: less_induct)
  case less
  show ?case
  proof (cases "n \<le> length chunk")
    case True
    let ?s = "step s (take n chunk)"
    have len: "length (take n chunk) = n" using True by simp
    have "block_loop n step ?s (sat_add len n) (drop n chunk) = (s', len', rest)"
      using less.prems(2) True n_pos by (subst (asm) block_loop.simps) simp
    moreover have "length (drop n chunk) < length chunk" using True n_pos by simp
    ultimately obtain front where front: "drop n chunk = front @ rest"
      "accumulate_chunk_scalar_raw (fst (lane ?s)) (snd (lane ?s)) (sat_add len n) front =
        (fst (lane s'), snd (lane s'), len')"
      using less.hyps inv_step [OF less.prems(1) len] by blast
    have "chunk = (take n chunk @ front) @ rest" using front(1) append_take_drop_id [of n chunk] by simp
    moreover have "accumulate_chunk_scalar_raw (fst (lane s)) (snd (lane s)) len (take n chunk) =
        (fst (lane ?s), snd (lane ?s), sat_add len n)"
      using lane_step [OF less.prems(1) len] True n_pos len
      by (auto simp: accumulate_chunk_scalar_raw_def acc_chunks4_foldl split: prod.splits)
    ultimately show ?thesis
      using front(2) by (intro exI [of _ "take n chunk @ front"])
        (simp add: accumulate_chunk_scalar_raw_append)
  next
    case False
    then have "s' = s \<and> len' = len \<and> rest = chunk"
      using less.prems(2) by (subst (asm) block_loop.simps) simp
    then show ?thesis by (simp add: accumulate_chunk_scalar_raw_def)
  qed
qed

text \<open>The loop followed by the scalar loop on the remaining bytes is the scalar loop on all of them.\<close>

lemma block_loop_then_scalar:
  assumes "inv s" "block_loop n step s len chunk = (s', len', rest)"
  shows "accumulate_chunk_scalar_raw (fst (lane s')) (snd (lane s')) len' rest =
    accumulate_chunk_scalar_raw (fst (lane s)) (snd (lane s)) len chunk"
  using block_loop_lane [OF assms] by (auto simp: accumulate_chunk_scalar_raw_append)

end

abbreviation lanes4 :: "epi32 \<times> epi32 \<Rightarrow> bool" where
  "lanes4 ss \<equiv> length (fst ss) = 4 \<and> length (snd ss) = 4"

abbreviation lane0 :: "epi32 \<times> epi32 \<Rightarrow> u32 \<times> u32" where
  "lane0 ss \<equiv> (fst ss ! 0, snd ss ! 0)"

text \<open>Interleaving a byte with its sign mask sign-extends it.\<close>

lemma interleave_sign:
  "ucast (b::u8) OR push_bit 8 (ucast (if b <s 0 then 0xFF else 0 :: u8)) = (scast b :: 16 word)"
proof (rule bit_word_eqI)
  fix i assume i: "i < LENGTH(16)"
  have s: "b <s 0 \<longleftrightarrow> bit b 7" by (simp add: word_sless_alt sint_uint signed_take_bit_negative_iff bit_uint_iff)
  have m: "(0xFF :: u8) = mask 8" by (simp add: mask_eq_exp_minus_1)
  show "bit (ucast b OR push_bit 8 (ucast (if b <s 0 then 0xFF else 0 :: u8)) :: 16 word) i = bit (scast b :: 16 word) i"
  proof (cases "i < 8")
    case True
    then have "i < 7 \<or> i = 7" by auto
    then show ?thesis using i by (auto simp: bit_simps s min_def)
  next
    case False
    then have "\<not> bit b i" "i - 8 < 8" using i bit_imp_le_length [of b i] by auto
    then show ?thesis using i False unfolding m by (auto simp: bit_simps s min_def)
  qed
qed

lemma scast_scast_byte [simp]: "(scast (scast (b::u8) :: 16 word) :: u32) = sign_extend_byte b"
  unfolding sign_extend_byte_def by (rule bit_word_eqI) (auto simp: bit_simps min_def)

text \<open>Lane-wise sums: a weighted sum of bytes, and how the vector operations add up to it.\<close>

definition dot :: "bytes \<Rightarrow> u32 list \<Rightarrow> u32" where
  "dot bs ws = sum_list (map2 (\<lambda>b w. sign_extend_byte b * w) bs ws)"

lemma dot_append: "length xs = length vs \<Longrightarrow> dot (xs @ ys) (vs @ ws) = dot xs vs + dot ys ws"
  by (simp add: dot_def)

lemma dot_halves: "length vs = n \<Longrightarrow> length bs = n + m \<Longrightarrow> dot bs (vs @ ws) = dot (take n bs) vs + dot (drop n bs) ws"
  using dot_append [of "take n bs" vs "drop n bs" ws] by simp

lemma byte_sum_dot: "byte_sum bs = dot bs (replicate (length bs) 1)"
  by (induction bs) (simp_all add: dot_def)

lemma weighted_sum_dot: "weighted_sum bs = dot bs (map of_nat (rev [1..<Suc (length bs)]))"
  by (induction bs) (simp_all add: dot_def algebra_simps)

lemma sum_list_add_epi32:
  "length a = length b \<Longrightarrow> sum_list (mm_add_epi32 a b) = sum_list a + sum_list b"
  by (induction a b rule: list_induct2) (simp_all add: mm_add_epi32_def algebra_simps)

lemma length_madd [simp]: "length a = length b \<Longrightarrow> length (mm_madd_epi16 a b) = length a div 2"
  by (induction a b rule: mm_madd_epi16.induct) auto

lemma sum_list_madd:
  "length bs = length ws \<Longrightarrow> even (length bs) \<Longrightarrow>
    sum_list (mm_madd_epi16 (map scast bs) ws) = dot bs (map scast ws)"
proof (induction bs arbitrary: ws rule: induct_list012)
  case (3 x y zs)
  then obtain v w vs where "ws = v # w # vs" by (auto simp: length_Suc_conv Suc_length_conv)
  with 3 show ?case by (simp add: dot_def algebra_simps)
next
  case (2 x)
  then show ?case by (metis length_Cons list.size(3) odd_one One_nat_def)
qed (simp add: dot_def)

lemma length_shuffle [simp]: "length (mm_shuffle_epi32 i v) = 4"
  by (simp add: mm_shuffle_epi32_def)

lemma length_add_epi32 [simp]: "length (mm_add_epi32 a b) = min (length a) (length b)"
  by (simp add: mm_add_epi32_def)

lemma nth_add_epi32 [simp]: "i < length a \<Longrightarrow> i < length b \<Longrightarrow> mm_add_epi32 a b ! i = a ! i + b ! i"
  by (simp add: mm_add_epi32_def)

lemma sum_list_halves: "sum_list (take n v) + sum_list (drop n v) = sum_list (v :: 'a::comm_monoid_add list)"
  by (metis append_take_drop_id sum_list_append)

lemma sum_list_4:
  assumes "length v = 4"
  shows "sum_list v = v ! 0 + v ! 1 + v ! 2 + (v ! 3 :: 'a::comm_monoid_add)"
proof -
  obtain a b c d where "v = [a, b, c, d]" using assms by (auto simp: numeral_eq_Suc length_Suc_conv)
  then show ?thesis by (simp add: ac_simps)
qed

lemma fold_lane0_sse2: "length v = 4 \<Longrightarrow> fold_lane0_sse2 v ! 0 = sum_list v"
  unfolding sum_list_4 by (simp add: fold_lane0_sse2_def Let_def mm_shuffle_epi32_def add_ac flip: numeral_2_eq_2 numeral_3_eq_3)

lemma length_fold_lane0_sse2 [simp]: "length v = 4 \<Longrightarrow> length (fold_lane0_sse2 v) = 4"
  by (simp add: fold_lane0_sse2_def Let_def)

text \<open>One SSE2 step.\<close>

lemma unpack_sign:
  "length block = 16 \<Longrightarrow> mm_unpacklo_epi8 block (mm_cmplt_epi8 block (replicate 16 0)) = map scast (take 8 block)"
  "length block = 16 \<Longrightarrow> mm_unpackhi_epi8 block (mm_cmplt_epi8 block (replicate 16 0)) = map scast (drop 8 block)"
  unfolding vector_simps
  by (auto intro!: nth_equalityI simp: interleave_sign)

lemma sse2_step_lane:
  assumes "lanes4 ss" "length block = 16"
  shows "lanes4 (sse2_step ss block) \<and> lane0 (sse2_step ss block) = foldl acc_byte (lane0 ss) block"
proof -
  let ?H = "mm_set_epi16 [9, 10, 11, 12, 13, 14, 15, 16]" and ?L = "mm_set_epi16 [1, 2, 3, 4, 5, 6, 7, 8]"
  let ?h = "map scast (take 8 block) :: epi16" and ?l = "map scast (drop 8 block) :: epi16"
  have "sum_list (sum_block_pairs_sse2 ?h ?l (replicate 8 1)) = byte_sum block"
    using assms dot_halves [of "replicate 8 1" 8 block 8 "replicate 8 1"]
    by (simp add: sum_block_pairs_sse2_def sum_list_add_epi32 sum_list_madd byte_sum_dot
        flip: replicate_add)
  moreover have "sum_list (prefix_sum_pairs_sse2 ?h ?l ?H ?L) = weighted_sum block"
    using assms dot_halves [of "map scast ?H" 8 block 8 "map scast ?L"]
    by (simp add: prefix_sum_pairs_sse2_def sum_list_add_epi32 sum_list_madd weighted_sum_dot
        mm_set_epi16_def upt_rec)
  moreover have "length (sum_block_pairs_sse2 ?h ?l (replicate 8 1)) = 4"
    "length (prefix_sum_pairs_sse2 ?h ?l ?H ?L) = 4"
    using assms by (simp_all add: sum_block_pairs_sse2_def prefix_sum_pairs_sse2_def mm_set_epi16_def)
  ultimately show ?thesis
    using assms
    by (simp add: sse2_step_def Let_def unpack_sign fold_lane0_sse2 foldl_acc_byte mm_slli_epi32_def
        SSE2_BLOCK_SHIFT_def push_bit_eq_mult algebra_simps)
qed

interpretation sse2_vec: vector_step SSE2_BLOCK_LEN sse2_step lanes4 lane0
  by unfold_locales (use sse2_step_lane in \<open>auto simp: SSE2_BLOCK_LEN_def\<close>)

text \<open>One AVX2 step.\<close>

lemma avx2_step_lane:
  assumes "lanes4 ss" "length block = 32"
  shows "lanes4 (avx2_step ss block) \<and> lane0 (avx2_step ss block) = foldl acc_byte (lane0 ss) block"
proof -
  let ?H = "mm_set_epi16 [17, 18, 19, 20, 21, 22, 23, 24, 25, 26, 27, 28, 29, 30, 31, 32]"
    and ?L = "mm_set_epi16 [1, 2, 3, 4, 5, 6, 7, 8, 9, 10, 11, 12, 13, 14, 15, 16]"
  have "sum_list (sum_block_pairs_avx2 block (replicate 16 1)) = byte_sum block"
    using assms dot_halves [of "replicate 16 1" 16 block 16 "replicate 16 1"]
    by (simp add: sum_block_pairs_avx2_def Let_def sum_list_halves sum_list_add_epi32 sum_list_madd byte_sum_dot
        cvtepi8_epi16_def castsi256_si128_def extracti128_si256_1_def flip: replicate_add)
  moreover have "sum_list (prefix_sum_pairs_avx2 block ?H ?L) = weighted_sum block"
    using assms dot_halves [of "map scast ?H" 16 block 16 "map scast ?L"]
    by (simp add: prefix_sum_pairs_avx2_def Let_def sum_list_halves sum_list_add_epi32 sum_list_madd
        weighted_sum_dot cvtepi8_epi16_def castsi256_si128_def extracti128_si256_1_def
        mm_set_epi16_def upt_rec)
  moreover have "length (sum_block_pairs_avx2 block (replicate 16 1)) = 4"
    "length (prefix_sum_pairs_avx2 block ?H ?L) = 4"
    using assms by (simp_all add: sum_block_pairs_avx2_def prefix_sum_pairs_avx2_def Let_def mm_set_epi16_def
        cvtepi8_epi16_def castsi256_si128_def extracti128_si256_1_def)
  ultimately show ?thesis
    using assms
    by (simp add: avx2_step_def Let_def fold_lane0_sse2 foldl_acc_byte mm_slli_epi32_def
        AVX2_BLOCK_SHIFT_def push_bit_eq_mult algebra_simps)
qed

interpretation avx2_vec: vector_step AVX2_BLOCK_LEN avx2_step lanes4 lane0
  by unfold_locales (use avx2_step_lane in \<open>auto simp: AVX2_BLOCK_LEN_def\<close>)

text \<open>One NEON step.  Its additions and products are 16 bits wide; the weights are too small for
  them to overflow.\<close>

lemma scast_word_of_int: "(scast (w::'a::len word) :: 'b::len word) = word_of_int (sint w)"
  by simp

lemma neon_lane:
  assumes "0 \<le> sint v" "sint v \<le> 16" "0 \<le> sint w" "sint w \<le> 16"
  shows "(scast (scast (x::u8) * v + scast (y::u8) * w :: 16 word) :: u32) =
    sign_extend_byte x * scast v + sign_extend_byte y * scast w"
proof -
  have sx: "sint (scast (b::u8) :: 16 word) = sint b" for b
    using sint_ge [of b] sint_lt [of b] by (simp add: signed_scast_eq signed_take_bit_int_eq_self)
  have b: "- 128 \<le> sint (b::u8) \<and> sint b \<le> 127" for b
    using sint_ge [of b] sint_lt [of b] by simp
  have m: "- 2048 \<le> sint (b::u8) * k \<and> sint b * k \<le> 2032" if "0 \<le> k" "k \<le> 16" for b k
  proof -
    have "- 128 * 16 \<le> - 128 * k" using that by simp
    also have "\<dots> \<le> sint b * k" using b [of b] that by (intro mult_right_mono) auto
    finally have "- 2048 \<le> sint b * k" by simp
    moreover have "sint b * k \<le> 127 * 16" using b [of b] that by (intro mult_mono) auto
    ultimately show ?thesis by simp
  qed
  have "sint (scast x * v + scast y * w :: 16 word) = sint x * sint v + sint y * sint w"
    using m [of "sint v" x] m [of "sint w" y] assms
    by (simp add: sint_word_ariths sx signed_take_bit_int_eq_self)
  then have "(scast (scast x * v + scast y * w :: 16 word) :: u32) = word_of_int (sint x * sint v + sint y * sint w)"
    by (simp only: scast_word_of_int [of "scast x * v + scast y * w"])
  then show ?thesis by (simp add: sign_extend_byte_def)
qed

lemma sum_list_vpaddlq: "even (length v) \<Longrightarrow> sum_list (vpaddlq_s16 v) = sum_list (map scast v)"
  by (induction v rule: vpaddlq_s16.induct) (simp_all add: algebra_simps)

lemma length_vpaddlq [simp]: "length (vpaddlq_s16 v) = length v div 2"
  by (induction v rule: vpaddlq_s16.induct) simp_all

lemma fold_to_lane0_neon:
  assumes "length v = 4"
  shows "length (fold_to_lane0_neon v) = 4 \<and> fold_to_lane0_neon v ! 0 = sum_list v"
proof -
  obtain a b c d where "v = [a, b, c, d]" using assms by (auto simp: numeral_eq_Suc length_Suc_conv)
  then show ?thesis by (simp add: fold_to_lane0_neon_def vpaddq_s32_def algebra_simps)
qed

lemma sum_list_weighted:
  assumes "length xs = length vs" "length ys = length vs" "length ws = length vs"
    "list_all (\<lambda>w. 0 \<le> sint w \<and> sint w \<le> 16) vs" "list_all (\<lambda>w. 0 \<le> sint w \<and> sint w \<le> 16) ws"
  shows "sum_list (map scast (vaddq (vmulq_s16 (map scast xs) vs) (vmulq_s16 (map scast ys) ws))) =
    dot xs (map scast vs) + dot ys (map scast ws)"
proof -
  have "length xs = length vs" "length vs = length ys" "length ys = length ws" using assms by simp_all
  then show ?thesis using assms(4,5)
    by (induction xs vs ys ws rule: list_induct4)
       (simp_all add: vaddq_def vmulq_s16_def dot_def neon_lane add_ac)
qed

lemma vmulq_ones: "vmulq_s16 v (replicate (length v) 1) = v"
  by (induction v) (simp_all add: vmulq_s16_def)

lemma neon_step_lane:
  assumes "lanes4 ss" "length block = 16"
  shows "lanes4 (neon_step ss block) \<and> lane0 (neon_step ss block) = foldl acc_byte (lane0 ss) block"
proof -
  let ?h = "vmovl_s8 (take 8 block)" and ?l = "vmovl_s8 (drop 8 block)"
  have "sum_list (vpaddlq_s16 (vaddq ?h ?l)) = byte_sum block"
    using assms dot_halves [of "replicate 8 1" 8 block 8 "replicate 8 1"]
      sum_list_weighted [of "take 8 block" "replicate 8 1" "drop 8 block" "replicate 8 1"]
      vmulq_ones [of ?h] vmulq_ones [of ?l]
    by (simp add: sum_list_vpaddlq byte_sum_dot vmovl_s8_def vaddq_def list_all_iff flip: replicate_add)
  moreover have "sum_list (vpaddlq_s16 (vaddq (vmulq_s16 ?h HIGH_WEIGHTS) (vmulq_s16 ?l LOW_WEIGHTS))) =
      weighted_sum block"
    using assms dot_halves [of "map scast HIGH_WEIGHTS" 8 block 8 "map scast LOW_WEIGHTS"]
      sum_list_weighted [of "take 8 block" HIGH_WEIGHTS "drop 8 block" LOW_WEIGHTS]
    by (simp add: sum_list_vpaddlq weighted_sum_dot vmovl_s8_def vaddq_def vmulq_s16_def
        HIGH_WEIGHTS_def LOW_WEIGHTS_def upt_rec)
  moreover have "length (vpaddlq_s16 (vaddq ?h ?l)) = 4"
    "length (vpaddlq_s16 (vaddq (vmulq_s16 ?h HIGH_WEIGHTS) (vmulq_s16 ?l LOW_WEIGHTS))) = 4"
    using assms by (simp_all add: vmovl_s8_def vaddq_def vmulq_s16_def HIGH_WEIGHTS_def LOW_WEIGHTS_def)
  ultimately show ?thesis
    using assms
    by (simp add: neon_step_def Let_def fold_to_lane0_neon foldl_acc_byte mm_slli_epi32_def
        vaddq_def [where ?'a = 32] NEON_BLOCK_SHIFT_def push_bit_eq_mult algebra_simps)
qed

interpretation neon_vec: vector_step NEON_BLOCK_LEN neon_step lanes4 lane0
  by unfold_locales (use neon_step_lane in \<open>auto simp: NEON_BLOCK_LEN_def\<close>)

section \<open>The vector routines are the scalar routine\<close>

lemma lane0_init: "lanes4 (mm_cvtsi32_si128 s1, mm_cvtsi32_si128 s2)"
    "mm_cvtsi32_si128 s ! 0 = s"
  by (simp_all add: mm_cvtsi32_si128_def)

lemma accumulate_chunk_sse2_scalar: "accumulate_chunk_sse2 = accumulate_chunk_scalar_raw"
proof (intro ext)
  fix s1 s2 len chunk
  obtain ss1 ss2 len' rest where
    loop: "block_loop SSE2_BLOCK_LEN sse2_step (mm_cvtsi32_si128 s1, mm_cvtsi32_si128 s2) len chunk =
      ((ss1, ss2), len', rest)"
    by (metis prod.collapse)
  show "accumulate_chunk_sse2 s1 s2 len chunk = accumulate_chunk_scalar_raw s1 s2 len chunk"
    using sse2_vec.block_loop_then_scalar [OF lane0_init(1) loop]
    by (auto simp: accumulate_chunk_sse2_def loop extract_lane0_def mm_cvtsi128_si32_def lane0_init)
qed

lemma accumulate_chunk_avx2_scalar: "accumulate_chunk_avx2 = accumulate_chunk_scalar_raw"
proof (intro ext)
  fix s1 s2 len chunk
  obtain ss1 ss2 len' rest where
    loop: "block_loop AVX2_BLOCK_LEN avx2_step (mm_cvtsi32_si128 s1, mm_cvtsi32_si128 s2) len chunk =
      ((ss1, ss2), len', rest)"
    by (metis prod.collapse)
  show "accumulate_chunk_avx2 s1 s2 len chunk = accumulate_chunk_scalar_raw s1 s2 len chunk"
    using avx2_vec.block_loop_then_scalar [OF lane0_init(1) loop]
    by (auto simp: accumulate_chunk_avx2_def accumulate_chunk_sse2_scalar loop extract_lane0_def
        mm_cvtsi128_si32_def lane0_init)
qed

lemma accumulate_chunk_neon_impl_scalar: "accumulate_chunk_neon_impl = accumulate_chunk_scalar_raw"
proof (intro ext)
  fix s1 s2 len chunk
  obtain ss1 ss2 len' rest where
    loop: "block_loop NEON_BLOCK_LEN neon_step (replicate 4 s1, replicate 4 s2) len chunk =
      ((ss1, ss2), len', rest)"
    by (metis prod.collapse)
  have "lanes4 (replicate 4 s1, replicate 4 s2)" by simp
  from neon_vec.block_loop_then_scalar [OF this loop]
  show "accumulate_chunk_neon_impl s1 s2 len chunk = accumulate_chunk_scalar_raw s1 s2 len chunk"
    by (auto simp: accumulate_chunk_neon_impl_def loop)
qed

end
