(* ===== verification/Rolling.thy ===== *)
theory Rolling
  imports Rolling_Simd
begin

text \<open>
  The rolling checksum itself: \<open>RollingChecksum\<close> of \<open>crates/checksums/src/rolling/checksum/mod.rs\<close>
  and \<open>RollingDigest\<close> of \<open>crates/checksums/src/rolling/digest.rs\<close>.  The state after any sequence of
  updates is a function of the bytes of the window alone (\<open>rsum\<close>), whichever vector routine the
  processor has; rolling the window gives the state of the shifted window.
\<close>

section \<open>Accumulation\<close>

text \<open>The build target and what \<open>effective_features\<close>, or \<open>neon_enabled\<close>, returns on it.\<close>

datatype target_arch = X86 FeatureLevel | Aarch64 bool | Other_arch

definition accumulate_chunk_arch ::
  "target_arch \<Rightarrow> u32 \<Rightarrow> u32 \<Rightarrow> nat \<Rightarrow> bytes \<Rightarrow> acc option" where
  "accumulate_chunk_arch arch s1 s2 len chunk =
    (case arch of
       X86 features \<Rightarrow> try_accumulate_chunk features s1 s2 len chunk
     | Aarch64 neon_enabled \<Rightarrow> Some (accumulate_chunk_neon neon_enabled s1 s2 len chunk)
     | Other_arch \<Rightarrow> None)"

definition mask_result :: "acc \<Rightarrow> acc" where
  "mask_result r = (case r of (s1, s2, len) \<Rightarrow> (s1 AND 0xffff, s2 AND 0xffff, len))"

definition accumulate_chunk_dispatch ::
  "target_arch \<Rightarrow> u32 \<Rightarrow> u32 \<Rightarrow> nat \<Rightarrow> bytes \<Rightarrow> acc" where
  "accumulate_chunk_dispatch arch s1 s2 len chunk =
    (if chunk = [] then (s1, s2, len)
     else case accumulate_chunk_arch arch s1 s2 len chunk of
       Some accel \<Rightarrow> mask_result accel
     | None \<Rightarrow> mask_result (accumulate_chunk_scalar_raw s1 s2 len chunk))"

section \<open>The checksum state\<close>

record RollingChecksum =
  rc_s1 :: u32
  rc_s2 :: u32
  rc_len :: nat

datatype RollingError = EmptyWindow | WindowTooLarge nat | MismatchedSliceLength nat nat

definition rc_new :: RollingChecksum where
  "rc_new = \<lparr>rc_s1 = 0, rc_s2 = 0, rc_len = 0\<rparr>"

definition rc_reset :: "RollingChecksum \<Rightarrow> RollingChecksum" where
  "rc_reset rc = rc\<lparr>rc_s1 := 0, rc_s2 := 0, rc_len := 0\<rparr>"

definition rc_of :: "acc \<Rightarrow> RollingChecksum" where
  "rc_of a = (case a of (s1, s2, len) \<Rightarrow> \<lparr>rc_s1 = s1, rc_s2 = s2, rc_len = len\<rparr>)"

definition update :: "target_arch \<Rightarrow> RollingChecksum \<Rightarrow> bytes \<Rightarrow> RollingChecksum" where
  "update arch rc chunk = rc_of (accumulate_chunk_dispatch arch (rc_s1 rc) (rc_s2 rc) (rc_len rc) chunk)"

definition update_byte :: "RollingChecksum \<Rightarrow> u8 \<Rightarrow> RollingChecksum" where
  "update_byte rc byte =
    (let b = scast byte;
         s1 = (rc_s1 rc + b) AND 0xffff;
         s2 = (rc_s2 rc + s1) AND 0xffff
     in \<lparr>rc_s1 = s1, rc_s2 = s2, rc_len = sat_add (rc_len rc) 1\<rparr>)"

definition update_from_block :: "target_arch \<Rightarrow> RollingChecksum \<Rightarrow> bytes \<Rightarrow> RollingChecksum" where
  "update_from_block arch rc block = update arch (rc_reset rc) block"

text \<open>Vectored updates gather small buffers in a scratch area of 128 bytes.  The scratch area is the
  list of the bytes it holds; \<open>flush_vectored_scratch\<close> empties it.\<close>

definition VECTORED_STACK_CAPACITY :: nat where
  "VECTORED_STACK_CAPACITY = 128"

definition flush_vectored_scratch :: "target_arch \<Rightarrow> acc \<times> bytes \<Rightarrow> acc \<times> bytes" where
  "flush_vectored_scratch arch st =
    (case st of ((s1, s2, len), scratch) \<Rightarrow>
       if length scratch = 0 then ((s1, s2, len), scratch)
       else (accumulate_chunk_dispatch arch s1 s2 len scratch, []))"

definition vectored_step :: "target_arch \<Rightarrow> acc \<times> bytes \<Rightarrow> bytes \<Rightarrow> acc \<times> bytes" where
  "vectored_step arch st chunk =
    (if chunk = [] then st
     else if VECTORED_STACK_CAPACITY \<le> length chunk
     then (case flush_vectored_scratch arch st of ((s1, s2, len), scratch) \<Rightarrow>
             (accumulate_chunk_dispatch arch s1 s2 len chunk, scratch))
     else
       let st = (if VECTORED_STACK_CAPACITY < length (snd st) + length chunk
                 then flush_vectored_scratch arch st else st);
           st = (fst st, snd st @ chunk)
       in if length (snd st) = VECTORED_STACK_CAPACITY then flush_vectored_scratch arch st else st)"

definition update_vectored :: "target_arch \<Rightarrow> RollingChecksum \<Rightarrow> bytes list \<Rightarrow> RollingChecksum" where
  "update_vectored arch rc buffers =
    rc_of (fst (flush_vectored_scratch arch
      (foldl (vectored_step arch) ((rc_s1 rc, rc_s2 rc, rc_len rc), []) buffers)))"

section \<open>Rolling\<close>

definition window_len_u32 :: "RollingChecksum \<Rightarrow> RollingError + u32" where
  "window_len_u32 rc =
    (if rc_len rc = 0 then Inl EmptyWindow
     else if 2 ^ 32 \<le> rc_len rc then Inl (WindowTooLarge (rc_len rc))
     else Inr (of_nat (rc_len rc)))"

definition roll :: "RollingChecksum \<Rightarrow> u8 \<Rightarrow> u8 \<Rightarrow> RollingError + RollingChecksum" where
  "roll rc outgoing incoming =
    bindE (window_len_u32 rc) (\<lambda>window_len.
      let out = scast outgoing;
          inn = scast incoming;
          new_s1 = (rc_s1 rc - out + inn) AND 0xffff;
          new_s2 = (rc_s2 rc - window_len * out + new_s1) AND 0xffff
      in Inr (rc\<lparr>rc_s1 := new_s1, rc_s2 := new_s2\<rparr>))"

fun roll_many_scalar :: "RollingChecksum \<Rightarrow> bytes \<Rightarrow> bytes \<Rightarrow> RollingError + RollingChecksum" where
  "roll_many_scalar rc (out # outs) (inn # inns) =
    bindE (roll rc out inn) (\<lambda>rc. roll_many_scalar rc outs inns)"
| "roll_many_scalar rc _ _ = Inr rc"

text \<open>The three \<open>i128\<close> sums of the aggregated update, with the weight falling from the number of bytes.
  They stay far below 2^127, so mathematical integers stand for them.\<close>

fun roll_sums :: "int \<Rightarrow> bytes \<Rightarrow> bytes \<Rightarrow> int \<times> int \<times> int \<Rightarrow> int \<times> int \<times> int" where
  "roll_sums weight (out_b # outs) (in_b # inns) (sum_outgoing, sum_delta, weighted_delta) =
    (let outgoing_val = sint out_b; incoming_val = sint in_b; delta = incoming_val - outgoing_val
     in roll_sums (weight - 1) outs inns
          (sum_outgoing + outgoing_val, sum_delta + delta, weighted_delta + delta * weight))"
| "roll_sums weight _ _ sums = sums"

definition roll_many :: "RollingChecksum \<Rightarrow> bytes \<Rightarrow> bytes \<Rightarrow> RollingError + RollingChecksum" where
  "roll_many rc outgoing incoming =
    (if length outgoing \<noteq> length incoming
     then Inl (MismatchedSliceLength (length outgoing) (length incoming))
     else bindE (window_len_u32 rc) (\<lambda>window_len.
       if outgoing = [] then Inr rc
       else if 2 ^ 32 \<le> length outgoing then roll_many_scalar rc outgoing incoming
       else
         let count = length outgoing;
             (sum_outgoing, sum_delta, weighted_delta) = roll_sums (int count) outgoing incoming (0, 0, 0);
             original_s1 = rc_s1 rc;
             new_s1 = (original_s1 + of_int sum_delta) AND 0xffff;
             new_s2 = (rc_s2 rc - window_len * of_int sum_outgoing + original_s1 * of_nat count
                       + of_int weighted_delta) AND 0xffff
         in Inr (rc\<lparr>rc_s1 := new_s1, rc_s2 := new_s2\<rparr>)))"

definition rc_value :: "RollingChecksum \<Rightarrow> u32" where
  "rc_value rc = push_bit 16 (rc_s2 rc) OR rc_s1 rc"

section \<open>Digests\<close>

record RollingDigest =
  rd_s1 :: u16
  rd_s2 :: u16
  rd_len :: nat

definition rc_digest :: "RollingChecksum \<Rightarrow> RollingDigest" where
  "rc_digest rc = \<lparr>rd_s1 = ucast (rc_s1 rc), rd_s2 = ucast (rc_s2 rc), rd_len = rc_len rc\<rparr>"

definition from_digest :: "RollingDigest \<Rightarrow> RollingChecksum" where
  "from_digest d = \<lparr>rc_s1 = ucast (rd_s1 d), rc_s2 = ucast (rd_s2 d), rc_len = rd_len d\<rparr>"

definition rd_from_bytes :: "target_arch \<Rightarrow> bytes \<Rightarrow> RollingDigest" where
  "rd_from_bytes arch bs = rc_digest (update arch rc_new bs)"

definition rd_from_value :: "u32 \<Rightarrow> nat \<Rightarrow> RollingDigest" where
  "rd_from_value v len = \<lparr>rd_s1 = ucast v, rd_s2 = ucast (drop_bit 16 v), rd_len = len\<rparr>"

definition rd_value :: "RollingDigest \<Rightarrow> u32" where
  "rd_value d = push_bit 16 (ucast (rd_s2 d)) OR ucast (rd_s1 d)"

definition rd_from_le_bytes :: "bytes \<Rightarrow> nat \<Rightarrow> RollingDigest" where
  "rd_from_le_bytes bs len = rd_from_value (from_le bs) len"

definition rd_to_le_bytes :: "RollingDigest \<Rightarrow> bytes" where
  "rd_to_le_bytes d = le_bytes 4 (rd_value d)"

text \<open>The error carries the length that was given instead of 4.\<close>

definition rd_from_le_slice :: "bytes \<Rightarrow> nat \<Rightarrow> nat + RollingDigest" where
  "rd_from_le_slice bs len = (if length bs \<noteq> 4 then Inl (length bs) else Inr (rd_from_le_bytes bs len))"

definition rd_write_le_bytes :: "RollingDigest \<Rightarrow> bytes \<Rightarrow> nat + bytes" where
  "rd_write_le_bytes d out = (if length out \<noteq> 4 then Inl (length out) else Inr (rd_to_le_bytes d))"

definition rd_read_le_from :: "nat \<Rightarrow> bytes \<Rightarrow> RollingDigest read_result" where
  "rd_read_le_from len s = bindE (read_exact 4 s) (\<lambda>(bs, s). Inr (rd_from_le_bytes bs len, s))"

section \<open>Arithmetic modulo 2^16\<close>

lemma and_ffff: "(w::u32) AND 0xffff = take_bit 16 w"
  by (simp add: take_bit_eq_mask mask_eq_exp_minus_1)

lemma ucast_take_bit_16: "(ucast (take_bit 16 a :: u32) :: u16) = ucast a"
  by (rule bit_word_eqI) (simp add: bit_simps)

lemma take_bit_16_ucast: "take_bit 16 (a::u32) = ucast (ucast a :: u16)"
  by (rule bit_word_eqI) (simp add: bit_simps)

lemma take_bit_16_iff: "take_bit 16 (a::u32) = take_bit 16 b \<longleftrightarrow> (ucast a :: u16) = ucast b"
  by (metis ucast_take_bit_16 take_bit_16_ucast)

lemma of_int_mod_32: "(of_int (k mod 4294967296) :: u16) = of_int k"
proof -
  have "k mod 4294967296 = take_bit 32 k" by (simp add: take_bit_eq_mod)
  then show ?thesis by (intro bit_word_eqI) (simp add: bit_simps)
qed

lemma ucast_16_hom:
  "(ucast (a + b :: u32) :: u16) = ucast a + ucast b"
  "(ucast (a - b :: u32) :: u16) = ucast a - ucast b"
  "(ucast (a * b :: u32) :: u16) = ucast a * ucast b"
  "(ucast (of_nat n :: u32) :: u16) = of_nat n"
  "(ucast (of_int i :: u32) :: u16) = of_int i"
proof -
  have u: "(ucast w :: u16) = of_int (uint w)" for w :: u32 by simp
  show "(ucast (a + b :: u32) :: u16) = ucast a + ucast b"
    "(ucast (a - b :: u32) :: u16) = ucast a - ucast b"
    "(ucast (a * b :: u32) :: u16) = ucast a * ucast b"
    by (simp_all only: u uint_word_ariths) (simp_all add: of_int_mod_32)
  show "(ucast (of_nat n :: u32) :: u16) = of_nat n"
  "(ucast (of_int i :: u32) :: u16) = of_int i"
    by (rule bit_word_eqI; simp add: bit_simps)+
qed

lemmas low16_simps = and_ffff take_bit_16_iff ucast_16_hom ucast_take_bit_16

section \<open>The state as a function of the window\<close>

definition rsum :: "bytes \<Rightarrow> RollingChecksum" where
  "rsum xs = \<lparr>rc_s1 = take_bit 16 (byte_sum xs), rc_s2 = take_bit 16 (weighted_sum xs),
              rc_len = sat_add 0 (length xs)\<rparr>"

lemma byte_sum_append [simp]: "byte_sum (xs @ ys) = byte_sum xs + byte_sum ys"
  by (induction xs) simp_all

lemma weighted_sum_append [simp]:
  "weighted_sum (xs @ ys) = weighted_sum xs + of_nat (length ys) * byte_sum xs + weighted_sum ys"
  by (induction xs) (simp_all add: algebra_simps)

lemma accumulate_chunk_dispatch_scalar:
  "accumulate_chunk_dispatch arch s1 s2 len chunk =
    (if chunk = [] then (s1, s2, len) else mask_result (accumulate_chunk_scalar_raw s1 s2 len chunk))"
  by (auto simp: accumulate_chunk_dispatch_def accumulate_chunk_arch_def try_accumulate_chunk_def
      accumulate_chunk_neon_def accumulate_chunk_sse2_scalar accumulate_chunk_avx2_scalar
      accumulate_chunk_neon_impl_scalar split: target_arch.splits)

lemma accumulate_chunk_dispatch_append:
  "accumulate_chunk_dispatch arch s1 s2 len (xs @ ys) =
    (case accumulate_chunk_dispatch arch s1 s2 len xs of (s1, s2, len) \<Rightarrow>
      accumulate_chunk_dispatch arch s1 s2 len ys)"
  by (auto simp: accumulate_chunk_dispatch_scalar accumulate_chunk_scalar_raw_sums mask_result_def
      low16_simps algebra_simps)

lemma update_append: "update arch (update arch rc xs) ys = update arch rc (xs @ ys)"
  by (simp add: update_def accumulate_chunk_dispatch_append rc_of_def split: prod.splits)

lemma update_new [simp]: "update arch rc_new xs = rsum xs"
  by (auto simp: update_def rc_new_def rsum_def rc_of_def accumulate_chunk_dispatch_scalar
      accumulate_chunk_scalar_raw_sums mask_result_def and_ffff sat_add_def)

lemma update_rsum [simp]: "update arch (rsum xs) ys = rsum (xs @ ys)"
  using update_append [of arch rc_new xs ys] by simp

lemma update_byte_rsum [simp]: "update_byte (rsum xs) b = rsum (xs @ [b])"
  by (simp add: update_byte_def rsum_def Let_def low16_simps sign_extend_byte_def algebra_simps)

lemma update_from_block_rsum [simp]: "update_from_block arch rc xs = rsum xs"
  using update_new [of arch xs] by (cases rc) (simp add: update_from_block_def rc_reset_def rc_new_def)

section \<open>Vectored updates\<close>

text \<open>The accumulator, followed by the bytes still in the scratch area, stands for all the bytes
  seen so far.\<close>

lemma flush_vectored_scratch_flushed:
  "flush_vectored_scratch arch (a, scratch) =
    (case a of (s1, s2, len) \<Rightarrow> accumulate_chunk_dispatch arch s1 s2 len scratch, [])"
  by (cases a) (auto simp: flush_vectored_scratch_def accumulate_chunk_dispatch_def)

lemma vectored_step_flush:
  "flush_vectored_scratch arch (vectored_step arch st chunk) =
    flush_vectored_scratch arch (fst st, snd st @ chunk)"
  by (cases st) (auto simp: vectored_step_def Let_def flush_vectored_scratch_flushed
      accumulate_chunk_dispatch_append accumulate_chunk_dispatch_def [of _ _ _ _ "[]"] split: prod.splits)

lemma flush_append:
  "flush_vectored_scratch arch (a, xs @ ys) =
    flush_vectored_scratch arch (fst (flush_vectored_scratch arch (a, xs)), ys)"
  by (cases a) (simp add: flush_vectored_scratch_flushed accumulate_chunk_dispatch_append)

lemma foldl_vectored_step_flush:
  "flush_vectored_scratch arch (foldl (vectored_step arch) st buffers) =
    flush_vectored_scratch arch (fst st, snd st @ concat buffers)"
proof (induction buffers arbitrary: st)
  case (Cons b bs)
  have "flush_vectored_scratch arch (foldl (vectored_step arch) st (b # bs)) =
      flush_vectored_scratch arch (fst (vectored_step arch st b), snd (vectored_step arch st b) @ concat bs)"
    using Cons by simp
  also have "\<dots> = flush_vectored_scratch arch (fst st, (snd st @ b) @ concat bs)"
    unfolding flush_append [of _ _ _ "concat bs"] prod.collapse vectored_step_flush ..
  finally show ?case by simp
qed simp

lemma update_vectored_concat: "update_vectored arch rc buffers = update arch rc (concat buffers)"
  by (simp add: update_vectored_def update_def foldl_vectored_step_flush flush_vectored_scratch_flushed)

section \<open>Rolling the window\<close>

lemma roll_rsum:
  assumes "length xs < 2 ^ 32 - 1"
  shows "roll (rsum (x # xs)) x y = Inr (rsum (xs @ [y]))"
proof -
  have len: "rc_len (rsum (x # xs)) = Suc (length xs)"
    using assms by (simp add: rsum_def sat_add_def USIZE_MAX_def)
  have w: "window_len_u32 (rsum (x # xs)) = Inr (of_nat (Suc (length xs)))"
    using assms unfolding window_len_u32_def len by simp
  show ?thesis
    unfolding roll_def w
    by (simp add: Let_def rsum_def low16_simps sign_extend_byte_def algebra_simps)
qed

lemma roll_many_scalar_rsum:
  assumes "length outs = length inns" "length outs + length mid < 2 ^ 32"
  shows "roll_many_scalar (rsum (outs @ mid)) outs inns = Inr (rsum (mid @ inns))"
  using assms
proof (induction outs inns arbitrary: mid rule: list_induct2)
  case (Cons o' outs i inns)
  then show ?case using Cons.IH [of "mid @ [i]"] by (simp add: roll_rsum)
qed simp

lemma roll_sums_shift:
  assumes "length outs = length inns"
  shows "roll_sums w outs inns (a, b, c) =
    (case roll_sums w outs inns (0, 0, 0) of (a', b', c') \<Rightarrow> (a + a', b + b', c + c'))"
  using assms
proof (induction outs inns arbitrary: w a b c rule: list_induct2)
  case (Cons o' outs i inns)
  let ?d = "sint i - sint o'"
  obtain a' b' c' where "roll_sums (w - 1) outs inns (0, 0, 0) = (a', b', c')" by (metis prod_cases3)
  then show ?case
    using Cons.IH [of "w - 1" "a + sint o'" "b + ?d" "c + ?d * w"] Cons.IH [of "w - 1" "sint o'" ?d "?d * w"]
    by (simp add: Let_def algebra_simps)
qed simp

lemma window_len_u32_Inr: "0 < rc_len rc \<Longrightarrow> rc_len rc < 2 ^ 32 \<Longrightarrow> window_len_u32 rc = Inr (of_nat (rc_len rc))"
  by (simp add: window_len_u32_def)

text \<open>What the byte-wise loop does, in terms of the three sums.\<close>

lemma roll_many_scalar_sums:
  assumes "length outs = length inns" "outs \<noteq> []" "0 < rc_len rc" "rc_len rc < 2 ^ 32"
    "roll_sums (int (length outs)) outs inns (0, 0, 0) = (so, sd, sw)"
  shows "roll_many_scalar rc outs inns =
    Inr (rc\<lparr>rc_s1 := take_bit 16 (rc_s1 rc + of_int sd),
            rc_s2 := take_bit 16 (rc_s2 rc - of_nat (rc_len rc) * of_int so
              + rc_s1 rc * of_nat (length outs) + of_int sw)\<rparr>)"
  using assms
proof (induction outs inns arbitrary: rc so sd sw rule: list_induct2)
  case (Cons o' outs i inns)
  let ?d = "sint i - sint o'"
  let ?s1 = "take_bit 16 (rc_s1 rc - scast o' + scast i)"
  let ?rc = "rc\<lparr>rc_s1 := ?s1, rc_s2 := take_bit 16 (rc_s2 rc - of_nat (rc_len rc) * scast o' + ?s1)\<rparr>"
  have roll: "roll rc o' i = Inr ?rc"
    using Cons.prems by (simp add: roll_def window_len_u32_Inr Let_def and_ffff)
  obtain a b c where sums: "roll_sums (int (length outs)) outs inns (0, 0, 0) = (a, b, c)"
    by (metis prod_cases3)
  have s: "so = sint o' + a" "sd = ?d + b" "sw = ?d * (1 + int (length outs)) + c"
    using Cons.prems roll_sums_shift [OF Cons.hyps, of "int (length outs)" "sint o'" ?d "?d * (1 + int (length outs))"] sums
    by (auto simp: Let_def)
  show ?case
  proof (cases "outs = []")
    case True
    with Cons.hyps have "inns = []" by simp
    with True sums roll show ?thesis
      unfolding s by (cases rc) (simp add: low16_simps algebra_simps)
  next
    case False
    then show ?thesis
      using Cons.IH [of ?rc, OF False] Cons.prems sums roll
      unfolding s by (cases rc) (simp add: low16_simps algebra_simps)
  qed
qed simp

text \<open>The aggregated update is the byte-wise one.\<close>

lemma roll_many_eq_scalar:
  assumes "length outgoing = length incoming" "0 < rc_len rc" "rc_len rc < 2 ^ 32"
  shows "roll_many rc outgoing incoming = roll_many_scalar rc outgoing incoming"
proof (cases "outgoing = []")
  case False
  then show ?thesis
    using assms roll_many_scalar_sums [OF assms(1) False assms(2,3)]
    by (auto simp: roll_many_def window_len_u32_Inr Let_def and_ffff split: prod.splits)
qed (use assms in \<open>simp add: roll_many_def window_len_u32_Inr\<close>)

section \<open>Digests\<close>

lemma rd_from_value_value [simp]: "rd_value (rd_from_value v len) = v"
  unfolding rd_value_def rd_from_value_def
  by (rule bit_word_eqI) (auto simp: bit_simps)

lemma rd_value_from_value [simp]: "rd_from_value (rd_value d) (rd_len d) = d"
proof -
  have "ucast (rd_value d) = rd_s1 d" "ucast (drop_bit 16 (rd_value d)) = rd_s2 d"
    unfolding rd_value_def by (rule bit_word_eqI; auto simp: bit_simps dest: bit_imp_le_length)+
  then show ?thesis by (simp add: rd_from_value_def)
qed

lemma rd_le_roundtrip [simp]: "rd_from_le_bytes (rd_to_le_bytes d) (rd_len d) = d"
  by (simp add: rd_from_le_bytes_def rd_to_le_bytes_def)

lemma from_digest_digest: "take_bit 16 (rc_s1 rc) = rc_s1 rc \<Longrightarrow> take_bit 16 (rc_s2 rc) = rc_s2 rc \<Longrightarrow>
    from_digest (rc_digest rc) = rc"
  by (simp add: from_digest_def rc_digest_def flip: take_bit_16_ucast)

section \<open>Properties\<close>

text \<open>C14: on every processor the checksum is the same: the SSE2, AVX2 and NEON loops compute
  exactly what the scalar loop computes, from every state and on every chunk, so the dispatcher's
  result does not depend on the architecture or on the features enabled.\<close>

theorem simd_equals_scalar:
  "accumulate_chunk_sse2 s1 s2 len chunk = accumulate_chunk_scalar_raw s1 s2 len chunk \<and>
   accumulate_chunk_avx2 s1 s2 len chunk = accumulate_chunk_scalar_raw s1 s2 len chunk \<and>
   accumulate_chunk_neon_impl s1 s2 len chunk = accumulate_chunk_scalar_raw s1 s2 len chunk \<and>
   accumulate_chunk_dispatch arch s1 s2 len chunk = accumulate_chunk_dispatch Other_arch s1 s2 len chunk"
  by (simp add: accumulate_chunk_sse2_scalar accumulate_chunk_avx2_scalar
      accumulate_chunk_neon_impl_scalar accumulate_chunk_dispatch_scalar)

text \<open>C11: sliding the window by any number of bytes with \<^term>\<open>roll_many\<close>, or one at a time with
  \<^term>\<open>roll\<close>, gives exactly the state that a fresh checksum of the shifted window has.\<close>

theorem roll_window:
  assumes "length outs = length inns" "0 < length outs + length mid" "length outs + length mid < 2 ^ 32"
  shows "roll_many (update arch rc_new (outs @ mid)) outs inns = Inr (update arch rc_new (mid @ inns)) \<and>
    roll_many_scalar (update arch rc_new (outs @ mid)) outs inns = Inr (update arch rc_new (mid @ inns))"
proof -
  have "0 < rc_len (rsum (outs @ mid))" "rc_len (rsum (outs @ mid)) < 2 ^ 32"
    using assms(2,3) by (auto simp: rsum_def sat_add_def USIZE_MAX_def)
  then show ?thesis
    using assms roll_many_scalar_rsum [of outs inns mid] roll_many_eq_scalar [of outs inns "rsum (outs @ mid)"]
    by simp
qed

theorem roll_window_witness:
  "roll_many (update Other_arch rc_new [1, 200, 3, 4]) [1, 200] [50, 60] = Inr (update Other_arch rc_new [3, 4, 50, 60])"
  using roll_window [of "[1, 200]" "[50, 60]" "[3, 4]" Other_arch] by simp

text \<open>How the input is cut into buffers does not matter: a vectored update through the
  128-byte scratch area, and a sequence of plain updates, both equal one update with the
  concatenation of the buffers.\<close>

theorem update_chunking:
  "update_vectored arch rc buffers = update arch rc (concat buffers) \<and>
   foldl (update arch) rc buffers = update arch rc (concat buffers)"
proof -
  have "foldl (update arch) rc buffers = update arch rc (concat buffers)"
  proof (induction buffers arbitrary: rc)
    case Nil
    then show ?case by (simp add: update_def accumulate_chunk_dispatch_def rc_of_def)
  next
    case (Cons b bs)
    then show ?case by (simp add: update_append)
  qed
  then show ?thesis by (simp add: update_vectored_concat)
qed

text \<open>C28: a digest survives its four wire bytes, and a checksum rebuilt from the digest of any
  window continues as if it had seen the window itself.\<close>

theorem digest_roundtrip:
  "rd_read_le_from (rd_len d) (rd_to_le_bytes d @ rest) = Inr (d, rest) \<and>
   update arch (from_digest (rd_from_bytes arch xs)) ys = update arch rc_new (xs @ ys) \<and>
   rd_value (rd_from_bytes arch xs) = rc_value (update arch rc_new xs)"
proof -
  have r: "rc_digest (rsum xs) = rd_from_bytes arch xs" by (simp add: rd_from_bytes_def)
  have "from_digest (rc_digest (rsum xs)) = rsum xs"
    by (rule from_digest_digest) (simp_all add: rsum_def)
  moreover have "rd_value (rc_digest (rsum xs)) = rc_value (rsum xs)"
    by (simp add: rd_value_def rc_digest_def rc_value_def rsum_def flip: take_bit_16_ucast)
  moreover have "length (rd_to_le_bytes d) = 4" by (simp add: rd_to_le_bytes_def)
  ultimately show ?thesis
    using read_exact_append [of "rd_to_le_bytes d" 4 rest] by (simp add: rd_read_le_from_def flip: r)
qed

end
