(* ===== verification/Ring_Buffer.thy ===== *)
theory Ring_Buffer
  imports Prelude
begin

text \<open>
  The sliding window of the delta generator, \<open>crates/matching/src/ring_buffer.rs\<close>: a fixed-capacity
  circular byte buffer.  Its specification is a bounded list; the locale \<open>sliding_window\<close> is the
  contract the generator relies on and the buffer is shown to implement it.
\<close>

section \<open>The buffer\<close>

record RingBuffer =
  rb_buffer :: bytes
  rb_head :: nat
  rb_len :: nat

definition rb_with_capacity :: "nat \<Rightarrow> RingBuffer" where
  "rb_with_capacity capacity = \<lparr>rb_buffer = replicate capacity 0, rb_head = 0, rb_len = 0\<rparr>"

definition rb_capacity :: "RingBuffer \<Rightarrow> nat" where
  "rb_capacity rb = length (rb_buffer rb)"

definition rb_is_empty :: "RingBuffer \<Rightarrow> bool" where
  "rb_is_empty rb = (rb_len rb = 0)"

definition rb_is_full :: "RingBuffer \<Rightarrow> bool" where
  "rb_is_full rb = (rb_len rb = length (rb_buffer rb))"

definition push_back :: "u8 \<Rightarrow> RingBuffer \<Rightarrow> RingBuffer \<times> u8 option" where
  "push_back byte rb =
    (if rb_len rb < length (rb_buffer rb)
     then let pos = (rb_head rb + rb_len rb) mod length (rb_buffer rb)
          in (rb\<lparr>rb_buffer := (rb_buffer rb)[pos := byte], rb_len := rb_len rb + 1\<rparr>, None)
     else let outgoing = rb_buffer rb ! rb_head rb
          in (rb\<lparr>rb_buffer := (rb_buffer rb)[rb_head rb := byte],
                 rb_head := (rb_head rb + 1) mod length (rb_buffer rb)\<rparr>, Some outgoing))"

definition pop_front :: "RingBuffer \<Rightarrow> RingBuffer \<times> u8 option" where
  "pop_front rb =
    (if rb_len rb = 0 then (rb, None)
     else let byte = rb_buffer rb ! rb_head rb
          in (rb\<lparr>rb_head := (rb_head rb + 1) mod length (rb_buffer rb), rb_len := rb_len rb - 1\<rparr>,
              Some byte))"

definition rb_clear :: "RingBuffer \<Rightarrow> RingBuffer" where
  "rb_clear rb = rb\<lparr>rb_head := 0, rb_len := 0\<rparr>"

text \<open>Slices \<open>xs[a..b]\<close>, and \<open>xs[a..a + ys.len()].copy_from_slice(ys)\<close>.\<close>

definition slice :: "nat \<Rightarrow> nat \<Rightarrow> 'a list \<Rightarrow> 'a list" where
  "slice a b xs = drop a (take b xs)"

definition copy_at :: "nat \<Rightarrow> 'a list \<Rightarrow> 'a list \<Rightarrow> 'a list" where
  "copy_at a ys xs = take a xs @ ys @ drop (a + length ys) xs"

definition as_slice :: "RingBuffer \<Rightarrow> RingBuffer \<times> bytes" where
  "as_slice rb =
    (if rb_len rb = 0 then (rb, [])
     else if rb_head rb = 0 then (rb, take (rb_len rb) (rb_buffer rb))
     else let end' = rb_head rb + rb_len rb
          in if end' \<le> length (rb_buffer rb) then (rb, slice (rb_head rb) end' (rb_buffer rb))
             else let rb = rb\<lparr>rb_buffer := rotate (rb_head rb) (rb_buffer rb), rb_head := 0\<rparr>
                  in (rb, take (rb_len rb) (rb_buffer rb)))"

definition try_as_slice :: "RingBuffer \<Rightarrow> bytes option" where
  "try_as_slice rb =
    (if rb_len rb = 0 then Some []
     else let end' = rb_head rb + rb_len rb
          in if end' \<le> length (rb_buffer rb) then Some (slice (rb_head rb) end' (rb_buffer rb)) else None)"

definition as_slices :: "RingBuffer \<Rightarrow> bytes \<times> bytes" where
  "as_slices rb =
    (if rb_len rb = 0 then ([], [])
     else let end' = rb_head rb + rb_len rb
          in if end' \<le> length (rb_buffer rb) then (slice (rb_head rb) end' (rb_buffer rb), [])
             else let first_len = length (rb_buffer rb) - rb_head rb;
                      second_len = rb_len rb - first_len
                  in (drop (rb_head rb) (rb_buffer rb), take second_len (rb_buffer rb)))"

definition extend_from_slice :: "bytes \<Rightarrow> RingBuffer \<Rightarrow> RingBuffer \<times> nat" where
  "extend_from_slice src rb =
    (let remaining = length (rb_buffer rb) - rb_len rb;
         n = min (length src) remaining
     in if n = 0 then (rb, 0)
        else let write_pos = (rb_head rb + rb_len rb) mod length (rb_buffer rb);
                 to_end = length (rb_buffer rb) - write_pos;
                 buffer = (if n \<le> to_end then copy_at write_pos (take n src) (rb_buffer rb)
                           else copy_at 0 (slice to_end n src)
                                  (copy_at write_pos (take to_end src) (rb_buffer rb)))
             in (rb\<lparr>rb_buffer := buffer, rb_len := rb_len rb + n\<rparr>, n))"

text \<open>\<open>None\<close> is the panic of a destination that is too small.\<close>

definition copy_to_slice :: "RingBuffer \<Rightarrow> bytes \<Rightarrow> bytes option" where
  "copy_to_slice rb dest =
    (if length dest < rb_len rb then None
     else let (first, second) = as_slices rb;
              dest = copy_at 0 first dest
          in Some (if second \<noteq> [] then copy_at (length first) second dest else dest))"

section \<open>The contract\<close>

text \<open>A run of pushes, with the bytes they displace.\<close>

fun push_seq :: "(u8 \<Rightarrow> 'w \<Rightarrow> 'w \<times> u8 option) \<Rightarrow> bytes \<Rightarrow> 'w \<Rightarrow> 'w \<times> bytes" where
  "push_seq push [] w = (w, [])"
| "push_seq push (b # bs) w =
    (case push b w of (w, r) \<Rightarrow>
      (case push_seq push bs w of (w, out) \<Rightarrow> (w, (case r of None \<Rightarrow> [] | Some x \<Rightarrow> [x]) @ out)))"

text \<open>A window of at most \<open>cap\<close> bytes: a push into a full window drops the oldest byte and returns
  it, a pop removes the oldest byte, an extension takes as many bytes as still fit.\<close>

locale sliding_window =
  fixes inv :: "'w \<Rightarrow> bool"
    and cap :: "'w \<Rightarrow> nat"
    and content :: "'w \<Rightarrow> bytes"
    and push :: "u8 \<Rightarrow> 'w \<Rightarrow> 'w \<times> u8 option"
    and pop :: "'w \<Rightarrow> 'w \<times> u8 option"
    and extend :: "bytes \<Rightarrow> 'w \<Rightarrow> 'w \<times> nat"
  assumes bounded: "inv w \<Longrightarrow> 0 < cap w \<and> length (content w) \<le> cap w"
    and push: "inv w \<Longrightarrow> push b w = (w', r) \<Longrightarrow> inv w' \<and> cap w' = cap w \<and>
      (if length (content w) < cap w then content w' = content w @ [b] \<and> r = None
       else content w' = tl (content w) @ [b] \<and> r = Some (hd (content w)))"
    and pop: "inv w \<Longrightarrow> pop w = (w', r) \<Longrightarrow> inv w' \<and> cap w' = cap w \<and> content w' = tl (content w) \<and>
      r = (if content w = [] then None else Some (hd (content w)))"
    and extend: "inv w \<Longrightarrow> extend bs w = (w', n) \<Longrightarrow> inv w' \<and> cap w' = cap w \<and>
      n = min (length bs) (cap w - length (content w)) \<and> content w' = content w @ take n bs"
begin

text \<open>Pushing a sequence keeps the newest \<open>cap\<close> bytes, and the bytes that fell out are the rest, in
  order.\<close>

lemma push_seq_content:
  assumes "inv w" "push_seq push bs w = (w', out)"
  shows "inv w' \<and> cap w' = cap w \<and> out @ content w' = content w @ bs \<and>
    length (content w') = min (cap w) (length (content w @ bs))"
  using assms
proof (induction bs arbitrary: w out)
  case Nil
  then show ?case using bounded by auto
next
  case (Cons b bs)
  obtain w1 r where p: "push b w = (w1, r)" by (cases "push b w")
  obtain out' where rest: "push_seq push bs w1 = (w', out')"
    "out = (case r of None \<Rightarrow> [] | Some x \<Rightarrow> [x]) @ out'"
    using Cons.prems p by (auto split: prod.splits)
  have one: "inv w1" "cap w1 = cap w" "(case r of None \<Rightarrow> [] | Some x \<Rightarrow> [x]) @ content w1 = content w @ [b]"
    "length (content w1) = min (cap w) (Suc (length (content w)))"
    using push [OF Cons.prems(1) p] bounded [OF Cons.prems(1)]
    by (cases "content w"; auto split: if_splits)+
  show ?case
    using Cons.IH [OF one(1) rest(1)] one rest(2) by (auto simp: min_def)
qed

end

section \<open>The buffer implements the contract\<close>

definition rb_inv :: "RingBuffer \<Rightarrow> bool" where
  "rb_inv rb = (rb_head rb < length (rb_buffer rb) \<and> rb_len rb \<le> length (rb_buffer rb))"

definition rb_list :: "RingBuffer \<Rightarrow> bytes" where
  "rb_list rb = take (rb_len rb) (rotate (rb_head rb) (rb_buffer rb))"

lemma length_rb_list [simp]: "rb_inv rb \<Longrightarrow> length (rb_list rb) = rb_len rb"
  by (simp add: rb_inv_def rb_list_def)

lemma nth_rb_list:
  "rb_inv rb \<Longrightarrow> i < rb_len rb \<Longrightarrow> rb_list rb ! i = rb_buffer rb ! ((rb_head rb + i) mod length (rb_buffer rb))"
  by (simp add: rb_inv_def rb_list_def nth_rotate)

lemma mod_shift_inj:
  assumes "(h + i) mod c = (h + j) mod c" "i < (c::nat)" "j < c"
  shows "i = j"
  using assms
proof (induction i j rule: linorder_wlog)
  case (le i j)
  then have "c dvd j - i" using mod_eq_dvd_iff_nat [of "h + i" "h + j" c] by simp
  with le show ?case using dvd_imp_le [of c "j - i"] by (cases "j - i = 0") auto
qed simp

text \<open>Two positions of the window are different cells.\<close>

lemma nth_list_update_mod:
  "i < c \<Longrightarrow> j < c \<Longrightarrow> length xs = c \<Longrightarrow>
    xs[(h + i) mod c := b] ! ((h + j) mod c) = (if i = j then b else xs ! ((h + j) mod c))"
  by (auto simp: nth_list_update dest: mod_shift_inj [of h i "length xs" j])

lemma push_back_refines:
  assumes "rb_inv rb" "push_back b rb = (rb', r)"
  shows "rb_inv rb' \<and> rb_capacity rb' = rb_capacity rb \<and>
    (if length (rb_list rb) < rb_capacity rb then rb_list rb' = rb_list rb @ [b] \<and> r = None
     else rb_list rb' = tl (rb_list rb) @ [b] \<and> r = Some (hd (rb_list rb)))"
proof (cases "rb_len rb < length (rb_buffer rb)")
  case True
  let ?c = "length (rb_buffer rb)"
  have rb': "rb' = rb\<lparr>rb_buffer := (rb_buffer rb)[(rb_head rb + rb_len rb) mod ?c := b], rb_len := rb_len rb + 1\<rparr>" "r = None"
    using assms True by (auto simp: push_back_def Let_def)
  have inv: "rb_inv rb'" using assms(1) True by (auto simp: rb_inv_def rb')
  moreover have "rb_list rb' = rb_list rb @ [b]"
    using assms(1) inv True
    by (intro nth_equalityI)
       (auto simp: nth_rb_list rb' nth_append nth_list_update_mod less_Suc_eq)
  ultimately show ?thesis using True assms(1) rb' by (simp add: rb_capacity_def)
next
  case False
  let ?c = "length (rb_buffer rb)" and ?h = "rb_head rb"
  have full: "rb_len rb = ?c" "0 < ?c" "?h < ?c" using False assms(1) by (auto simp: rb_inv_def)
  have rb': "rb' = rb\<lparr>rb_buffer := (rb_buffer rb)[?h := b], rb_head := (?h + 1) mod ?c\<rparr>" "r = Some (rb_buffer rb ! ?h)"
    using assms False by (auto simp: push_back_def Let_def)
  have inv: "rb_inv rb'" using assms(1) full by (auto simp: rb_inv_def rb')
  have nth: "rb_list rb' ! i = (if i = ?c - 1 then b else rb_list rb ! Suc i)" if "i < ?c" for i
  proof -
    have "(?h + ?c) mod ?c = ?h" using full by simp
    then have "(rb_buffer rb)[?h := b] ! ((?h + Suc i) mod ?c) = (if Suc i = ?c then b else rb_buffer rb ! ((?h + Suc i) mod ?c))"
      using nth_list_update_mod [of 0 ?c "Suc i" "rb_buffer rb" ?h b] that full by (cases "Suc i = ?c") auto
    then show ?thesis
      using nth_rb_list [OF inv, of i] nth_rb_list [OF assms(1), of "Suc i"] that full
      by (auto simp: rb' mod_add_left_eq split: if_splits)
  qed
  have "rb_list rb' = tl (rb_list rb) @ [b]"
  proof (rule nth_equalityI)
    show "length (rb_list rb') = length (tl (rb_list rb) @ [b])" using inv assms(1) full by (simp add: rb')
    show "rb_list rb' ! i = (tl (rb_list rb) @ [b]) ! i" if "i < length (rb_list rb')" for i
      using that nth [of i] inv assms(1) full by (auto simp: rb'(1) [THEN arg_cong [of _ _ rb_len]] nth_append nth_tl)
  qed
  moreover have "hd (rb_list rb) = rb_buffer rb ! ?h"
    using full assms(1) nth_rb_list [OF assms(1), of 0] hd_conv_nth [of "rb_list rb"]
    by (metis add_0_right length_0_conv length_rb_list mod_less not_less_zero)
  ultimately show ?thesis using inv full assms(1) rb' by (simp add: rb_capacity_def)
qed

lemma pop_front_refines:
  assumes "rb_inv rb" "pop_front rb = (rb', r)"
  shows "rb_inv rb' \<and> rb_capacity rb' = rb_capacity rb \<and> rb_list rb' = tl (rb_list rb) \<and>
    r = (if rb_list rb = [] then None else Some (hd (rb_list rb)))"
proof (cases "rb_len rb = 0")
  case True
  then show ?thesis using assms by (auto simp: pop_front_def rb_list_def)
next
  case False
  let ?c = "length (rb_buffer rb)" and ?h = "rb_head rb"
  have rb': "rb' = rb\<lparr>rb_head := (?h + 1) mod ?c, rb_len := rb_len rb - 1\<rparr>" "r = Some (rb_buffer rb ! ?h)"
    using assms False by (auto simp: pop_front_def Let_def)
  have inv: "rb_inv rb'" using assms(1) False by (auto simp: rb_inv_def rb' intro: mod_less_divisor)
  have "rb_list rb' = tl (rb_list rb)"
    using inv assms(1) False
    by (intro nth_equalityI) (auto simp: nth_rb_list nth_tl rb' mod_add_left_eq)
  moreover have "rb_list rb \<noteq> [] \<and> hd (rb_list rb) = rb_buffer rb ! ?h"
    using False assms(1) nth_rb_list [OF assms(1), of 0] hd_conv_nth [of "rb_list rb"]
    by (metis add_0_right length_0_conv length_rb_list mod_less neq0_conv rb_inv_def)
  ultimately show ?thesis using inv rb' by (simp add: rb_capacity_def)
qed

lemma length_copy_at [simp]: "a + length ys \<le> length xs \<Longrightarrow> length (copy_at a ys xs) = length xs"
  by (simp add: copy_at_def)

lemma copy_at_Nil [simp]: "copy_at a [] xs = xs"
  by (simp add: copy_at_def)

lemma nth_copy_at:
  "a + length ys \<le> length xs \<Longrightarrow>
    copy_at a ys xs ! i = (if a \<le> i \<and> i < a + length ys then ys ! (i - a) else xs ! i)"
  by (auto simp: copy_at_def nth_append)

text \<open>The one or two copies of an extension write \<open>n\<close> consecutive cells of the ring.\<close>

lemma nth_ring_copy:
  assumes "length xs = c" "wp < c" "n \<le> c" "n \<le> length src" "j < c"
  shows "(if n \<le> c - wp then copy_at wp (take n src) xs
          else copy_at 0 (slice (c - wp) n src) (copy_at wp (take (c - wp) src) xs)) ! ((wp + j) mod c) =
    (if j < n then src ! j else xs ! ((wp + j) mod c))"
proof -
  have "(wp + j) mod c = (if wp + j < c then wp + j else wp + j - c)"
    using assms by (auto simp: mod_if)
  then show ?thesis using assms by (auto simp: nth_copy_at slice_def)
qed

lemma length_ring_copy:
  assumes "length xs = c" "wp < c" "n \<le> c" "n \<le> length src"
  shows "length (if n \<le> c - wp then copy_at wp (take n src) xs
          else copy_at 0 (slice (c - wp) n src) (copy_at wp (take (c - wp) src) xs)) = c"
  using assms by (auto simp: slice_def)

lemma extend_from_slice_refines:
  assumes "rb_inv rb" "extend_from_slice bs rb = (rb', n)"
  shows "rb_inv rb' \<and> rb_capacity rb' = rb_capacity rb \<and>
    n = min (length bs) (rb_capacity rb - length (rb_list rb)) \<and> rb_list rb' = rb_list rb @ take n bs"
proof (cases "n = 0")
  case True
  then show ?thesis using assms
    by (auto simp: extend_from_slice_def Let_def rb_capacity_def split: if_splits)
next
  case False
  let ?c = "length (rb_buffer rb)" and ?wp = "(rb_head rb + rb_len rb) mod length (rb_buffer rb)"
  define buf where "buf = (if n \<le> ?c - ?wp then copy_at ?wp (take n bs) (rb_buffer rb)
          else copy_at 0 (slice (?c - ?wp) n bs) (copy_at ?wp (take (?c - ?wp) bs) (rb_buffer rb)))"
  have n: "n = min (length bs) (?c - rb_len rb)" and rb': "rb' = rb\<lparr>rb_buffer := buf, rb_len := rb_len rb + n\<rparr>"
    using assms(2) False by (auto simp: extend_from_slice_def Let_def buf_def split: if_splits)
  have c: "0 < ?c" "?wp < ?c" "rb_len rb \<le> ?c" using assms(1) by (auto simp: rb_inv_def intro: mod_less_divisor)
  have len: "length buf = ?c" using length_ring_copy [of "rb_buffer rb" ?c ?wp n bs] c n by (simp add: buf_def)
  have inv: "rb_inv rb'" using assms(1) n len by (auto simp: rb_inv_def rb' min_def)
  have cell: "buf ! ((?wp + j) mod ?c) = (if j < n then bs ! j else rb_buffer rb ! ((?wp + j) mod ?c))" if "j < ?c" for j
    using nth_ring_copy [of "rb_buffer rb" ?c ?wp n bs j] that n c by (simp add: buf_def)
  have new: "rb_list rb' ! i = buf ! ((rb_head rb + i) mod ?c)" if "i < rb_len rb + n" for i
    using nth_rb_list [OF inv, of i] that len by (simp add: rb')
  have "rb_list rb' ! i = (rb_list rb @ take n bs) ! i" if "i < rb_len rb + n" for i
  proof (cases "i < rb_len rb")
    case True
    have "(?wp + (?c - rb_len rb + i)) mod ?c = (rb_head rb + rb_len rb + (?c - rb_len rb + i)) mod ?c"
      by (rule mod_add_left_eq)
    also have "rb_head rb + rb_len rb + (?c - rb_len rb + i) = rb_head rb + i + ?c" using c by simp
    finally have "(?wp + (?c - rb_len rb + i)) mod ?c = (rb_head rb + i) mod ?c" by simp
    moreover have "?c - rb_len rb + i < ?c" "\<not> ?c - rb_len rb + i < n" using True c n by auto
    ultimately have "buf ! ((rb_head rb + i) mod ?c) = rb_buffer rb ! ((rb_head rb + i) mod ?c)"
      using cell by metis
    then show ?thesis using True new [OF that] nth_rb_list [OF assms(1)] assms(1) by (simp add: nth_append)
  next
    case False
    have "(?wp + (i - rb_len rb)) mod ?c = (rb_head rb + rb_len rb + (i - rb_len rb)) mod ?c"
      by (rule mod_add_left_eq)
    also have "rb_head rb + rb_len rb + (i - rb_len rb) = rb_head rb + i" using False by simp
    finally have "(?wp + (i - rb_len rb)) mod ?c = (rb_head rb + i) mod ?c" .
    moreover have "i - rb_len rb < ?c" "i - rb_len rb < n" using False that c n by auto
    ultimately have "buf ! ((rb_head rb + i) mod ?c) = bs ! (i - rb_len rb)" using cell by metis
    then show ?thesis using False that new [OF that] assms(1) by (simp add: nth_append)
  qed
  then have "rb_list rb' = rb_list rb @ take n bs"
    using inv assms(1) n by (intro nth_equalityI) (auto simp: rb')
  then show ?thesis using inv n len assms(1) by (auto simp: rb_capacity_def rb')
qed

interpretation rb_win: sliding_window rb_inv rb_capacity rb_list push_back pop_front extend_from_slice
proof unfold_locales
  show "0 < rb_capacity rb \<and> length (rb_list rb) \<le> rb_capacity rb" if "rb_inv rb" for rb
    using that by (auto simp: rb_capacity_def) (auto simp: rb_inv_def)
qed (rule push_back_refines pop_front_refines extend_from_slice_refines; assumption)+

lemma rb_with_capacity_inv: "0 < c \<Longrightarrow> rb_inv (rb_with_capacity c) \<and> rb_list (rb_with_capacity c) = []"
  by (simp add: rb_inv_def rb_with_capacity_def rb_list_def)

lemma rb_clear_inv [simp]: "rb_inv rb \<Longrightarrow> rb_inv (rb_clear rb)" "rb_list (rb_clear rb) = []"
  by (auto simp: rb_inv_def rb_clear_def rb_list_def)

text \<open>The three views of the window.\<close>

lemma rb_list_slices:
  "rb_inv rb \<Longrightarrow> rb_list rb =
    (if rb_head rb + rb_len rb \<le> length (rb_buffer rb)
     then slice (rb_head rb) (rb_head rb + rb_len rb) (rb_buffer rb)
     else drop (rb_head rb) (rb_buffer rb)
          @ take (rb_len rb - (length (rb_buffer rb) - rb_head rb)) (rb_buffer rb))"
  by (auto simp: rb_list_def rb_inv_def slice_def rotate_drop_take min_def drop_take)

lemma as_slice_list:
  assumes "rb_inv rb" "as_slice rb = (rb', xs)"
  shows "rb_inv rb' \<and> rb_capacity rb' = rb_capacity rb \<and> rb_list rb' = rb_list rb \<and> xs = rb_list rb"
  using assms rb_list_slices [OF assms(1)]
  by (auto simp: as_slice_def Let_def rb_inv_def rb_capacity_def rb_list_def slice_def split: if_splits)

lemma as_slices_list: "rb_inv rb \<Longrightarrow> fst (as_slices rb) @ snd (as_slices rb) = rb_list rb"
  by (auto simp: rb_list_slices as_slices_def Let_def slice_def)

lemma try_as_slice_list: "rb_inv rb \<Longrightarrow> try_as_slice rb = Some xs \<Longrightarrow> xs = rb_list rb"
  by (auto simp: rb_list_slices try_as_slice_def Let_def split: if_splits) (simp add: slice_def)

lemma copy_to_slice_list:
  assumes "rb_inv rb" "rb_len rb \<le> length dest"
  shows "copy_to_slice rb dest = Some (rb_list rb @ drop (rb_len rb) dest)"
proof -
  obtain a b where ab: "as_slices rb = (a, b)" by (cases "as_slices rb")
  then have "rb_list rb = a @ b" "length a + length b = rb_len rb"
    using as_slices_list [OF assms(1)] length_rb_list [OF assms(1)] by (auto simp flip: length_append)
  then show ?thesis using assms ab by (auto simp: copy_to_slice_def copy_at_def Let_def add.commute)
qed

section \<open>Properties\<close>

lemma try_as_slice_exact:
  assumes "rb_inv rb"
  shows "try_as_slice rb = (if snd (as_slices rb) = [] then Some (rb_list rb) else None)"
proof (cases "try_as_slice rb")
  case None
  then show ?thesis using assms
    by (auto simp: try_as_slice_def as_slices_def rb_inv_def Let_def split: if_splits)
next
  case (Some xs)
  then show ?thesis using try_as_slice_list [OF assms Some]
    by (auto simp: try_as_slice_def as_slices_def Let_def split: if_splits)
qed

text \<open>C34: whatever bytes are pushed, the ring buffer holds exactly the newest ones, as many as its
  capacity allows, in order; every view shows that window: made contiguous, split in two, borrowed
  (when the window does not wrap, and refused when it does) and copied to a destination (when that is
  long enough, with the rest of the destination untouched).\<close>

theorem ring_buffer_window:
  assumes "rb_inv rb" "push_seq push_back bs rb = (rb', out)"
  shows "rb_inv rb' \<and> out @ rb_list rb' = rb_list rb @ bs \<and>
    length (rb_list rb') = min (rb_capacity rb) (length (rb_list rb) + length bs) \<and>
    snd (as_slice rb') = rb_list rb' \<and> fst (as_slices rb') @ snd (as_slices rb') = rb_list rb' \<and>
    try_as_slice rb' = (if snd (as_slices rb') = [] then Some (rb_list rb') else None) \<and>
    copy_to_slice rb' dest =
      (if length (rb_list rb') \<le> length dest then Some (rb_list rb' @ drop (length (rb_list rb')) dest) else None)"
proof -
  have inv: "rb_inv rb'" using rb_win.push_seq_content [OF assms] by simp
  have "copy_to_slice rb' dest =
      (if length (rb_list rb') \<le> length dest then Some (rb_list rb' @ drop (length (rb_list rb')) dest) else None)"
    using copy_to_slice_list [OF inv, of dest] by (auto simp: length_rb_list [OF inv] copy_to_slice_def)
  then show ?thesis
    using rb_win.push_seq_content [OF assms] as_slices_list [OF inv] try_as_slice_exact [OF inv]
      as_slice_list [of rb' "fst (as_slice rb')" "snd (as_slice rb')"] by simp
qed

theorem ring_buffer_window_witness:
  "rb_list (fst (push_seq push_back [1, 2, 3, 4, 5] (rb_with_capacity 3))) = [3, 4, 5] \<and>
   copy_to_slice (fst (push_seq push_back [1, 2, 3, 4, 5] (rb_with_capacity 3))) [9, 9, 9, 9] = Some [3, 4, 5, 9] \<and>
   try_as_slice (fst (push_seq push_back [1, 2, 3, 4, 5] (rb_with_capacity 3))) = None"
proof -
  let ?p = "push_seq push_back [1, 2, 3, 4, 5] (rb_with_capacity 3)"
  have "rb_inv (rb_with_capacity 3)" using rb_with_capacity_inv [of 3] by simp
  from ring_buffer_window [OF this, of "[1, 2, 3, 4, 5]" "fst ?p" "snd ?p" "[9, 9, 9, 9]"]
  have "copy_to_slice (fst ?p) [9, 9, 9, 9] =
      (if length (rb_list (fst ?p)) \<le> length [9, 9, 9, 9 :: u8]
       then Some (rb_list (fst ?p) @ drop (length (rb_list (fst ?p))) [9, 9, 9, 9]) else None)"
    "try_as_slice (fst ?p) = (if snd (as_slices (fst ?p)) = [] then Some (rb_list (fst ?p)) else None)" by simp_all
  moreover have "rb_list (fst ?p) = [3, 4, 5]" "snd (as_slices (fst ?p)) = [4, 5]" by code_simp+
  ultimately show ?thesis by simp
qed

end
