(* ===== verification/Signature.thy ===== *)
theory Signature
  imports Rolling
begin

text \<open>
  File signatures, \<open>crates/signature/src\<close>: the block layout (\<open>layout.rs\<close> and the equivalent
  \<open>block_size.rs\<close>), the strong checksum algorithms (\<open>algorithm.rs\<close>, with the seeding of
  \<open>crates/checksums/src/strong\<close>), and signature generation (\<open>generation.rs\<close>).  The hash functions
  themselves come from external crates and are a parameter, the record \<open>hash_crates\<close>.
\<close>

section \<open>Strong checksums\<close>

text \<open>The one-shot digests of the external hash crates.  Their streaming interface is documented to
  return the one-shot digest of all the bytes fed, so a streaming hasher is the bytes it was fed.
  The two batch functions digest several inputs at once.\<close>

record hash_crates =
  md4_hash :: "bytes \<Rightarrow> bytes"
  md5_hash :: "bytes \<Rightarrow> bytes"
  sha1_hash :: "bytes \<Rightarrow> bytes"
  xxh64_hash :: "u64 \<Rightarrow> bytes \<Rightarrow> u64"
  xxh3_64_hash :: "u64 \<Rightarrow> bytes \<Rightarrow> u64"
  xxh3_128_hash :: "u64 \<Rightarrow> bytes \<Rightarrow> 128 word"
  md4_digest_batch :: "bytes list \<Rightarrow> bytes list"
  md5_digest_batch :: "bytes list \<Rightarrow> bytes list"

record Md5Seed =
  seed_value :: "i32 option"
  proper_order :: bool

datatype SignatureAlgorithm =
    Md4
  | Md4Seeded i32
  | Md5 Md5Seed
  | Sha1
  | Xxh64 u64
  | Xxh3 u64
  | Xxh3_128 u64

definition digest_len :: "SignatureAlgorithm \<Rightarrow> nat" where
  "digest_len alg =
    (case alg of Md4 \<Rightarrow> 16 | Md4Seeded _ \<Rightarrow> 16 | Md5 _ \<Rightarrow> 16 | Sha1 \<Rightarrow> 20
     | Xxh64 _ \<Rightarrow> 8 | Xxh3 _ \<Rightarrow> 8 | Xxh3_128 _ \<Rightarrow> 16)"

definition DIGEST_MAX_LEN :: nat where
  "DIGEST_MAX_LEN = 20"

record DigestBuf =
  db_buf :: bytes
  db_len :: nat

definition as_slice_db :: "DigestBuf \<Rightarrow> bytes" where
  "as_slice_db d = take (db_len d) (db_buf d)"

definition from_slice :: "bytes \<Rightarrow> nat \<Rightarrow> DigestBuf" where
  "from_slice src len =
    (let copy_len = min (min len (length src)) DIGEST_MAX_LEN
     in \<lparr>db_buf = take copy_len src @ replicate (DIGEST_MAX_LEN - copy_len) 0, db_len = copy_len\<rparr>)"

text \<open>\<open>Md4::digest_with_seed\<close> appends a non-zero seed; \<open>Md5::with_seed\<close> puts it first, or leaves it
  pending for \<open>finalize\<close> in the legacy order.\<close>

definition md4_digest_with_seed :: "hash_crates \<Rightarrow> i32 \<Rightarrow> bytes \<Rightarrow> bytes" where
  "md4_digest_with_seed H seed data =
    md4_hash H (if seed \<noteq> 0 then data @ le_bytes 4 seed else data)"

record Md5Hasher =
  m5_fed :: bytes
  m5_pending_seed :: "i32 option"

definition md5_with_seed :: "Md5Seed \<Rightarrow> Md5Hasher" where
  "md5_with_seed seed =
    (case seed_value seed of
       Some value \<Rightarrow>
         if value \<noteq> 0
         then if proper_order seed
              then \<lparr>m5_fed = le_bytes 4 value, m5_pending_seed = None\<rparr>
              else \<lparr>m5_fed = [], m5_pending_seed = Some value\<rparr>
         else \<lparr>m5_fed = [], m5_pending_seed = None\<rparr>
     | None \<Rightarrow> \<lparr>m5_fed = [], m5_pending_seed = None\<rparr>)"

definition md5_update :: "Md5Hasher \<Rightarrow> bytes \<Rightarrow> Md5Hasher" where
  "md5_update h data = h\<lparr>m5_fed := m5_fed h @ data\<rparr>"

definition md5_finalize :: "hash_crates \<Rightarrow> Md5Hasher \<Rightarrow> bytes" where
  "md5_finalize H h =
    (let h = (case m5_pending_seed h of Some seed \<Rightarrow> md5_update h (le_bytes 4 seed) | None \<Rightarrow> h)
     in md5_hash H (m5_fed h))"

definition compute_truncated :: "hash_crates \<Rightarrow> SignatureAlgorithm \<Rightarrow> bytes \<Rightarrow> nat \<Rightarrow> DigestBuf" where
  "compute_truncated H alg data len =
    (let effective_len = min (min len (digest_len alg)) DIGEST_MAX_LEN
     in case alg of
          Md4 \<Rightarrow> from_slice (md4_hash H data) effective_len
        | Md4Seeded seed \<Rightarrow> from_slice (md4_digest_with_seed H seed data) effective_len
        | Md5 seed_config \<Rightarrow>
            from_slice (md5_finalize H (md5_update (md5_with_seed seed_config) data)) effective_len
        | Sha1 \<Rightarrow> from_slice (sha1_hash H data) effective_len
        | Xxh64 seed \<Rightarrow> from_slice (le_bytes 8 (xxh64_hash H seed data)) effective_len
        | Xxh3 seed \<Rightarrow> from_slice (le_bytes 8 (xxh3_64_hash H seed data)) effective_len
        | Xxh3_128 seed \<Rightarrow> from_slice (le_bytes 16 (xxh3_128_hash H seed data)) effective_len)"

definition compute_truncated_batch ::
  "hash_crates \<Rightarrow> SignatureAlgorithm \<Rightarrow> bytes list \<Rightarrow> nat \<Rightarrow> DigestBuf list" where
  "compute_truncated_batch H alg blocks len =
    (let effective_len = min (min len (digest_len alg)) DIGEST_MAX_LEN
     in if alg = Md4 then map (\<lambda>d. from_slice d effective_len) (md4_digest_batch H blocks)
        else case alg of
          Md5 seed_config \<Rightarrow>
            if seed_value seed_config = None
            then map (\<lambda>d. from_slice d effective_len) (md5_digest_batch H blocks)
            else map (\<lambda>data. compute_truncated H alg data len) blocks
        | _ \<Rightarrow> map (\<lambda>data. compute_truncated H alg data len) blocks)"

definition compute_truncated_slices ::
  "hash_crates \<Rightarrow> SignatureAlgorithm \<Rightarrow> bytes \<Rightarrow> bytes \<Rightarrow> nat \<Rightarrow> DigestBuf" where
  "compute_truncated_slices H alg a b len =
    (if b = [] then compute_truncated H alg a len
     else let effective_len = min (min len (digest_len alg)) DIGEST_MAX_LEN
       in case alg of
          Md4 \<Rightarrow> from_slice (md4_hash H (a @ b)) effective_len
        | Md4Seeded seed \<Rightarrow>
            from_slice (md4_hash H (a @ b @ (if seed \<noteq> 0 then le_bytes 4 seed else []))) effective_len
        | Md5 seed_config \<Rightarrow>
            from_slice (md5_finalize H (md5_update (md5_update (md5_with_seed seed_config) a) b)) effective_len
        | Sha1 \<Rightarrow> from_slice (sha1_hash H (a @ b)) effective_len
        | Xxh64 seed \<Rightarrow> from_slice (le_bytes 8 (xxh64_hash H seed (a @ b))) effective_len
        | Xxh3 seed \<Rightarrow> from_slice (le_bytes 8 (xxh3_64_hash H seed (a @ b))) effective_len
        | Xxh3_128 seed \<Rightarrow> from_slice (le_bytes 16 (xxh3_128_hash H seed (a @ b))) effective_len)"

section \<open>Block layout\<close>

definition BLOCK_SIZE :: u32 where "BLOCK_SIZE = 700"
definition MAX_BLOCK_SIZE :: u32 where "MAX_BLOCK_SIZE = push_bit 17 1"
definition OLD_MAX_BLOCK_SIZE :: u32 where "OLD_MAX_BLOCK_SIZE = push_bit 29 1"
definition BLOCKSUM_BIAS :: int where "BLOCKSUM_BIAS = 10"
definition SUM_LENGTH :: nat where "SUM_LENGTH = 16"

record SignatureLayoutParams =
  slp_file_length :: u64
  slp_forced_block_length :: "u32 option"
  slp_protocol :: nat
  slp_checksum_length :: nat
  slp_transfer_digest_length :: nat

definition layout_params_new :: "u64 \<Rightarrow> u32 option \<Rightarrow> nat \<Rightarrow> nat \<Rightarrow> SignatureLayoutParams" where
  "layout_params_new file_length forced protocol checksum_length =
    \<lparr>slp_file_length = file_length, slp_forced_block_length = forced, slp_protocol = protocol,
     slp_checksum_length = checksum_length, slp_transfer_digest_length = SUM_LENGTH\<rparr>"

record SignatureLayout =
  sl_block_length :: u32
  sl_remainder :: u32
  sl_block_count :: u64
  sl_strong_sum_length :: nat

definition file_size :: "SignatureLayout \<Rightarrow> u64" where
  "file_size l =
    (if sl_block_count l = 0 then 0
     else let block_len = ucast (sl_block_length l)
          in if sl_remainder l = 0 then sl_block_count l * block_len
             else (sl_block_count l - 1) * block_len + ucast (sl_remainder l))"

datatype SignatureLayoutError = FileTooLarge u64 | BlockCountOverflow u32 u64

text \<open>The three loops of the sizing heuristics.  \<open>sqrt_start\<close>: \<open>while l >> 2 != 0\<close>, doubling \<open>c\<close>.\<close>

lemma unat_drop_bit_less: "(l :: 'a::len word) \<noteq> 0 \<Longrightarrow> 0 < n \<Longrightarrow> unat (drop_bit n l) < unat l"
proof -
  assume a: "l \<noteq> 0" "0 < n"
  then have "0 < unat l" by (simp add: unat_gt_0)
  moreover have "(1::nat) < 2 ^ n" using a by (intro one_less_power) auto
  ultimately have "unat l div 2 ^ n < unat l" by (rule div_less_dividend [rotated])
  then show ?thesis by (simp only: unat_drop_bit_eq) (simp only: drop_bit_eq_div)
qed

lemma drop_bit_neq_0: "drop_bit n l \<noteq> 0 \<Longrightarrow> l \<noteq> (0 :: 'a::len word)"
  by auto

function sqrt_start :: "u64 \<Rightarrow> u64 \<Rightarrow> u64" where
  "sqrt_start c l = (if drop_bit 2 l \<noteq> 0 then sqrt_start (push_bit 1 c) (drop_bit 2 l) else c)"
  by pat_completeness auto
termination by (relation "measure (\<lambda>(c, l). unat l)") (auto intro!: unat_drop_bit_less dest: drop_bit_neq_0)

text \<open>\<open>while current >= 8\<close>: set the bit, and clear it again if the square exceeds the length.  The
  products are 128 bits wide and cannot overflow there.\<close>

function sqrt_search :: "u64 \<Rightarrow> u64 \<Rightarrow> u64 \<Rightarrow> u64" where
  "sqrt_search len current bl =
    (if 8 \<le> current
     then let bl = bl OR current;
              candidate = (ucast bl :: 128 word);
              bl = (if ucast len < candidate * candidate then bl AND NOT current else bl)
          in sqrt_search len (drop_bit 1 current) bl
     else bl)"
  by pat_completeness auto
termination
  by (relation "measure (\<lambda>(len, current, bl). unat current)")
     (auto intro!: unat_drop_bit_less simp del: drop_bit_Suc)

function bias_up :: "u64 \<Rightarrow> int \<Rightarrow> int" where
  "bias_up l bias = (if drop_bit 1 l \<noteq> 0 then bias_up (drop_bit 1 l) (bias + 2) else bias)"
  by pat_completeness auto
termination by (relation "measure (\<lambda>(l, bias). unat l)") (auto intro!: unat_drop_bit_less dest: drop_bit_neq_0)

function bias_down :: "u32 \<Rightarrow> int \<Rightarrow> int" where
  "bias_down current bias =
    (if drop_bit 1 current \<noteq> 0 \<and> 0 < bias then bias_down (drop_bit 1 current) (bias - 1) else bias)"
  by pat_completeness auto
termination by (relation "measure (\<lambda>(current, bias). unat current)") (auto intro!: unat_drop_bit_less dest: drop_bit_neq_0)

declare sqrt_start.simps [simp del] sqrt_search.simps [simp del] bias_up.simps [simp del] bias_down.simps [simp del]

definition derive_block_length :: "u64 \<Rightarrow> nat \<Rightarrow> u32" where
  "derive_block_length file_length protocol =
    (if file_length \<le> ucast BLOCK_SIZE * ucast BLOCK_SIZE then BLOCK_SIZE
     else
       let max_block_length = (if protocol < 30 then OLD_MAX_BLOCK_SIZE else MAX_BLOCK_SIZE);
           c = sqrt_start 1 file_length
       in if ucast max_block_length \<le> c then max_block_length
          else ucast (max (sqrt_search file_length c 0) (ucast BLOCK_SIZE)))"

text \<open>Rust's integer division rounds towards zero.\<close>

definition rust_div :: "int \<Rightarrow> int \<Rightarrow> int" where
  "rust_div a b = sgn a * sgn b * (\<bar>a\<bar> div \<bar>b\<bar>)"

definition derive_strong_sum_length :: "u64 \<Rightarrow> u32 \<Rightarrow> nat \<Rightarrow> nat \<Rightarrow> nat \<Rightarrow> nat" where
  "derive_strong_sum_length file_length block_length protocol checksum_length transfer_digest_length =
    (if protocol < 27 then checksum_length
     else let max_s2length = int (min SUM_LENGTH transfer_digest_length)
     in if checksum_length = SUM_LENGTH then nat max_s2length
     else
       let bias = bias_up file_length BLOCKSUM_BIAS;
           bias = bias_down block_length bias;
           strong_len = rust_div (bias + 1 - 32 + 7) 8;
           min_len = int checksum_length;
           strong_len = (if strong_len < min_len then min_len else strong_len);
           strong_len = (if max_s2length < strong_len then max_s2length else strong_len)
       in nat strong_len)"

definition calculate_signature_layout ::
  "SignatureLayoutParams \<Rightarrow> SignatureLayoutError + SignatureLayout" where
  "calculate_signature_layout params =
    (if 0x7FFFFFFFFFFFFFFF < slp_file_length params then Inl (FileTooLarge (slp_file_length params))
     else
       let bl = (case slp_forced_block_length params of
                   Some len \<Rightarrow> len
                 | None \<Rightarrow> derive_block_length (slp_file_length params) (slp_protocol params));
           max_block = (if slp_protocol params < 30 then OLD_MAX_BLOCK_SIZE else MAX_BLOCK_SIZE);
           bl = (if max_block < bl then max_block else bl);
           count = slp_file_length params div ucast bl;
           rem = ucast (slp_file_length params mod ucast bl);
           count = (if rem \<noteq> 0 then count + 1 else count)
       in if 0x7FFFFFFF < count then Inl (BlockCountOverflow bl count)
          else Inr \<lparr>sl_block_length = bl, sl_remainder = rem, sl_block_count = count,
                    sl_strong_sum_length = derive_strong_sum_length (slp_file_length params) bl
                      (slp_protocol params) (slp_checksum_length params) (slp_transfer_digest_length params)\<rparr>)"

text \<open>The standalone copy of the heuristics in \<open>block_size.rs\<close>.\<close>

definition derive_block_length_sqrt :: "u64 \<Rightarrow> nat \<Rightarrow> u32" where
  "derive_block_length_sqrt fsize version =
    (if fsize \<le> 700 * 700 then 700
     else
       let max_block_length = (if version < 30 then push_bit 29 1 else push_bit 17 (1::u32));
           c = sqrt_start 1 fsize
       in if ucast max_block_length \<le> c then max_block_length
          else ucast (max (sqrt_search fsize c 0) 700))"

definition calculate_block_length :: "u64 \<Rightarrow> nat \<Rightarrow> u32 option \<Rightarrow> u32" where
  "calculate_block_length fsize version user_block_size =
    (let bl = (case user_block_size of Some user_size \<Rightarrow> user_size
               | None \<Rightarrow> derive_block_length_sqrt fsize version);
         max_block = (if version < 30 then push_bit 29 1 else push_bit 17 (1::u32))
     in min bl max_block)"

definition calculate_checksum_count :: "u64 \<Rightarrow> u32 \<Rightarrow> u64" where
  "calculate_checksum_count fsize bl =
    (if fsize = 0 then 0
     else let block_len = ucast bl; full_blocks = fsize div block_len; rem = fsize mod block_len
          in if rem = 0 then full_blocks else full_blocks + 1)"

section \<open>Signatures\<close>

record SignatureBlock =
  sb_index :: u64
  sb_rolling :: RollingDigest
  sb_strong :: DigestBuf

definition sb_len :: "SignatureBlock \<Rightarrow> nat" where
  "sb_len b = rd_len (sb_rolling b)"

record FileSignature =
  fs_layout :: SignatureLayout
  fs_blocks :: "SignatureBlock list"
  fs_total_bytes :: nat

datatype SignatureError =
    Sig_Io io_error
  | DigestLengthMismatch SignatureAlgorithm nat
  | TrailingData nat
  | Sig_panic

definition BATCH_SIZE :: nat where "BATCH_SIZE = 16"

text \<open>The inner loop: read the blocks \<open>index\<close>, \<open>index + 1\<close>, ... of one batch.  A block longer than
  the buffer is the slice panic.\<close>

fun read_batch :: "SignatureLayout \<Rightarrow> nat \<Rightarrow> nat \<Rightarrow> bytes \<Rightarrow> SignatureError + bytes list \<times> bytes" where
  "read_batch layout block_index 0 s = Inr ([], s)"
| "read_batch layout block_index (Suc n) s =
    (let is_last = (block_index + 1 = unat (sl_block_count layout));
         target_len = (if is_last \<and> sl_remainder layout \<noteq> 0 then unat (sl_remainder layout)
                       else unat (sl_block_length layout))
     in if max (unat (sl_block_length layout)) 1 < target_len then Inl Sig_panic
        else case read_exact target_len s of
          Inl e \<Rightarrow> Inl (Sig_Io e)
        | Inr (chunk, s) \<Rightarrow>
            bindE (read_batch layout (block_index + 1) n s) (\<lambda>(chunks, s). Inr (chunk # chunks, s)))"

fun mk_blocks :: "nat \<Rightarrow> RollingDigest list \<Rightarrow> DigestBuf list \<Rightarrow> SignatureBlock list" where
  "mk_blocks index (rolling # rs) (strong # ss) =
    \<lparr>sb_index = of_nat index, sb_rolling = rolling, sb_strong = strong\<rparr> # mk_blocks (index + 1) rs ss"
| "mk_blocks index _ _ = []"

function sig_loop ::
  "target_arch \<Rightarrow> hash_crates \<Rightarrow> SignatureAlgorithm \<Rightarrow> SignatureLayout \<Rightarrow> nat \<Rightarrow> nat \<Rightarrow>
   SignatureBlock list \<Rightarrow> nat \<Rightarrow> bytes \<Rightarrow> SignatureError + SignatureBlock list \<times> nat \<times> bytes" where
  "sig_loop arch H alg layout batch_capacity index blocks total_bytes s =
    (if index < unat (sl_block_count layout) \<and> 0 < batch_capacity
     then
       let batch_end = min (index + batch_capacity) (unat (sl_block_count layout));
           batch_count = batch_end - index
       in bindE (read_batch layout index batch_count s) (\<lambda>(chunks, s).
            let total_bytes = foldl (\<lambda>t c. min (t + length c) (2 ^ 64 - 1)) total_bytes chunks;
                rolling = map (rd_from_bytes arch) chunks;
                strong = compute_truncated_batch H alg chunks (sl_strong_sum_length layout)
            in sig_loop arch H alg layout batch_capacity batch_end
                 (blocks @ mk_blocks index rolling strong) total_bytes s)
     else Inr (blocks, total_bytes, s))"
  by pat_completeness auto
termination
  by (relation "measure (\<lambda>(arch, H, alg, layout, bc, index, blocks, total_bytes, s). unat (sl_block_count layout) - index)") auto

declare sig_loop.simps [simp del]

definition generate_file_signature ::
  "target_arch \<Rightarrow> hash_crates \<Rightarrow> bytes \<Rightarrow> SignatureLayout \<Rightarrow> SignatureAlgorithm \<Rightarrow> SignatureError + FileSignature" where
  "generate_file_signature arch H reader layout alg =
    (let strong_len = sl_strong_sum_length layout
     in if digest_len alg < strong_len then Inl (DigestLengthMismatch alg strong_len)
        else
          let batch_capacity = max (min BATCH_SIZE (unat (sl_block_count layout))) 1
          in bindE (sig_loop arch H alg layout batch_capacity 0 [] 0 reader) (\<lambda>(blocks, total_bytes, s).
               if s \<noteq> [] then Inl (TrailingData 1)
               else Inr \<lparr>fs_layout = layout, fs_blocks = blocks, fs_total_bytes = total_bytes\<rparr>))"

section \<open>The block length\<close>

lemma power_2_word: "push_bit k 1 = (2 ^ k :: 'a::len word)"
  by (simp add: push_bit_eq_mult)

lemma sqrt_start_pow:
  assumes "l \<noteq> 0" "c = push_bit k 1"
  shows "\<exists>m. sqrt_start c l = push_bit (k + m) 1 \<and> 4 ^ m \<le> unat l \<and> unat l < 4 ^ Suc m"
  using assms
proof (induction c l arbitrary: k rule: sqrt_start.induct)
  case (1 c l)
  have d: "unat (drop_bit 2 l) = unat l div 4"
    by (simp only: unat_drop_bit_eq) (simp add: drop_bit_eq_div)
  show ?case
  proof (cases "drop_bit 2 l = 0")
    case True
    then have "unat l div 4 = 0" using d by simp
    then have "unat l < 4" by simp
    moreover have "1 \<le> unat l" using 1(2) by (simp add: unat_gt_0 Suc_le_eq)
    ultimately show ?thesis using True 1(3) by (intro exI [of _ 0]) (simp add: sqrt_start.simps)
  next
    case False
    have "push_bit 1 c = push_bit (Suc k) 1" using 1(3) by (simp add: push_bit_push_bit)
    from 1(1) [OF False False this] obtain m where
      m: "sqrt_start (push_bit 1 c) (drop_bit 2 l) = push_bit (Suc k + m) 1"
      "4 ^ m \<le> unat (drop_bit 2 l)" "unat (drop_bit 2 l) < 4 ^ Suc m" by blast
    have "4 ^ Suc m \<le> unat l" "unat l < 4 ^ Suc (Suc m)"
      using m(2,3) unfolding d by (simp_all add: less_eq_div_iff_mult_less_eq div_less_iff_less_mult mult.commute)
    then show ?thesis using m(1) False
      by (intro exI [of _ "Suc m"]) (simp add: sqrt_start.simps [of c l])
  qed
qed

lemma or_new_bit:
  assumes "2 ^ Suc j dvd unat (b :: 'a::len word)" "j < LENGTH('a)"
  shows "unat (b OR push_bit j 1) = unat b + 2 ^ j"
    and "(b OR push_bit j 1) AND NOT (push_bit j 1) = b"
proof -
  have nb: "\<not> bit b i" if "i \<le> j" for i
  proof -
    have "take_bit (Suc j) (unat b) = 0" using assms(1) by (simp add: take_bit_eq_mod dvd_eq_mod_eq_0)
    then have "\<not> bit (take_bit (Suc j) (unat b)) i" by simp
    then show ?thesis using that by (simp add: bit_take_bit_iff bit_unsigned_iff)
  qed
  have "unat b AND 2 ^ j = 0"
    using nb [of j] by (intro bit_eqI) (auto simp: bit_simps)
  then have "unat b OR 2 ^ j = unat b + 2 ^ j"
    by (simp add: disjunctive_add_eq_or)
  moreover have "unat (b OR push_bit j 1) = unat b OR 2 ^ j"
    using assms(2) by (simp add: unsigned_or_eq power_2_word unat_power_2)
  ultimately show "unat (b OR push_bit j 1) = unat b + 2 ^ j" by simp
  show "(b OR push_bit j 1) AND NOT (push_bit j 1) = b"
    using nb by (intro bit_word_eqI) (auto simp: bit_simps)
qed

lemma square_128:
  assumes "unat (b :: u64) < 2 ^ 33"
  shows "(ucast len :: 128 word) < ucast b * ucast b \<longleftrightarrow> unat (len :: u64) < unat b * unat b"
proof -
  have "unat b * unat b < 2 ^ 33 * 2 ^ 33" using assms by (intro mult_strict_mono) auto
  then have "unat (ucast b * ucast b :: 128 word) = unat b * unat b"
    by (simp add: unat_word_ariths(2) unsigned_ucast_eq take_bit_nat_eq_self unat_lt2p [THEN less_trans])
  moreover have "unat (ucast len :: 128 word) = unat len"
    using unat_lt2p [of len] by (simp add: unsigned_ucast_eq take_bit_nat_eq_self)
  ultimately show ?thesis by (simp add: word_less_nat_alt)
qed

lemma sqrt_search_bound:
  assumes "j \<le> 31" "2 \<le> j" "current = push_bit j 1" "2 ^ Suc j dvd unat bl" "unat bl + 2 ^ Suc j \<le> 2 ^ 33"
    "(unat bl)\<^sup>2 \<le> unat len" "unat len < (unat bl + 2 ^ Suc j)\<^sup>2"
  shows "let r = unat (sqrt_search len current bl) in
    8 dvd r \<and> r\<^sup>2 \<le> unat len \<and> unat len < (r + 8)\<^sup>2 \<and> r < unat bl + 2 ^ Suc j"
  using assms
proof (induction j arbitrary: bl current)
  case (Suc j)
  show ?case
  proof (cases "j = 1")
    case True
    then have "current = 4" using Suc.prems by simp
    then show ?thesis using Suc.prems True by (simp add: sqrt_search.simps Let_def)
  next
    case False
    let ?b = "bl OR current"
    have j: "2 \<le> j" using False Suc.prems by simp
    have b: "unat ?b = unat bl + 2 ^ Suc j" "?b AND NOT current = bl"
      using or_new_bit [OF Suc.prems(4)] Suc.prems by auto
    have "(8::nat) \<le> 2 ^ Suc j" using power_increasing [of 3 "Suc j" "2::nat"] j by simp
    then have cur: "8 \<le> current"
      using unat_power_2 [of "Suc j", where ?'a = 64] Suc.prems(1,3)
      by (simp add: word_le_nat_alt power_2_word del: power_Suc)
    have next_cur: "drop_bit 1 current = push_bit j 1"
      using Suc.prems by (intro bit_word_eqI) (auto simp: bit_simps)
    have "unat bl + 2 ^ Suc j < 2 ^ 33"
      using Suc.prems(5) one_le_power [of "2::nat" j] unfolding power_Suc by linarith
    then have sq: "(ucast len :: 128 word) < ucast ?b * ucast ?b \<longleftrightarrow> unat len < (unat bl + 2 ^ Suc j)\<^sup>2"
      using square_128 [of ?b len] b(1) by (simp add: power2_eq_square)
    have dvd: "2 ^ Suc j dvd unat bl" using Suc.prems(4) by (rule dvd_trans [rotated]) simp
    show ?thesis
    proof (cases "unat len < (unat bl + 2 ^ Suc j)\<^sup>2")
      case True
      have "sqrt_search len current bl = sqrt_search len (push_bit j 1) bl"
        using cur sq True b(2) next_cur by (subst sqrt_search.simps) (simp add: Let_def)
      then show ?thesis
        using Suc.IH [of "push_bit j 1" bl] Suc.prems True j dvd by (auto simp: Let_def)
    next
      case False
      have "sqrt_search len current bl = sqrt_search len (push_bit j 1) ?b"
        using cur sq False next_cur by (subst sqrt_search.simps) (simp add: Let_def)
      then show ?thesis
        using Suc.IH [of "push_bit j 1" ?b] Suc.prems False j dvd b(1) by (auto simp: Let_def add.commute)
    qed
  qed
qed simp

lemma square_power_2: "((2::nat) ^ n)\<^sup>2 = 4 ^ n"
  by (simp add: power2_eq_square flip: power_mult_distrib)

lemma derive_block_length_eq: "derive_block_length = derive_block_length_sqrt"
  by (intro ext) (simp add: derive_block_length_def derive_block_length_sqrt_def BLOCK_SIZE_def
      OLD_MAX_BLOCK_SIZE_def MAX_BLOCK_SIZE_def Let_def)

definition max_block_for :: "nat \<Rightarrow> nat" where
  "max_block_for protocol = (if protocol < 30 then 2 ^ 29 else 2 ^ 17)"

lemma square_less_cancel: "(a :: nat)\<^sup>2 \<le> n \<Longrightarrow> n < (b + 1)\<^sup>2 \<Longrightarrow> a \<le> b"
  by (metis le_less_trans less_Suc_eq_le power2_less_imp_less Suc_eq_plus1 zero_le)

lemma rounded_root_unique:
  assumes "8 dvd (q :: nat)" "q\<^sup>2 \<le> n" "n < (q + 8)\<^sup>2" "r\<^sup>2 \<le> n" "n < (r + 1)\<^sup>2"
  shows "q = 8 * (r div 8)"
proof -
  have "q \<le> r" "r \<le> q + 7" using assms square_less_cancel [of q n r] square_less_cancel [of r n "q + 7"] by (simp_all add: add.commute)
  with assms(1) show ?thesis by (auto simp: dvd_def)
qed

text \<open>The start of the search is the highest power of two below the root.\<close>

lemma sqrt_start_bounds:
  assumes "490000 < unat len"
  obtains m where "9 \<le> m" "m < 32" "sqrt_start 1 len = push_bit m 1" "unat (sqrt_start 1 len) = 2 ^ m"
    "4 ^ m \<le> unat len" "unat len < 4 ^ Suc m"
proof -
  have "len \<noteq> 0" using assms by auto
  then obtain m where m: "sqrt_start 1 len = push_bit m 1" "4 ^ m \<le> unat len" "unat len < 4 ^ Suc m"
    using sqrt_start_pow [of len 1 0] by auto
  have "m < 32"
  proof (rule ccontr)
    assume "\<not> m < 32"
    then have "(4::nat) ^ 32 \<le> 4 ^ m" by (intro power_increasing) auto
    with m(2) unat_lt2p [of len] show False by simp
  qed
  moreover have "9 \<le> m"
  proof (rule ccontr)
    assume "\<not> 9 \<le> m"
    then have "(4::nat) ^ Suc m \<le> 4 ^ 9" by (intro power_increasing) auto
    with m(3) assms show False by simp
  qed
  ultimately show ?thesis using that [of m] m by (simp add: power_2_word unat_power_2)
qed

lemma sqrt_search_root:
  assumes "9 \<le> m" "m < 32" "sqrt_start 1 len = push_bit m 1" "unat len < 4 ^ Suc m" "r\<^sup>2 \<le> unat len" "unat len < (r + 1)\<^sup>2"
  shows "unat (sqrt_search len (sqrt_start 1 len) 0) = 8 * (r div 8)" "8 * (r div 8) < 2 ^ Suc m"
proof -
  let ?q = "unat (sqrt_search len (sqrt_start 1 len) 0)"
  have m33: "(2::nat) ^ Suc m \<le> 2 ^ 33" using assms(2) by (intro power_increasing) auto
  have "let q = ?q in 8 dvd q \<and> q\<^sup>2 \<le> unat len \<and> unat len < (q + 8)\<^sup>2 \<and> q < unat (0::u64) + 2 ^ Suc m"
    using assms(1,2,4) m33
    by (intro sqrt_search_bound [of m]) (simp_all only: assms(3) unsigned_0 dvd_0_right add_0 square_power_2, simp_all)
  then have q: "8 dvd ?q" "?q\<^sup>2 \<le> unat len" "unat len < (?q + 8)\<^sup>2" "?q < 2 ^ Suc m"
    unfolding Let_def unsigned_0 add_0 by blast+
  then show "?q = 8 * (r div 8)" using rounded_root_unique assms(5,6) by blast
  with q(4) show "8 * (r div 8) < 2 ^ Suc m" by simp
qed

lemma derive_block_length_exact:
  assumes r: "r\<^sup>2 \<le> unat len" "unat len < (r + 1)\<^sup>2"
  shows "unat (derive_block_length len protocol) = max 700 (min (max_block_for protocol) (8 * (r div 8)))"
proof (cases "unat len \<le> 490000")
  case True
  then have "derive_block_length len protocol = 700"
    by (simp add: derive_block_length_def BLOCK_SIZE_def word_le_nat_alt)
  moreover have "r \<le> 700" using square_less_cancel [of r "unat len" 700] r(1) True by simp
  ultimately show ?thesis by simp
next
  case False
  let ?mx = "if protocol < 30 then OLD_MAX_BLOCK_SIZE else MAX_BLOCK_SIZE"
  define e :: nat where "e = (if protocol < 30 then 29 else 17)"
  then have e: "max_block_for protocol = 2 ^ e" "10 \<le> e" "e < 32" by (simp_all add: max_block_for_def)
  have mx: "unat ?mx = 2 ^ e" "unat (ucast ?mx :: u64) = 2 ^ e"
    unfolding e(1) [symmetric] by (simp_all add: max_block_for_def OLD_MAX_BLOCK_SIZE_def MAX_BLOCK_SIZE_def)
  have big: "\<not> len \<le> ucast BLOCK_SIZE * ucast BLOCK_SIZE"
    using False by (simp add: BLOCK_SIZE_def word_le_nat_alt)
  obtain m where m: "9 \<le> m" "m < 32" "sqrt_start 1 len = push_bit m 1" "unat (sqrt_start 1 len) = 2 ^ m"
    "4 ^ m \<le> unat len" "unat len < 4 ^ Suc m" using sqrt_start_bounds [of len] False by auto
  have me: "ucast ?mx \<le> sqrt_start 1 len \<longleftrightarrow> e \<le> m" unfolding word_le_nat_alt mx(2) m(4) by simp
  show ?thesis
  proof (cases "e \<le> m")
    case True
    then have "derive_block_length len protocol = ?mx"
      using big me unfolding derive_block_length_def Let_def by (simp only: if_False if_True simp_thms)
    moreover have "(2 ^ e)\<^sup>2 \<le> unat len"
      using m(5) power_increasing [OF True, of "4::nat"] unfolding square_power_2 by linarith
    then have "2 ^ e \<le> r" using square_less_cancel r(2) by blast
    moreover have "(8::nat) dvd 2 ^ e" using le_imp_power_dvd [of 3 e "2::nat"] e(2) by simp
    moreover have "(700::nat) \<le> 2 ^ e" using power_increasing [OF e(2), of "2::nat"] by simp
    ultimately show ?thesis using mx(1) unfolding e(1) by (auto simp: dvd_def)
  next
    case False
    then have "(2::nat) ^ Suc m \<le> 2 ^ e" "(2::nat) ^ e < 2 ^ 32" using e(3) by (intro power_increasing power_strict_increasing; simp)+
    moreover have "derive_block_length len protocol = ucast (max (sqrt_search len (sqrt_start 1 len) 0) (ucast BLOCK_SIZE))"
      using big False me unfolding derive_block_length_def Let_def by (simp only: if_False simp_thms)
    ultimately show ?thesis using sqrt_search_root [OF m(1-3,6) r] unfolding e(1)
      by (auto simp: BLOCK_SIZE_def max_def word_le_nat_alt unsigned_ucast_eq take_bit_nat_eq_self)
  qed
qed

lemma square_root_exists: "\<exists>r. r\<^sup>2 \<le> n \<and> n < (r + 1)\<^sup>2" for n :: nat
proof (induction n)
  case (Suc n)
  then obtain r where r: "r\<^sup>2 \<le> n" "n < (r + 1)\<^sup>2" by blast
  then show ?case
    by (cases "Suc n < (r + 1)\<^sup>2") (auto intro: exI [of _ r] exI [of _ "r + 1"] simp: power2_eq_square)
qed (auto intro: exI [of _ 0])

lemma derive_block_length_bounds:
  "700 \<le> unat (derive_block_length len protocol)"
  "unat (derive_block_length len protocol) \<le> max_block_for protocol"
  using square_root_exists [of "unat len"] by (auto simp: derive_block_length_exact max_block_for_def)

section \<open>Signature generation\<close>

definition layout_fits :: "SignatureLayout \<Rightarrow> nat \<Rightarrow> bool" where
  "layout_fits l n =
    (let b = unat (sl_block_length l); c = unat (sl_block_count l); r = unat (sl_remainder l)
     in 0 < b \<and> r < b \<and> (c = 0 \<longrightarrow> r = 0) \<and> n = (if r = 0 then c * b else (c - 1) * b + r))"

definition block_chunk :: "SignatureLayout \<Rightarrow> bytes \<Rightarrow> nat \<Rightarrow> bytes" where
  "block_chunk l data i = take (unat (sl_block_length l)) (drop (i * unat (sl_block_length l)) data)"

lemma layout_fits_target:
  assumes "layout_fits l (length data)" "i < unat (sl_block_count l)"
  shows "length (block_chunk l data i) =
    (if i + 1 = unat (sl_block_count l) \<and> sl_remainder l \<noteq> 0 then unat (sl_remainder l) else unat (sl_block_length l))"
    and "drop (length (block_chunk l data i)) (drop (i * unat (sl_block_length l)) data) =
      drop (Suc i * unat (sl_block_length l)) data"
    and "length (block_chunk l data i) \<le> unat (sl_block_length l)"
proof -
  let ?b = "unat (sl_block_length l)" and ?c = "unat (sl_block_count l)" and ?r = "unat (sl_remainder l)"
  have f: "0 < ?b" "?r < ?b" "length data = (if ?r = 0 then ?c * ?b else (?c - 1) * ?b + ?r)"
    using assms(1) by (auto simp: layout_fits_def Let_def)
  have r0: "sl_remainder l \<noteq> 0 \<longleftrightarrow> ?r \<noteq> 0" by (simp add: unat_eq_zero)
  have last: "?c - 1 = i" if "i + 1 = ?c" using that by simp
  have full: "Suc i * ?b \<le> length data" if "\<not> (i + 1 = ?c \<and> ?r \<noteq> 0)"
  proof (cases "?r = 0")
    case True
    have "Suc i * ?b \<le> ?c * ?b" using assms(2) by (intro mult_le_mono1) simp
    then show ?thesis using f True by simp
  next
    case False
    then have "Suc i \<le> ?c - 1" using that assms(2) by simp
    then have "Suc i * ?b \<le> (?c - 1) * ?b" by (intro mult_le_mono1)
    then show ?thesis using f False by simp
  qed
  show len: "length (block_chunk l data i) =
    (if i + 1 = ?c \<and> sl_remainder l \<noteq> 0 then ?r else ?b)"
    using full f last by (auto simp: block_chunk_def r0)
  show "length (block_chunk l data i) \<le> ?b" using f by (simp add: len)
  show "drop (length (block_chunk l data i)) (drop (i * ?b) data) = drop (Suc i * ?b) data"
  proof (cases "i + 1 = ?c \<and> ?r \<noteq> 0")
    case True
    then have "length data = i * ?b + ?r" using f last by simp
    moreover from this f(2) have "length data \<le> Suc i * ?b" by simp
    ultimately show ?thesis using True len r0 by (simp only: drop_drop drop_all) (simp add: add.commute)
  next
    case False
    then show ?thesis using len by (auto simp: r0 add.commute)
  qed
qed

lemma read_batch_chunks:
  assumes "layout_fits l (length data)" "i + n \<le> unat (sl_block_count l)"
  shows "read_batch l i n (drop (i * unat (sl_block_length l)) data @ extra) =
    Inr (map (block_chunk l data) [i..<i + n], drop ((i + n) * unat (sl_block_length l)) data @ extra)"
  using assms(2)
proof (induction n arbitrary: i)
  case (Suc n)
  let ?b = "unat (sl_block_length l)"
  let ?t = "if i + 1 = unat (sl_block_count l) \<and> sl_remainder l \<noteq> 0 then unat (sl_remainder l) else ?b"
  have i: "i < unat (sl_block_count l)" using Suc.prems by simp
  note t = layout_fits_target [OF assms(1) i]
  have "drop (i * ?b) data = block_chunk l data i @ drop (Suc i * ?b) data"
  proof -
    have "take (length (block_chunk l data i)) (drop (i * ?b) data) = block_chunk l data i"
      by (simp add: block_chunk_def min_def)
    then show ?thesis using t(2) append_take_drop_id [of "length (block_chunk l data i)" "drop (i * ?b) data"] by metis
  qed
  then have r: "read_exact ?t (drop (i * ?b) data @ extra) = Inr (block_chunk l data i, drop (Suc i * ?b) data @ extra)"
    using t(1) by simp
  have "read_batch l (i + 1) n (drop (Suc i * ?b) data @ extra) =
      Inr (map (block_chunk l data) [Suc i..<i + Suc n], drop ((i + Suc n) * ?b) data @ extra)"
    using Suc.IH [of "Suc i"] Suc.prems by simp
  moreover have "\<not> max ?b 1 < ?t" using t(1,3) by linarith
  ultimately show ?case
    unfolding read_batch.simps Let_def if_not_P [OF \<open>\<not> max ?b 1 < ?t\<close>] r
    by (simp add: upt_conv_Cons del: upt_Suc)
qed simp

definition batch_ok :: "hash_crates \<Rightarrow> bool" where
  "batch_ok H = (\<forall>bs. md4_digest_batch H bs = map (md4_hash H) bs \<and> md5_digest_batch H bs = map (md5_hash H) bs)"

lemma compute_truncated_batch_map:
  "batch_ok H \<Longrightarrow> compute_truncated_batch H alg bs n = map (\<lambda>d. compute_truncated H alg d n) bs"
  by (auto simp: compute_truncated_batch_def compute_truncated_def batch_ok_def Let_def md5_finalize_def
      md5_update_def md5_with_seed_def split: SignatureAlgorithm.splits option.splits)

lemma compute_truncated_slices_append:
  "compute_truncated_slices H alg a b n = compute_truncated H alg (a @ b) n"
  by (auto simp: compute_truncated_slices_def compute_truncated_def Let_def md4_digest_with_seed_def
      md5_update_def split: SignatureAlgorithm.splits)

definition signature_block ::
  "target_arch \<Rightarrow> hash_crates \<Rightarrow> SignatureAlgorithm \<Rightarrow> SignatureLayout \<Rightarrow> bytes \<Rightarrow> nat \<Rightarrow> SignatureBlock" where
  "signature_block arch H alg l data i =
    \<lparr>sb_index = of_nat i, sb_rolling = rd_from_bytes arch (block_chunk l data i),
     sb_strong = compute_truncated H alg (block_chunk l data i) (sl_strong_sum_length l)\<rparr>"

lemma mk_blocks_upt:
  "mk_blocks i (map f [i..<j]) (map g [i..<j]) =
    map (\<lambda>k. \<lparr>sb_index = of_nat k, sb_rolling = f k, sb_strong = g k\<rparr>) [i..<j]"
proof (induction "j - i" arbitrary: i)
  case (Suc n)
  then have "[i..<j] = i # [Suc i..<j]" by (simp add: upt_conv_Cons)
  then show ?case using Suc(1) [of "Suc i"] Suc(2) by simp
qed simp

lemma concat_block_chunks:
  "i \<le> j \<Longrightarrow> concat (map (block_chunk l data) [i..<j]) @ drop (j * unat (sl_block_length l)) data =
    drop (i * unat (sl_block_length l)) data"
proof (induction rule: dec_induct)
  case (step n)
  have "block_chunk l data n @ drop (Suc n * unat (sl_block_length l)) data = drop (n * unat (sl_block_length l)) data"
    by (metis append_take_drop_id block_chunk_def drop_drop mult_Suc)
  with step show ?case by (simp add: upt_Suc_append)
qed simp

lemma foldl_total:
  "t + length (concat cs) \<le> m \<Longrightarrow> foldl (\<lambda>t c. min (t + length c) m) t cs = t + length (concat cs)"
  by (induction cs arbitrary: t) (simp_all add: min_def)

lemma sig_loop_blocks:
  assumes "layout_fits l (length data)" "batch_ok H" "0 < bc" "length data < 2 ^ 64"
    "i \<le> unat (sl_block_count l)" "t + length (drop (i * unat (sl_block_length l)) data) = length data"
  shows "sig_loop arch H alg l bc i blocks t (drop (i * unat (sl_block_length l)) data @ extra) =
    Inr (blocks @ map (signature_block arch H alg l data) [i..<unat (sl_block_count l)], length data, extra)"
  using assms(5,6)
proof (induction "unat (sl_block_count l) - i" arbitrary: i t blocks rule: less_induct)
  case less
  let ?c = "unat (sl_block_count l)" and ?b = "unat (sl_block_length l)"
  show ?case
  proof (cases "i < ?c")
    case False
    have "length data \<le> ?c * ?b" using assms(1)
      by (cases ?c) (auto simp: layout_fits_def Let_def split: if_splits)
    then have "drop (i * ?b) data = []" using False less.prems by simp
    then show ?thesis using False less.prems by (simp add: sig_loop.simps)
  next
    case True
    define j where "j = min (i + bc) ?c"
    have j: "i < j" "j \<le> ?c" using True assms(3) by (auto simp: j_def)
    let ?cs = "map (block_chunk l data) [i..<j]"
    have rb: "read_batch l i (j - i) (drop (i * ?b) data @ extra) = Inr (?cs, drop (j * ?b) data @ extra)"
      using read_batch_chunks [OF assms(1), of i "j - i" extra] j by simp
    have tot: "t + length (concat ?cs) + length (drop (j * ?b) data) = length data"
      using concat_block_chunks [of i j l data] less.prems(2) j
      by (metis add.assoc length_append less_imp_le)
    have f: "foldl (\<lambda>t c. min (t + length c) (2 ^ 64 - 1)) t ?cs = t + length (concat ?cs)"
      using tot assms(4) by (intro foldl_total) simp
    have "blocks @ mk_blocks i (map (rd_from_bytes arch) ?cs) (compute_truncated_batch H alg ?cs (sl_strong_sum_length l)) =
        blocks @ map (signature_block arch H alg l data) [i..<j]"
      using assms(2) by (simp add: compute_truncated_batch_map mk_blocks_upt signature_block_def comp_def)
    then have "sig_loop arch H alg l bc i blocks t (drop (i * ?b) data @ extra) =
        sig_loop arch H alg l bc j (blocks @ map (signature_block arch H alg l data) [i..<j]) (t + length (concat ?cs)) (drop (j * ?b) data @ extra)"
      using True assms(3) f by (subst sig_loop.simps) (simp add: Let_def rb flip: j_def)
    also have "\<dots> = Inr ((blocks @ map (signature_block arch H alg l data) [i..<j]) @ map (signature_block arch H alg l data) [j..<?c], length data, extra)"
      using j tot by (intro less.hyps) auto
    also have "(blocks @ map (signature_block arch H alg l data) [i..<j]) @ map (signature_block arch H alg l data) [j..<?c] = blocks @ map (signature_block arch H alg l data) [i..<?c]"
      using j upt_add_eq_append [of i j "?c - j"] by (simp flip: map_append)
    finally show ?thesis by simp
  qed
qed

lemma generate_file_signature_blocks:
  assumes "layout_fits l (length data)" "batch_ok H" "length data < 2 ^ 64" "sl_strong_sum_length l \<le> digest_len alg"
  shows "generate_file_signature arch H (data @ extra) l alg =
    (if extra \<noteq> [] then Inl (TrailingData 1)
     else Inr \<lparr>fs_layout = l, fs_blocks = map (signature_block arch H alg l data) [0..<unat (sl_block_count l)],
               fs_total_bytes = length data\<rparr>)"
  using sig_loop_blocks [of l data H _ 0 0 arch alg "[]" extra] assms
  by (simp add: generate_file_signature_def Let_def)

lemma calculate_signature_layout_fits:
  assumes "calculate_signature_layout params = Inr l" "slp_forced_block_length params \<noteq> Some 0"
    "derive_block_length (slp_file_length params) (slp_protocol params) \<noteq> 0"
  shows "layout_fits l (unat (slp_file_length params)) \<and> file_size l = slp_file_length params \<and>
    unat (sl_block_length l) \<le> (if slp_protocol params < 30 then 2 ^ 29 else 2 ^ 17) \<and>
    unat (sl_block_count l) < 2 ^ 31"
proof -
  let ?L = "slp_file_length params"
  let ?bl0 = "case slp_forced_block_length params of Some len \<Rightarrow> len
      | None \<Rightarrow> derive_block_length (slp_file_length params) (slp_protocol params)"
  let ?mx = "if slp_protocol params < 30 then OLD_MAX_BLOCK_SIZE else MAX_BLOCK_SIZE"
  define bl where "bl = sl_block_length l"
  let ?B = "ucast bl :: u64"
  have l: "bl = (if ?mx < ?bl0 then ?mx else ?bl0)" "sl_remainder l = ucast (?L mod ?B)"
    "sl_block_count l = (if sl_remainder l \<noteq> 0 then ?L div ?B + 1 else ?L div ?B)"
    "sl_block_count l \<le> 0x7FFFFFFF" "?L \<le> 0x7FFFFFFFFFFFFFFF"
    using assms(1) by (auto simp: calculate_signature_layout_def Let_def bl_def not_less split: if_splits)
  have mx0: "unat ?mx = (if slp_protocol params < 30 then 2 ^ 29 else 2 ^ 17)"
    by (simp add: OLD_MAX_BLOCK_SIZE_def MAX_BLOCK_SIZE_def)
  have mx: "unat bl \<le> (if slp_protocol params < 30 then 2 ^ 29 else 2 ^ 17)"
    unfolding mx0 [symmetric] by (simp add: l(1) not_less word_le_nat_alt)
  have "?mx \<noteq> 0" "?bl0 \<noteq> 0" using mx0 assms(2,3) by (auto split: option.splits if_splits)
  then have bl: "bl \<noteq> 0" by (simp add: l(1))
  have B: "unat ?B = unat bl" by (simp add: unat_ucast_up)
  have pos: "0 < unat bl" using bl by (simp add: unat_gt_0)
  have m: "unat (?L mod ?B) = unat ?L mod unat bl" by (simp add: unat_mod_distrib B)
  moreover have "unat ?L mod unat bl < 2 ^ 32" using pos unat_lt2p [of bl] by (simp add: less_trans [OF mod_less_divisor])
  ultimately have r: "unat (sl_remainder l) = unat ?L mod unat bl"
    by (simp add: l(2) unat_ucast_small)
  then have r0: "sl_remainder l = 0 \<longleftrightarrow> unat ?L mod unat bl = 0" by (simp flip: unat_eq_zero)
  have d: "unat (?L div ?B) = unat ?L div unat bl" by (simp add: unat_div_distrib B)
  have "unat ?L < 2 ^ 63" using l(5) by (simp add: word_le_nat_alt)
  then have "unat ?L div unat bl < 2 ^ 63" using div_le_dividend by (rule le_less_trans [rotated])
  then have c: "unat (sl_block_count l) =
      (if unat ?L mod unat bl \<noteq> 0 then unat ?L div unat bl + 1 else unat ?L div unat bl)"
    using r0 d by (auto simp: l(3) unat_word_ariths(1))
  have fits: "layout_fits l (unat ?L)"
    using pos r c by (auto simp: layout_fits_def Let_def bl_def [symmetric] div_mult_mod_eq)
  have "unat (sl_block_count l) < 2 ^ 31" using l(4) by (simp add: word_le_nat_alt)
  moreover have "file_size l = ?L"
  proof -
    have "?B * (?L div ?B) + ?L mod ?B = ?L" by (rule mult_div_mod_eq)
    moreover have "(ucast (sl_remainder l) :: u64) = ?L mod ?B"
      by (rule word_unat_eq_iff [THEN iffD2]) (simp add: unat_ucast_up r m)
    moreover have "sl_remainder l = 0 \<Longrightarrow> ?L mod ?B = 0" using calculation(2) by simp
    moreover have "sl_block_count l = 0 \<Longrightarrow> ?L = 0"
      using c pos by (auto simp: unat_eq_zero div_eq_0_iff split: if_splits)
    ultimately show ?thesis
      by (auto simp: file_size_def Let_def bl_def [symmetric] l(3) mult.commute split: if_splits)
  qed
  ultimately show ?thesis using fits mx by (simp add: bl_def)
qed


lemma ucast_mod_eq_0: "bl \<noteq> 0 \<Longrightarrow> (ucast (x mod ucast bl :: u64) :: u32) = 0 \<longleftrightarrow> x mod ucast (bl :: u32) = 0"
proof -
  assume "bl \<noteq> 0"
  then have "0 < unat bl" by (simp add: unat_gt_0)
  then have "unat x mod unat bl < 2 ^ 32"
    using unat_lt2p [of bl] by (simp add: less_trans [OF mod_less_divisor])
  then have "unat (ucast (x mod ucast bl :: u64) :: u32) = unat (x mod ucast bl)"
    by (intro unat_ucast_small) (simp add: unat_mod_distrib unat_ucast_up)
  then show ?thesis by (simp flip: unat_eq_zero)
qed

lemma calculate_block_length_layout:
  assumes "calculate_signature_layout params = Inr l" "sl_block_length l \<noteq> 0"
  shows "sl_block_length l = calculate_block_length (slp_file_length params) (slp_protocol params) (slp_forced_block_length params)"
    "sl_block_count l = calculate_checksum_count (slp_file_length params) (sl_block_length l)"
proof -
  show "sl_block_length l = calculate_block_length (slp_file_length params) (slp_protocol params) (slp_forced_block_length params)"
    using assms(1) by (auto simp: calculate_signature_layout_def calculate_block_length_def Let_def min_def
        not_less derive_block_length_eq OLD_MAX_BLOCK_SIZE_def MAX_BLOCK_SIZE_def split: if_splits option.splits)
  let ?L = "slp_file_length params" and ?B = "ucast (sl_block_length l) :: u64"
  have "sl_block_count l = (if (ucast (?L mod ?B) :: u32) \<noteq> 0 then ?L div ?B + 1 else ?L div ?B)"
    using assms(1) by (auto simp: calculate_signature_layout_def Let_def split: if_splits)
  then show "sl_block_count l = calculate_checksum_count ?L (sl_block_length l)"
    using ucast_mod_eq_0 [OF assms(2), of ?L] by (auto simp: calculate_checksum_count_def Let_def)
qed

lemma derive_strong_sum_length_bounds:
  assumes "27 \<le> proto" "1 \<le> csum" "1 \<le> xfer"
  shows "1 \<le> derive_strong_sum_length len bl proto csum xfer \<and>
    derive_strong_sum_length len bl proto csum xfer \<le> min 16 xfer \<and>
    min csum (min 16 xfer) \<le> derive_strong_sum_length len bl proto csum xfer"
  using assms by (auto simp: derive_strong_sum_length_def Let_def SUM_LENGTH_def)

section \<open>Properties\<close>

text \<open>C33: the block length heuristic, exactly: with \<open>r\<close> the integer square root of the file
  length, the block length is \<open>r\<close> rounded down to a multiple of 8, cut to the protocol's maximum (2^29
  bytes before protocol 30 and 2^17 from it on) and raised to 700.  Files up to 490000 bytes are the
  case where the rounded root does not exceed 700.\<close>

theorem block_length_is_rounded_sqrt:
  assumes "r\<^sup>2 \<le> unat len" "unat len < (r + 1)\<^sup>2"
  shows "unat (derive_block_length len proto) =
    max 700 (min (if proto < 30 then 2 ^ 29 else 2 ^ 17) (8 * (r div 8)))"
  using derive_block_length_exact [OF assms, of proto] by (simp only: max_block_for_def)

theorem block_length_is_rounded_sqrt_witness:
  "unat (derive_block_length 10000000 31) = 3160 \<and>
   unat (derive_block_length 20000000000 29) = 141416 \<and> unat (derive_block_length 20000000000 31) = 131072"
  using block_length_is_rounded_sqrt [of 3162 10000000 31]
    block_length_is_rounded_sqrt [of 141421 20000000000 29] block_length_is_rounded_sqrt [of 141421 20000000000 31]
  by simp

text \<open>C31: a computed layout describes the file exactly: its blocks add up to the file length, the
  last block is shorter than the others only by the remainder, the block count fits the wire's 31
  bits, the block length respects the protocol limit and agrees with the standalone
  \<^term>\<open>calculate_block_length\<close>, and from protocol 27 on the strong checksum length stays
  between 1 and the negotiated digest width.\<close>

theorem layout_describes_file:
  assumes "calculate_signature_layout params = Inr l" "slp_forced_block_length params \<noteq> Some 0"
  shows "file_size l = slp_file_length params \<and>
    unat (sl_remainder l) < unat (sl_block_length l) \<and> unat (sl_block_count l) < 2 ^ 31 \<and>
    unat (sl_block_length l) \<le> (if slp_protocol params < 30 then 2 ^ 29 else 2 ^ 17) \<and>
    sl_block_length l = calculate_block_length (slp_file_length params) (slp_protocol params) (slp_forced_block_length params) \<and>
    sl_block_count l = calculate_checksum_count (slp_file_length params) (sl_block_length l) \<and>
    (27 \<le> slp_protocol params \<longrightarrow> 1 \<le> slp_checksum_length params \<longrightarrow> 1 \<le> slp_transfer_digest_length params \<longrightarrow>
      1 \<le> sl_strong_sum_length l \<and> sl_strong_sum_length l \<le> min 16 (slp_transfer_digest_length params))"
proof -
  have "derive_block_length (slp_file_length params) (slp_protocol params) \<noteq> 0"
    using derive_block_length_bounds(1) [of "slp_file_length params" "slp_protocol params"] by auto
  from calculate_signature_layout_fits [OF assms this]
  have f: "layout_fits l (unat (slp_file_length params))" "file_size l = slp_file_length params"
    "unat (sl_block_length l) \<le> (if slp_protocol params < 30 then 2 ^ 29 else 2 ^ 17)"
    "unat (sl_block_count l) < 2 ^ 31" by blast+
  then have r: "unat (sl_remainder l) < unat (sl_block_length l)" "sl_block_length l \<noteq> 0"
    by (auto simp: layout_fits_def Let_def)
  have s: "sl_strong_sum_length l = derive_strong_sum_length (slp_file_length params) (sl_block_length l)
      (slp_protocol params) (slp_checksum_length params) (slp_transfer_digest_length params)"
    using assms(1) by (auto simp: calculate_signature_layout_def Let_def split: if_splits)
  show ?thesis
    using f r calculate_block_length_layout [OF assms(1) r(2)] derive_strong_sum_length_bounds
    unfolding s by blast
qed

theorem layout_describes_file_witness:
  "\<exists>l. calculate_signature_layout (layout_params_new 1500 None 31 2) = Inr l \<and> file_size l = 1500 \<and>
    sl_block_count l = 3 \<and> sl_remainder l = 100"
proof -
  have c: "calculate_signature_layout (layout_params_new 1500 None 31 2) =
      Inr \<lparr>sl_block_length = 700, sl_remainder = 100, sl_block_count = 3, sl_strong_sum_length = 2\<rparr>"
    by code_simp
  show ?thesis
    using layout_describes_file [OF c] c by (simp add: layout_params_new_def)
qed

text \<open>C32: signature generation, which reads and hashes in batches of 16 blocks, produces exactly
  one entry per block of the file, in order, with the rolling and the truncated strong checksum
  of that block; a byte beyond the layout is reported as trailing data.  The batch digests
  of the hash library are assumed to be the single digests of their inputs.\<close>

theorem generated_signature_blocks:
  assumes "calculate_signature_layout params = Inr l" "slp_forced_block_length params \<noteq> Some 0"
    "length data = unat (slp_file_length params)" "sl_strong_sum_length l \<le> digest_len alg"
    "\<And>bs. md4_digest_batch H bs = map (md4_hash H) bs" "\<And>bs. md5_digest_batch H bs = map (md5_hash H) bs"
  shows "generate_file_signature arch H data l alg =
      Inr \<lparr>fs_layout = l, fs_blocks = map (signature_block arch H alg l data) [0..<unat (sl_block_count l)],
           fs_total_bytes = length data\<rparr> \<and>
    concat (map (block_chunk l data) [0..<unat (sl_block_count l)]) = data \<and>
    generate_file_signature arch H (data @ [x]) l alg = Inl (TrailingData 1)"
proof -
  have "derive_block_length (slp_file_length params) (slp_protocol params) \<noteq> 0"
    using derive_block_length_bounds(1) [of "slp_file_length params" "slp_protocol params"] by auto
  from calculate_signature_layout_fits [OF assms(1,2) this]
  have f: "layout_fits l (length data)" using assms(3) by simp
  have len: "length data < 2 ^ 64" using assms(3) unat_lt2p [of "slp_file_length params"] by simp
  have "length data \<le> unat (sl_block_count l) * unat (sl_block_length l)" using f
    by (cases "unat (sl_block_count l)") (auto simp: layout_fits_def Let_def split: if_splits)
  then have "concat (map (block_chunk l data) [0..<unat (sl_block_count l)]) = data"
    using concat_block_chunks [of 0 "unat (sl_block_count l)" l data] by simp
  moreover have "batch_ok H" using assms(5,6) by (simp add: batch_ok_def)
  ultimately show ?thesis
    using generate_file_signature_blocks [OF f _ len assms(4), of H arch "[]"]
      generate_file_signature_blocks [OF f _ len assms(4), of H arch "[x]"] by simp
qed

definition toy_hash :: "bytes \<Rightarrow> bytes" where
  "toy_hash data = take 16 (data @ replicate 16 0)"

definition toy_crates :: hash_crates where
  "toy_crates = \<lparr>md4_hash = toy_hash, md5_hash = toy_hash, sha1_hash = toy_hash,
    xxh64_hash = (\<lambda>s d. from_le d), xxh3_64_hash = (\<lambda>s d. from_le d), xxh3_128_hash = (\<lambda>s d. from_le d),
    md4_digest_batch = map toy_hash, md5_digest_batch = map toy_hash\<rparr>"

lemma toy_layout:
  "calculate_signature_layout (layout_params_new 5 (Some 2) 31 2) =
    Inr \<lparr>sl_block_length = 2, sl_remainder = 1, sl_block_count = 3, sl_strong_sum_length = 2\<rparr>"
  by code_simp

theorem generated_signature_blocks_witness:
  "\<exists>sig. generate_file_signature Other_arch toy_crates [1, 2, 3, 4, 5]
      \<lparr>sl_block_length = 2, sl_remainder = 1, sl_block_count = 3, sl_strong_sum_length = 2\<rparr> Md4 = Inr sig \<and>
    length (fs_blocks sig) = 3"
proof -
  let ?p = "layout_params_new 5 (Some 2) 31 2"
  let ?l = "\<lparr>sl_block_length = 2, sl_remainder = 1, sl_block_count = 3, sl_strong_sum_length = 2\<rparr>"
  show ?thesis
    using generated_signature_blocks [of ?p ?l "[1, 2, 3, 4, 5]" Md4 toy_crates Other_arch] toy_layout
    by (simp add: layout_params_new_def digest_len_def toy_crates_def)
qed

definition toy_signature :: FileSignature where
  "toy_signature =
    (let l = \<lparr>sl_block_length = 2, sl_remainder = 1, sl_block_count = 3, sl_strong_sum_length = 2\<rparr>
     in \<lparr>fs_layout = l, fs_blocks = map (signature_block Other_arch toy_crates Md4 l [1, 2, 3, 4, 5]) [0, 1, 2],
         fs_total_bytes = 5\<rparr>)"

lemma rd_from_bytes_rsum: "rd_from_bytes arch xs = rc_digest (rsum xs)"
  by (simp add: rd_from_bytes_def)

lemma rd_len_from_bytes: "rd_len (rd_from_bytes arch xs) = min (length xs) USIZE_MAX"
  by (simp add: rd_from_bytes_rsum rc_digest_def rsum_def sat_add_def)

lemma as_slice_from_slice: "as_slice_db (from_slice xs n) = take (min n DIGEST_MAX_LEN) xs"
  by (auto simp: as_slice_db_def from_slice_def Let_def min_def)

lemma toy_compute: "as_slice_db (compute_truncated toy_crates Md4 data n) = take (min n 16) (data @ replicate 16 0)"
  unfolding compute_truncated_def Let_def SignatureAlgorithm.case as_slice_from_slice
  by (simp add: toy_crates_def toy_hash_def digest_len_def DIGEST_MAX_LEN_def min.commute min.left_commute)

lemma toy_chunks:
  "map (block_chunk \<lparr>sl_block_length = 2, sl_remainder = 1, sl_block_count = 3, sl_strong_sum_length = 2\<rparr>
    [1, 2, 3, 4, 5]) [0, 1, 2] = [[1, 2], [3, 4], [5]]"
  by (simp add: block_chunk_def)

lemma toy_signature_blocks:
  "fs_layout toy_signature = \<lparr>sl_block_length = 2, sl_remainder = 1, sl_block_count = 3, sl_strong_sum_length = 2\<rparr>"
  "length (fs_blocks toy_signature) = 3" "map sb_len (fs_blocks toy_signature) = [2, 2, 1]"
  "map (\<lambda>b. as_slice_db (sb_strong b)) (fs_blocks toy_signature) = [[1, 2], [3, 4], [5, 0]]"
  "map sb_rolling (fs_blocks toy_signature) = map (rd_from_bytes Other_arch) [[1, 2], [3, 4], [5]]"
  using toy_chunks
  by (simp_all add: toy_signature_def signature_block_def sb_len_def rd_len_from_bytes toy_compute USIZE_MAX_def)

end
