(* ===== verification/Lookup.thy ===== *)
theory Lookup
  imports Prelude "HOL-Library.Code_Target_Nat"
begin

text \<open>
  The tables the delta index is made of, \<open>crates/matching/src/index\<close>: the bit filter of
  \<open>bithash.rs\<close>, the set of matched blocks of \<open>matched_blocks.rs\<close> and the chained hash table of
  \<open>compact_lookup.rs\<close>.  The filter never rejects what was inserted; the chained table yields the
  inserted blocks of a bucket in insertion order.
\<close>

section \<open>Bit filter\<close>

text \<open>\<open>u64::BITS - leading_zeros(n)\<close>, the number of significant bits.\<close>

fun bit_len :: "nat \<Rightarrow> nat" where
  "bit_len n = (if n = 0 then 0 else Suc (bit_len (n div 2)))"

declare bit_len.simps [simp del]

definition BITHASH_BITS :: nat where "BITHASH_BITS = 3"
definition MIN_LOG2_BITS :: nat where "MIN_LOG2_BITS = 7"
definition MAX_LOG2_BITS :: nat where "MAX_LOG2_BITS = 28"

definition log2_bits_for :: "nat \<Rightarrow> nat" where
  "log2_bits_for n_blocks =
    (let target_bits = min (n_blocks * 2 ^ (BITHASH_BITS + 2)) (2 ^ 64 - 1);
         log2 = (if target_bits \<le> 1 then MIN_LOG2_BITS
                 else max (bit_len (target_bits - 1)) MIN_LOG2_BITS)
     in min log2 MAX_LOG2_BITS)"

record BitHash =
  bh_bits :: "u64 list"
  bh_mask :: u32

definition bh_with_block_count :: "nat \<Rightarrow> BitHash" where
  "bh_with_block_count n_blocks =
    (let log2_bits = log2_bits_for n_blocks;
         total_bits = 2 ^ log2_bits;
         words = total_bits div 64
     in \<lparr>bh_bits = replicate words 0, bh_mask = of_nat (total_bits - 1)\<rparr>)"

definition bh_locate :: "BitHash \<Rightarrow> u32 \<Rightarrow> nat \<times> nat" where
  "bh_locate bh rsum =
    (let masked = unat (rsum AND bh_mask bh); bit_index = masked mod 64; word_index = masked div 64
     in (word_index, bit_index))"

definition bh_insert :: "u32 \<Rightarrow> BitHash \<Rightarrow> BitHash" where
  "bh_insert rsum bh =
    (case bh_locate bh rsum of (word_index, bit_index) \<Rightarrow>
       bh\<lparr>bh_bits := (bh_bits bh)[word_index := bh_bits bh ! word_index OR push_bit bit_index 1]\<rparr>)"

definition bh_contains :: "BitHash \<Rightarrow> u32 \<Rightarrow> bool" where
  "bh_contains bh rsum =
    (case bh_locate bh rsum of (word_index, bit_index) \<Rightarrow>
       drop_bit bit_index (bh_bits bh ! word_index) AND 1 = 1)"

definition bh_clear :: "BitHash \<Rightarrow> BitHash" where
  "bh_clear bh = bh\<lparr>bh_bits := map (\<lambda>_. 0) (bh_bits bh)\<rparr>"

section \<open>Matched blocks\<close>

text \<open>A bit set over block indices, packed in 64-bit words.  The index keeps its consumed blocks in
  the same shape, so the word operations are shared.\<close>

definition bits_words :: "nat \<Rightarrow> u64 list" where
  "bits_words block_count = replicate ((block_count + 63) div 64) 0"

definition bits_set :: "nat \<Rightarrow> u64 list \<Rightarrow> u64 list" where
  "bits_set idx ws = ws[idx div 64 := ws ! (idx div 64) OR push_bit (idx mod 64) 1]"

record MatchedBlocks =
  mb_bits :: "u64 list"
  mb_block_count :: nat

definition mb_with_block_count :: "nat \<Rightarrow> MatchedBlocks" where
  "mb_with_block_count block_count = \<lparr>mb_bits = bits_words block_count, mb_block_count = block_count\<rparr>"

definition mark_matched :: "nat \<Rightarrow> MatchedBlocks \<Rightarrow> MatchedBlocks" where
  "mark_matched idx mb =
    (if mb_block_count mb \<le> idx then mb else mb\<lparr>mb_bits := bits_set idx (mb_bits mb)\<rparr>)"

definition is_matched :: "MatchedBlocks \<Rightarrow> nat \<Rightarrow> bool" where
  "is_matched mb idx =
    (if mb_block_count mb \<le> idx then False
     else mb_bits mb ! (idx div 64) AND push_bit (idx mod 64) 1 \<noteq> 0)"

definition mb_clear :: "MatchedBlocks \<Rightarrow> MatchedBlocks" where
  "mb_clear mb = mb\<lparr>mb_bits := map (\<lambda>_. 0) (mb_bits mb)\<rparr>"

section \<open>Chained lookup table\<close>

definition MAX_LOG2_BUCKETS :: nat where "MAX_LOG2_BUCKETS = 16"
definition MIN_LOG2_BUCKETS :: nat where "MIN_LOG2_BUCKETS = 4"
definition CHAIN_END :: u32 where "CHAIN_END = 0xFFFFFFFF"

record ChainEntry =
  ce_sum1 :: u16
  ce_block_index :: u32
  ce_next :: u32

record BucketSlot =
  bs_head :: u32
  bs_tail :: u32

definition EMPTY_SLOT :: BucketSlot where
  "EMPTY_SLOT = \<lparr>bs_head = CHAIN_END, bs_tail = CHAIN_END\<rparr>"

record CompactLookup =
  cl_buckets :: "BucketSlot list"
  cl_entries :: "ChainEntry list"
  cl_mask :: u16

definition log2_buckets_for :: "nat \<Rightarrow> nat" where
  "log2_buckets_for n_entries =
    (let target = min (n_entries * 2) (2 ^ 64 - 1);
         raw = (if target \<le> 1 then MIN_LOG2_BUCKETS else bit_len (target - 1))
     in max MIN_LOG2_BUCKETS (min raw MAX_LOG2_BUCKETS))"

definition cl_with_capacity :: "nat \<Rightarrow> CompactLookup" where
  "cl_with_capacity n_entries =
    (let n_buckets = 2 ^ log2_buckets_for n_entries
     in \<lparr>cl_buckets = replicate n_buckets EMPTY_SLOT, cl_entries = [], cl_mask = of_nat (n_buckets - 1)\<rparr>)"

definition bucket_index :: "CompactLookup \<Rightarrow> u16 \<Rightarrow> nat" where
  "bucket_index cl sum2 = unat (sum2 AND cl_mask cl)"

definition cl_insert :: "u16 \<Rightarrow> u16 \<Rightarrow> u32 \<Rightarrow> CompactLookup \<Rightarrow> CompactLookup" where
  "cl_insert sum1 sum2 block_index cl =
    (let bucket = bucket_index cl sum2;
         entry_idx = of_nat (length (cl_entries cl));
         entries = cl_entries cl @ [\<lparr>ce_sum1 = sum1, ce_block_index = block_index, ce_next = CHAIN_END\<rparr>];
         slot = cl_buckets cl ! bucket
     in if bs_head slot = CHAIN_END
        then cl\<lparr>cl_entries := entries,
                cl_buckets := (cl_buckets cl)[bucket := \<lparr>bs_head = entry_idx, bs_tail = entry_idx\<rparr>]\<rparr>
        else cl\<lparr>cl_entries := entries[unat (bs_tail slot) := (entries ! unat (bs_tail slot))\<lparr>ce_next := entry_idx\<rparr>],
                cl_buckets := (cl_buckets cl)[bucket := slot\<lparr>bs_tail := entry_idx\<rparr>]\<rparr>)"

text \<open>The iterator's loop.  The fuel bounds the number of entries visited; \<open>None\<close> is the panic of an
  entry out of range, or a chain longer than the fuel.\<close>

fun chain_walk :: "nat \<Rightarrow> ChainEntry list \<Rightarrow> u16 \<Rightarrow> u32 \<Rightarrow> nat list option" where
  "chain_walk 0 entries sum1 nx = None"
| "chain_walk (Suc fuel) entries sum1 nx =
    (if nx = CHAIN_END then Some []
     else if length entries \<le> unat nx then None
     else let entry = entries ! unat nx
          in map_option (\<lambda>rest. if ce_sum1 entry = sum1 then unat (ce_block_index entry) # rest else rest)
               (chain_walk fuel entries sum1 (ce_next entry)))"

definition find_all :: "CompactLookup \<Rightarrow> u16 \<Rightarrow> u16 \<Rightarrow> nat list option" where
  "find_all cl sum1 sum2 =
    chain_walk (length (cl_entries cl) + 1) (cl_entries cl) sum1 (bs_head (cl_buckets cl ! bucket_index cl sum2))"

definition cl_clear :: "CompactLookup \<Rightarrow> CompactLookup" where
  "cl_clear cl = cl\<lparr>cl_buckets := map (\<lambda>_. EMPTY_SLOT) (cl_buckets cl), cl_entries := []\<rparr>"

definition cl_capacity :: "CompactLookup \<Rightarrow> nat" where
  "cl_capacity cl = unat (cl_mask cl) + 1"

section \<open>Filters have no false negatives\<close>

locale prefilter =
  fixes inv :: "'f \<Rightarrow> bool"
    and ins :: "'k \<Rightarrow> 'f \<Rightarrow> 'f"
    and mem :: "'f \<Rightarrow> 'k \<Rightarrow> bool"
  assumes inv_ins: "inv f \<Longrightarrow> inv (ins x f)"
    and mem_ins: "inv f \<Longrightarrow> mem (ins x f) x"
    and mem_mono: "inv f \<Longrightarrow> mem f y \<Longrightarrow> mem (ins x f) y"
begin

lemma inv_fold: "inv f \<Longrightarrow> inv (fold ins xs f)"
  by (induction xs arbitrary: f) (auto intro: inv_ins)

lemma mem_fold_mono: "inv f \<Longrightarrow> mem f x \<Longrightarrow> mem (fold ins xs f) x"
  by (induction xs arbitrary: f) (auto intro: inv_ins mem_mono)

lemma mem_fold: "inv f \<Longrightarrow> x \<in> set xs \<Longrightarrow> mem (fold ins xs f) x"
  by (induction xs arbitrary: f) (auto intro: inv_ins mem_ins mem_fold_mono)

end

lemma bit_test_drop: "drop_bit i w AND 1 = (1 :: u64) \<longleftrightarrow> bit w i"
  by (simp add: bit_iff_and_drop_bit_eq_1)

lemma bit_test_push: "w AND 2 ^ i = (0 :: u64) \<longleftrightarrow> \<not> bit w i"
  using bit_iff_and_push_bit_not_eq_0 [of w i] by simp

lemma bit_or_push: "i < 64 \<Longrightarrow> bit (w OR 2 ^ i :: u64) j \<longleftrightarrow> bit w j \<or> i = j"
  by (auto simp: bit_simps dest: bit_imp_le_length)

definition bh_inv :: "BitHash \<Rightarrow> bool" where
  "bh_inv bh = (unat (bh_mask bh) < length (bh_bits bh) * 64)"

lemma unat_and_le: "unat (a AND b :: 'a::len word) \<le> unat b"
  by (simp add: word_le_nat_alt [symmetric] word_and_le1)

lemma bh_locate_bound: "bh_inv bh \<Longrightarrow> fst (bh_locate bh r) < length (bh_bits bh)"
  using unat_and_le [of r "bh_mask bh"] by (auto simp: bh_inv_def bh_locate_def Let_def less_mult_imp_div_less)

lemma bh_contains_bit: "bh_contains bh r \<longleftrightarrow> bit (bh_bits bh ! fst (bh_locate bh r)) (snd (bh_locate bh r))"
  by (simp add: bh_contains_def bit_test_drop split: prod.splits)

lemma bh_locate_insert [simp]: "bh_locate (bh_insert x bh) r = bh_locate bh r"
  by (simp add: bh_locate_def bh_insert_def split: prod.splits)

lemma bh_contains_insert:
  assumes "bh_inv bh"
  shows "bh_contains (bh_insert x bh) r \<longleftrightarrow> bh_contains bh r \<or> bh_locate bh x = bh_locate bh r"
proof -
  obtain w b where x: "bh_locate bh x = (w, b)" by (cases "bh_locate bh x")
  have "b < 64" using x by (auto simp: bh_locate_def Let_def)
  moreover have "w < length (bh_bits bh)" using bh_locate_bound [OF assms, of x] x by simp
  moreover have "bh_bits (bh_insert x bh) = (bh_bits bh)[w := bh_bits bh ! w OR 2 ^ b]"
    by (simp add: bh_insert_def x)
  ultimately show ?thesis
    by (cases "bh_locate bh r") (auto simp: bh_contains_bit x nth_list_update bit_or_push)
qed

interpretation bithash: prefilter bh_inv bh_insert bh_contains
  by unfold_locales (auto simp: bh_contains_insert, auto simp: bh_inv_def bh_insert_def split: prod.splits)

lemma log2_bits_for_bounds: "7 \<le> log2_bits_for n \<and> log2_bits_for n \<le> 28"
  by (auto simp: log2_bits_for_def Let_def MIN_LOG2_BITS_def MAX_LOG2_BITS_def)

lemma bh_with_block_count_inv: "bh_inv (bh_with_block_count n)"
proof -
  let ?k = "log2_bits_for n"
  obtain j where j: "?k = 6 + j" using log2_bits_for_bounds [of n] by (metis le_Suc_ex Suc_leD eval_nat_numeral(3))
  have "(2::nat) ^ ?k \<le> 2 ^ 28" using log2_bits_for_bounds [of n] by (intro power_increasing) auto
  then have "unat (of_nat (2 ^ ?k - 1) :: u32) = 2 ^ ?k - 1"
    using unat_of_nat [of "2 ^ ?k - 1", where ?'a = 32] by (simp add: take_bit_nat_eq_self)
  moreover have "(2::nat) ^ ?k div 64 * 64 = 2 ^ ?k" by (simp add: j power_add)
  ultimately show ?thesis by (simp add: bh_inv_def bh_with_block_count_def Let_def)
qed

lemma bh_clear_inv [simp]: "bh_inv bh \<Longrightarrow> bh_inv (bh_clear bh)"
  by (simp add: bh_inv_def bh_clear_def)

section \<open>Bit sets\<close>

lemma bits_set_bit:
  "idx div 64 < length ws \<Longrightarrow>
    bit (bits_set idx ws ! (j div 64)) (j mod 64) \<longleftrightarrow> bit (ws ! (j div 64)) (j mod 64) \<or> idx = j"
  by (auto simp: bits_set_def nth_list_update bit_or_push) (metis div_mult_mod_eq)

lemma length_bits_set [simp]: "length (bits_set i ws) = length ws"
  by (simp add: bits_set_def)

lemma div_64_bound: "i < n \<Longrightarrow> i div 64 < (n + 63) div (64::nat)"
  by linarith

lemma bits_words_nth: "i div 64 < (n + 63) div 64 \<Longrightarrow> bits_words n ! (i div 64) = 0"
  by (simp add: bits_words_def)

definition mb_inv :: "MatchedBlocks \<Rightarrow> bool" where
  "mb_inv mb = (length (mb_bits mb) = (mb_block_count mb + 63) div 64)"

lemma is_matched_bit: "is_matched mb i \<longleftrightarrow> i < mb_block_count mb \<and> bit (mb_bits mb ! (i div 64)) (i mod 64)"
  by (auto simp: is_matched_def bit_test_push not_le)

lemma is_matched_mark:
  "mb_inv mb \<Longrightarrow> is_matched (mark_matched i mb) j \<longleftrightarrow> is_matched mb j \<or> (i = j \<and> i < mb_block_count mb)"
  by (auto simp: is_matched_bit mark_matched_def mb_inv_def bits_set_bit div_64_bound)

lemma mark_matched_count [simp]: "mb_block_count (mark_matched i mb) = mb_block_count mb"
  by (simp add: mark_matched_def)

lemma mark_matched_inv [simp]: "mb_inv mb \<Longrightarrow> mb_inv (mark_matched i mb)"
  by (simp add: mb_inv_def mark_matched_def)


section \<open>Chains\<close>

text \<open>\<open>chain es nx is\<close>: following the links from \<open>nx\<close> visits exactly the entries \<open>is\<close>.\<close>

fun chain :: "ChainEntry list \<Rightarrow> u32 \<Rightarrow> nat list \<Rightarrow> bool" where
  "chain es nx [] = (nx = CHAIN_END)"
| "chain es nx (i # is) = (nx = of_nat i \<and> i < length es \<and> chain es (ce_next (es ! i)) is)"

lemma unat_of_nat_u32: "i < 2 ^ 32 \<Longrightarrow> unat (of_nat i :: u32) = i"
  by (simp add: unat_of_nat take_bit_nat_eq_self)

lemma of_nat_neq_CHAIN_END: "i < 2 ^ 32 - 1 \<Longrightarrow> of_nat i \<noteq> CHAIN_END"
proof
  assume "i < 2 ^ 32 - 1" "of_nat i = CHAIN_END"
  then have "unat (of_nat i :: u32) = 2 ^ 32 - 1" by (simp add: CHAIN_END_def)
  with \<open>i < 2 ^ 32 - 1\<close> show False by (simp add: unat_of_nat_u32)
qed

lemma chain_walk_chain:
  assumes "chain es nx is" "length is < fuel" "length es < 2 ^ 32"
  shows "chain_walk fuel es s nx =
    Some (map (\<lambda>i. unat (ce_block_index (es ! i))) (filter (\<lambda>i. ce_sum1 (es ! i) = s) is))"
  using assms
proof (induction "is" arbitrary: fuel nx)
  case Nil
  then show ?case by (cases fuel) auto
next
  case (Cons i "is")
  then obtain f where f: "fuel = Suc f" by (cases fuel) auto
  have i: "i < length es" "i < 2 ^ 32 - 1" "nx = of_nat i" using Cons.prems by auto
  show ?case using Cons f i of_nat_neq_CHAIN_END [of i] by (auto simp: unat_of_nat_u32)
qed


lemma chain_other:
  "chain es nx is \<Longrightarrow> t \<notin> set is \<Longrightarrow> chain ((es @ [e])[t := x]) nx is"
  by (induction "is" arbitrary: nx) (auto simp: nth_append nth_list_update)

lemma chain_append: "chain es nx is \<Longrightarrow> chain (es @ [e]) nx is"
  by (induction "is" arbitrary: nx) (auto simp: nth_append)

lemma chain_extend:
  assumes "chain es nx is" "is \<noteq> []" "distinct is" "ce_next e = CHAIN_END" "t = last is"
    "x = ((es @ [e]) ! t)\<lparr>ce_next := of_nat (length es)\<rparr>"
  shows "chain ((es @ [e])[t := x]) nx (is @ [length es])"
  using assms(1-3,5)
proof (induction "is" arbitrary: nx)
  case (Cons i "is")
  show ?case
  proof (cases "is = []")
    case True
    then show ?thesis using Cons.prems assms(4,6) by (auto simp: nth_append nth_list_update)
  next
    case False
    then have "i \<noteq> t" using Cons.prems by (metis distinct.simps(2) last_ConsR last_in_set)
    then show ?thesis using Cons False by (auto simp: nth_append nth_list_update)
  qed
qed simp

definition bucket_members :: "(u16 \<times> u16 \<times> nat) list \<Rightarrow> CompactLookup \<Rightarrow> nat \<Rightarrow> nat list" where
  "bucket_members ins cl b = filter (\<lambda>i. bucket_index cl (fst (snd (ins ! i))) = b) [0..<length ins]"

definition cl_shape :: "CompactLookup \<Rightarrow> bool" where
  "cl_shape cl = (unat (cl_mask cl) < length (cl_buckets cl))"

text \<open>The table holds the insertions \<open>ins\<close>, given as \<open>(sum1, sum2, block_index)\<close>, oldest first.\<close>

definition cl_inv :: "(u16 \<times> u16 \<times> nat) list \<Rightarrow> CompactLookup \<Rightarrow> bool" where
  "cl_inv ins cl = (cl_shape cl \<and> length (cl_entries cl) = length ins \<and> length ins < 2 ^ 32 \<and>
    (\<forall>i < length ins. ce_sum1 (cl_entries cl ! i) = fst (ins ! i) \<and>
       ce_block_index (cl_entries cl ! i) = of_nat (snd (snd (ins ! i)))) \<and>
    (\<forall>b < length (cl_buckets cl).
       chain (cl_entries cl) (bs_head (cl_buckets cl ! b)) (bucket_members ins cl b) \<and>
       (bucket_members ins cl b \<noteq> [] \<longrightarrow> bs_tail (cl_buckets cl ! b) = of_nat (last (bucket_members ins cl b)))))"

lemma bucket_index_bound: "cl_shape cl \<Longrightarrow> bucket_index cl s < length (cl_buckets cl)"
  using unat_and_le [of s "cl_mask cl"] by (simp add: cl_shape_def bucket_index_def)

lemma bucket_members_snoc:
  "bucket_members (ins @ [p]) cl b =
    bucket_members ins cl b @ (if bucket_index cl (fst (snd p)) = b then [length ins] else [])"
proof -
  have "filter (\<lambda>i. bucket_index cl (fst (snd ((ins @ [p]) ! i))) = b) [0..<length ins] =
      filter (\<lambda>i. bucket_index cl (fst (snd (ins ! i))) = b) [0..<length ins]"
    by (rule filter_cong) (auto simp: nth_append)
  then show ?thesis by (simp add: bucket_members_def)
qed

lemma bucket_members_less: "i \<in> set (bucket_members ins cl b) \<Longrightarrow> i < length ins \<and> bucket_index cl (fst (snd (ins ! i))) = b"
  by (simp add: bucket_members_def)

lemma bucket_members_cong: "cl_mask cl' = cl_mask cl \<Longrightarrow> bucket_members ins cl' b = bucket_members ins cl b"
  by (simp add: bucket_members_def bucket_index_def)

lemma cl_insert_mask [simp]: "cl_mask (cl_insert a b c cl) = cl_mask cl"
  "length (cl_buckets (cl_insert a b c cl)) = length (cl_buckets cl)"
  by (simp_all add: cl_insert_def Let_def)

lemma cl_insert_inv:
  assumes "cl_inv ins cl" "length ins + 1 < 2 ^ 32"
  shows "cl_inv (ins @ [(s1, s2, k)]) (cl_insert s1 s2 (of_nat k) cl)"
proof -
  let ?b = "bucket_index cl s2" and ?es = "cl_entries cl" and ?n = "length ins"
  let ?e = "\<lparr>ce_sum1 = s1, ce_block_index = of_nat k, ce_next = CHAIN_END\<rparr>"
  let ?is = "bucket_members ins cl"
  have shape: "cl_shape cl" and n: "length ?es = ?n" "?n < 2 ^ 32"
    and ch: "\<And>b. b < length (cl_buckets cl) \<Longrightarrow> chain ?es (bs_head (cl_buckets cl ! b)) (?is b)"
    and tl: "\<And>b. b < length (cl_buckets cl) \<Longrightarrow> ?is b \<noteq> [] \<Longrightarrow> bs_tail (cl_buckets cl ! b) = of_nat (last (?is b))"
    and data: "\<And>i. i < ?n \<Longrightarrow> ce_sum1 (?es ! i) = fst (ins ! i) \<and> ce_block_index (?es ! i) = of_nat (snd (snd (ins ! i)))"
    using assms(1) by (auto simp: cl_inv_def)
  have b: "?b < length (cl_buckets cl)" using shape by (rule bucket_index_bound)
  define t where "t = last (?is ?b)"
  have cases: "(?is ?b = [] \<longleftrightarrow> bs_head (cl_buckets cl ! ?b) = CHAIN_END)"
    using ch [OF b] of_nat_neq_CHAIN_END n assms(2) by (cases "?is ?b") auto
  let ?cl = "cl_insert s1 s2 (of_nat k) cl"
  have mem: "bucket_members (ins @ [(s1, s2, k)]) ?cl b' = ?is b' @ (if ?b = b' then [?n] else [])" for b'
    using bucket_members_snoc [of ins "(s1, s2, k)" cl b'] bucket_members_cong [of ?cl cl] by simp
  have shape': "cl_shape ?cl" using shape by (simp add: cl_shape_def)
  show ?thesis
  proof (cases "?is ?b = []")
    case True
    then have cl': "?cl = cl\<lparr>cl_entries := ?es @ [?e],
        cl_buckets := (cl_buckets cl)[?b := \<lparr>bs_head = of_nat ?n, bs_tail = of_nat ?n\<rparr>]\<rparr>"
      using cases n by (simp add: cl_insert_def Let_def)
    have "chain (cl_entries ?cl) (bs_head (cl_buckets ?cl ! b')) (bucket_members (ins @ [(s1, s2, k)]) ?cl b') \<and>
        (bucket_members (ins @ [(s1, s2, k)]) ?cl b' \<noteq> [] \<longrightarrow>
         bs_tail (cl_buckets ?cl ! b') = of_nat (last (bucket_members (ins @ [(s1, s2, k)]) ?cl b')))"
      if "b' < length (cl_buckets cl)" for b'
      unfolding mem using that True b n ch [OF that] tl [OF that] chain_append [OF ch [OF that]]
      by (auto simp: cl' nth_list_update nth_append)
    then show ?thesis
      using shape' n assms(2) data unfolding cl_inv_def by (auto simp: cl' nth_append less_Suc_eq)
  next
    case False
    have t: "t < ?n" "t \<in> set (?is ?b)" using False bucket_members_less [of t ins cl ?b] by (auto simp: t_def)
    have ut: "unat (bs_tail (cl_buckets cl ! ?b)) = t"
      using tl [OF b False] t(1) n by (simp add: unat_of_nat_u32 flip: t_def)
    let ?es' = "(?es @ [?e])[t := ((?es @ [?e]) ! t)\<lparr>ce_next := of_nat ?n\<rparr>]"
    have cl': "?cl = cl\<lparr>cl_entries := ?es',
        cl_buckets := (cl_buckets cl)[?b := (cl_buckets cl ! ?b)\<lparr>bs_tail := of_nat ?n\<rparr>]\<rparr>"
      using cases False n ut by (simp add: cl_insert_def Let_def)
    have "distinct (?is ?b)" by (simp add: bucket_members_def)
    then have ext: "chain ?es' (bs_head (cl_buckets cl ! ?b)) (?is ?b @ [?n])"
      using chain_extend [OF ch [OF b] False, of ?e t] n by (simp add: t_def)
    have oth: "chain ?es' (bs_head (cl_buckets cl ! b')) (?is b')" if "b' < length (cl_buckets cl)" "b' \<noteq> ?b" for b'
      using chain_other [OF ch [OF that(1)]] t that bucket_members_less [of t ins cl b']
        bucket_members_less [of t ins cl ?b] by blast
    have "chain (cl_entries ?cl) (bs_head (cl_buckets ?cl ! b')) (bucket_members (ins @ [(s1, s2, k)]) ?cl b') \<and>
        (bucket_members (ins @ [(s1, s2, k)]) ?cl b' \<noteq> [] \<longrightarrow>
         bs_tail (cl_buckets ?cl ! b') = of_nat (last (bucket_members (ins @ [(s1, s2, k)]) ?cl b')))"
      if "b' < length (cl_buckets cl)" for b'
      unfolding mem using that b ext oth [OF that] tl [OF that] by (auto simp: cl' nth_list_update)
    moreover have "ce_sum1 (cl_entries ?cl ! i) = fst ((ins @ [(s1, s2, k)]) ! i) \<and>
        ce_block_index (cl_entries ?cl ! i) = of_nat (snd (snd ((ins @ [(s1, s2, k)]) ! i)))" if "i < Suc ?n" for i
      using that data t(1) n by (auto simp: cl' nth_append nth_list_update less_Suc_eq)
    moreover have "length (cl_entries ?cl) = Suc ?n" using n by (simp add: cl')
    ultimately show ?thesis using shape' assms(2) unfolding cl_inv_def by simp
  qed
qed

lemma find_all_inv:
  assumes "cl_inv ins cl"
  shows "find_all cl s1 s2 = Some (map (\<lambda>p. unat (of_nat (snd (snd p)) :: u32))
    (filter (\<lambda>p. fst p = s1 \<and> bucket_index cl (fst (snd p)) = bucket_index cl s2) ins))"
proof -
  let ?b = "bucket_index cl s2" and ?is = "bucket_members ins cl (bucket_index cl s2)"
  have n: "length (cl_entries cl) = length ins" "length ins < 2 ^ 32" and shape: "cl_shape cl"
    and data: "\<And>i. i < length ins \<Longrightarrow> ce_sum1 (cl_entries cl ! i) = fst (ins ! i) \<and>
      ce_block_index (cl_entries cl ! i) = of_nat (snd (snd (ins ! i)))"
    using assms by (auto simp: cl_inv_def)
  have "chain (cl_entries cl) (bs_head (cl_buckets cl ! ?b)) ?is"
    using assms bucket_index_bound [OF shape] by (auto simp: cl_inv_def)
  moreover have "length ?is \<le> length ins"
    using length_filter_le [of _ "[0..<length ins]"] by (simp add: bucket_members_def)
  ultimately have "find_all cl s1 s2 = Some (map (\<lambda>i. unat (ce_block_index (cl_entries cl ! i)))
      (filter (\<lambda>i. ce_sum1 (cl_entries cl ! i) = s1) ?is))"
    unfolding find_all_def using n by (intro chain_walk_chain) auto
  also have "filter (\<lambda>i. ce_sum1 (cl_entries cl ! i) = s1) ?is =
      filter (\<lambda>i. fst (ins ! i) = s1 \<and> bucket_index cl (fst (snd (ins ! i))) = ?b) [0..<length ins]"
    using data by (auto simp: bucket_members_def intro!: filter_cong)
  also have "map (\<lambda>i. unat (ce_block_index (cl_entries cl ! i)))
      (filter (\<lambda>i. fst (ins ! i) = s1 \<and> bucket_index cl (fst (snd (ins ! i))) = ?b) [0..<length ins]) =
      map (\<lambda>p. unat (of_nat (snd (snd p)) :: u32)) (map ((!) ins)
       (filter (\<lambda>i. fst (ins ! i) = s1 \<and> bucket_index cl (fst (snd (ins ! i))) = ?b) [0..<length ins]))"
    using data by simp
  also have "map ((!) ins) (filter (\<lambda>i. fst (ins ! i) = s1 \<and> bucket_index cl (fst (snd (ins ! i))) = ?b) [0..<length ins]) =
      filter (\<lambda>p. fst p = s1 \<and> bucket_index cl (fst (snd p)) = ?b) (map ((!) ins) [0..<length ins])"
    by (simp add: filter_map comp_def)
  finally show ?thesis by (simp add: map_nth)
qed

lemma cl_with_capacity_inv: "cl_inv [] (cl_with_capacity n)"
proof -
  let ?k = "log2_buckets_for n"
  have "?k \<le> 16" by (auto simp: log2_buckets_for_def Let_def MIN_LOG2_BUCKETS_def MAX_LOG2_BUCKETS_def)
  then have "(2::nat) ^ ?k \<le> 2 ^ 16" by (intro power_increasing) auto
  then have "unat (of_nat (2 ^ ?k - 1) :: u16) = 2 ^ ?k - 1"
    using unat_of_nat [of "2 ^ ?k - 1", where ?'a = 16] by (simp add: take_bit_nat_eq_self)
  then show ?thesis
    by (simp add: cl_inv_def cl_with_capacity_def cl_shape_def Let_def bucket_members_def EMPTY_SLOT_def)
qed

lemma cl_clear_inv: "cl_inv ins cl \<Longrightarrow> cl_inv [] (cl_clear cl)"
  by (simp add: cl_inv_def cl_clear_def cl_shape_def bucket_members_def EMPTY_SLOT_def)

lemma fold_cl_insert_inv:
  "cl_inv ins0 cl \<Longrightarrow> length ins0 + length ins < 2 ^ 32 \<Longrightarrow>
    cl_inv (ins0 @ ins) (fold (\<lambda>(s1, s2, k). cl_insert s1 s2 (of_nat k)) ins cl) \<and>
    cl_mask (fold (\<lambda>(s1, s2, k). cl_insert s1 s2 (of_nat k)) ins cl) = cl_mask cl"
proof (induction ins arbitrary: ins0 cl)
  case (Cons p ins)
  obtain s1 s2 k where p: "p = (s1, s2, k)" by (cases p)
  have "cl_inv (ins0 @ [p]) (cl_insert s1 s2 (of_nat k) cl)"
    using cl_insert_inv [OF Cons.prems(1)] Cons.prems(2) p by simp
  from Cons.IH [OF this] Cons.prems(2) show ?case by (simp add: p)
qed simp

section \<open>Properties\<close>

text \<open>C35: the chained lookup table is a multimap that keeps insertion order: after any sequence of
  insertions, \<^term>\<open>find_all\<close> ends and yields exactly the inserted block indices whose first sum is the
  one asked for and whose second sum falls into the same bucket, oldest first.\<close>

theorem lookup_yields_insertions:
  assumes "length ins < 2 ^ 32" "list_all (\<lambda>p. snd (snd p) < 2 ^ 32) ins"
    "cl = fold (\<lambda>(s1, s2, k). cl_insert s1 s2 (of_nat k)) ins (cl_with_capacity n)"
  shows "find_all cl s1 s2 =
    Some (map (snd \<circ> snd) (filter (\<lambda>p. fst p = s1 \<and> bucket_index cl (fst (snd p)) = bucket_index cl s2) ins))"
proof -
  have "cl_inv ins cl"
    using fold_cl_insert_inv [OF cl_with_capacity_inv [of n], of ins] assms by simp
  from find_all_inv [OF this, of s1 s2] show ?thesis
    using assms(2) by (auto simp: list_all_iff unat_of_nat_u32)
qed

theorem lookup_yields_insertions_witness:
  "find_all (fold (\<lambda>(s1, s2, k). cl_insert s1 s2 (of_nat k)) [(1, 5, 0), (2, 5, 1), (1, 21, 2), (1, 6, 3)]
     (cl_with_capacity 4)) 1 5 = Some [0, 2]"
proof -
  let ?ins = "[(1, 5, 0), (2, 5, 1), (1, 21, 2), (1, 6, 3)] :: (u16 \<times> u16 \<times> nat) list"
  let ?cl = "fold (\<lambda>(s1, s2, k). cl_insert s1 s2 (of_nat k)) ?ins (cl_with_capacity 4)"
  have "find_all ?cl 1 5 = Some (map (snd \<circ> snd)
      (filter (\<lambda>p. fst p = 1 \<and> bucket_index ?cl (fst (snd p)) = bucket_index ?cl 5) ?ins))"
    by (rule lookup_yields_insertions [OF _ _ refl]) simp_all
  also have "\<dots> = Some [0, 2]" by code_simp
  finally show ?thesis .
qed

text \<open>The bit filter has no false negatives, whatever number of blocks it was sized for, and
  the set of matched blocks contains exactly the marked indices within its range.\<close>

theorem filters_exact:
  "list_all (bh_contains (fold bh_insert xs (bh_with_block_count n))) xs \<and>
   (is_matched (fold mark_matched ks (mb_with_block_count m)) j \<longleftrightarrow> j \<in> set ks \<and> j < m)"
proof -
  have "is_matched (fold mark_matched ks mb) j \<longleftrightarrow> is_matched mb j \<or> j \<in> set ks \<and> j < mb_block_count mb"
    if "mb_inv mb" for mb
    using that
    by (induction ks arbitrary: mb) (auto simp: is_matched_mark)
  from this [of "mb_with_block_count m"]
  have "is_matched (fold mark_matched ks (mb_with_block_count m)) j \<longleftrightarrow> j \<in> set ks \<and> j < m"
    using div_64_bound [of j m]
    by (auto simp: mb_inv_def mb_with_block_count_def is_matched_bit bits_words_def)
  then show ?thesis
    using bithash.mem_fold [OF bh_with_block_count_inv] by (auto simp: list_all_iff)
qed

end
