(* ===== verification/Index.thy ===== *)
theory Index
  imports Signature Lookup
begin

text \<open>
  The delta signature index, \<open>crates/matching/src/index\<close> (\<open>mod.rs\<close> and \<open>builder.rs\<close>): the table the
  generator probes for basis blocks that match the current window.  Probing takes the rolling digest
  through the tag table, the bit filter and the chained lookup, and confirms a candidate by its strong
  checksum.  The set of consumed blocks, kept in atomics by the code, is part of the state.
\<close>

section \<open>The index\<close>

definition TAG_TABLE_SIZE :: nat where "TAG_TABLE_SIZE = 65536"
definition NEXT_MATCH_NONE :: u32 where "NEXT_MATCH_NONE = 0xFFFFFFFF"

record DeltaSignatureIndex =
  di_block_length :: nat
  di_strong_length :: nat
  di_algorithm :: SignatureAlgorithm
  di_blocks :: "SignatureBlock list"
  di_lookup :: CompactLookup
  di_tag_table :: "bool list"
  di_bithash :: BitHash
  di_next_match :: "u32 list"
  di_consumed :: "u64 list"
  di_has_duplicate_blocks :: bool

text \<open>The four tables \<open>populate_index\<close> fills, with the previous full block and whether there was one.\<close>

record index_tables =
  it_tag_table :: "bool list"
  it_bithash :: BitHash
  it_lookup :: CompactLookup
  it_next_match :: "u32 list"
  it_prev_full :: "nat option"

definition populate_step :: "nat \<Rightarrow> nat \<times> SignatureBlock \<Rightarrow> index_tables \<Rightarrow> index_tables" where
  "populate_step block_length ib t =
    (let (index, block) = ib in
     if sb_len block \<noteq> block_length then t
     else let digest = sb_rolling block in
       \<lparr>it_tag_table = (it_tag_table t)[unat (rd_s1 digest) := True],
        it_bithash = bh_insert (rd_value digest) (it_bithash t),
        it_lookup = cl_insert (rd_s1 digest) (rd_s2 digest) (of_nat index) (it_lookup t),
        it_next_match = (case it_prev_full t of
            Some prev \<Rightarrow> (it_next_match t)[prev := of_nat index]
          | None \<Rightarrow> it_next_match t),
        it_prev_full = Some index\<rparr>)"

definition populate_index :: "SignatureBlock list \<Rightarrow> nat \<Rightarrow> index_tables \<Rightarrow> index_tables \<times> bool" where
  "populate_index blocks block_length t =
    (let t = fold (populate_step block_length) (enumerate 0 blocks) t
     in (t, it_prev_full t \<noteq> None))"

text \<open>The set of digests seen is a list; \<open>insert\<close> returns whether the element was new.\<close>

fun detect_duplicates :: "(u32 \<times> bytes) list \<Rightarrow> nat \<Rightarrow> SignatureBlock list \<Rightarrow> bool" where
  "detect_duplicates seen block_length [] = False"
| "detect_duplicates seen block_length (block # blocks) =
    (if sb_len block \<noteq> block_length then detect_duplicates seen block_length blocks
     else let strong = take 16 (as_slice_db (sb_strong block));
              strong = strong @ replicate (16 - length strong) 0;
              key = (rd_value (sb_rolling block), strong)
          in if key \<in> set seen then True else detect_duplicates (key # seen) block_length blocks)"

definition detect_duplicate_blocks :: "SignatureBlock list \<Rightarrow> nat \<Rightarrow> bool" where
  "detect_duplicate_blocks blocks block_length = detect_duplicates [] block_length blocks"

definition build_consumed_words :: "nat \<Rightarrow> u64 list" where
  "build_consumed_words block_count = replicate ((block_count + 63) div 64) 0"

definition from_signature :: "FileSignature \<Rightarrow> SignatureAlgorithm \<Rightarrow> DeltaSignatureIndex option" where
  "from_signature sig algorithm =
    (let block_length = unat (sl_block_length (fs_layout sig));
         strong_length = sl_strong_sum_length (fs_layout sig);
         blocks = fs_blocks sig;
         requested = length blocks;
         (t, ok) = populate_index blocks block_length
           \<lparr>it_tag_table = replicate TAG_TABLE_SIZE False, it_bithash = bh_with_block_count requested,
            it_lookup = cl_with_capacity requested, it_next_match = replicate requested NEXT_MATCH_NONE,
            it_prev_full = None\<rparr>
     in if \<not> ok then None
        else Some \<lparr>di_block_length = block_length, di_strong_length = strong_length,
                   di_algorithm = algorithm, di_blocks = blocks, di_lookup = it_lookup t,
                   di_tag_table = it_tag_table t, di_bithash = it_bithash t,
                   di_next_match = it_next_match t, di_consumed = build_consumed_words (length blocks),
                   di_has_duplicate_blocks = detect_duplicate_blocks blocks block_length\<rparr>)"

section \<open>Consumed blocks\<close>

definition is_consumed :: "DeltaSignatureIndex \<Rightarrow> u32 \<Rightarrow> bool" where
  "is_consumed ix idx =
    (let idx = unat idx in
     if length (di_blocks ix) \<le> idx then False
     else drop_bit (idx mod 64) (di_consumed ix ! (idx div 64)) AND 1 = 1)"

definition mark_consumed :: "u32 \<Rightarrow> DeltaSignatureIndex \<Rightarrow> DeltaSignatureIndex" where
  "mark_consumed idx ix =
    (let idx = unat idx in
     if length (di_blocks ix) \<le> idx then ix
     else ix\<lparr>di_consumed := bits_set idx (di_consumed ix)\<rparr>)"

definition reset_consumed :: "DeltaSignatureIndex \<Rightarrow> DeltaSignatureIndex" where
  "reset_consumed ix = ix\<lparr>di_consumed := map (\<lambda>_. 0) (di_consumed ix)\<rparr>"

definition rebuild ::
  "FileSignature \<Rightarrow> SignatureAlgorithm \<Rightarrow> DeltaSignatureIndex \<Rightarrow> DeltaSignatureIndex \<times> bool" where
  "rebuild sig algorithm ix =
    (let block_length = unat (sl_block_length (fs_layout sig));
         blocks = fs_blocks sig;
         ix = ix\<lparr>di_block_length := block_length,
                 di_strong_length := sl_strong_sum_length (fs_layout sig),
                 di_algorithm := algorithm, di_blocks := blocks\<rparr>;
         words_needed = (length blocks + 63) div 64;
         ix = (if length (di_consumed ix) = words_needed then reset_consumed ix
               else ix\<lparr>di_consumed := build_consumed_words (length blocks)\<rparr>);
         (t, ok) = populate_index blocks block_length
           \<lparr>it_tag_table = map (\<lambda>_. False) (di_tag_table ix), it_bithash = bh_clear (di_bithash ix),
            it_lookup = cl_clear (di_lookup ix), it_next_match = replicate (length blocks) NEXT_MATCH_NONE,
            it_prev_full = None\<rparr>
     in (ix\<lparr>di_lookup := it_lookup t, di_tag_table := it_tag_table t, di_bithash := it_bithash t,
            di_next_match := it_next_match t,
            di_has_duplicate_blocks := detect_duplicate_blocks blocks block_length\<rparr>, ok))"

section \<open>Probing\<close>

definition next_match :: "DeltaSignatureIndex \<Rightarrow> nat \<Rightarrow> nat option" where
  "next_match ix block_index =
    (if block_index < length (di_next_match ix)
     then let raw = di_next_match ix ! block_index
          in if raw = NEXT_MATCH_NONE then None else Some (unat raw)
     else None)"

definition try_next_match_slices ::
  "hash_crates \<Rightarrow> DeltaSignatureIndex \<Rightarrow> nat \<Rightarrow> RollingDigest \<Rightarrow> bytes \<Rightarrow> bytes \<Rightarrow> nat option" where
  "try_next_match_slices H ix last_match digest first second =
    (case next_match ix last_match of
       None \<Rightarrow> None
     | Some nxt \<Rightarrow>
         if length first + length second \<noteq> di_block_length ix then None
         else let block = di_blocks ix ! nxt; block_digest = sb_rolling block
              in if rd_s1 digest \<noteq> rd_s1 block_digest \<or> rd_s2 digest \<noteq> rd_s2 block_digest then None
                 else let strong = compute_truncated_slices H (di_algorithm ix) first second (di_strong_length ix)
                      in if as_slice_db strong = as_slice_db (sb_strong block) then Some nxt else None)"

definition try_next_match_bytes ::
  "hash_crates \<Rightarrow> DeltaSignatureIndex \<Rightarrow> nat \<Rightarrow> RollingDigest \<Rightarrow> bytes \<Rightarrow> nat option" where
  "try_next_match_bytes H ix last_match digest window =
    (case next_match ix last_match of
       None \<Rightarrow> None
     | Some nxt \<Rightarrow>
         if length window \<noteq> di_block_length ix then None
         else let block = di_blocks ix ! nxt; block_digest = sb_rolling block
              in if rd_s1 digest \<noteq> rd_s1 block_digest \<or> rd_s2 digest \<noteq> rd_s2 block_digest then None
                 else let strong = compute_truncated H (di_algorithm ix) window (di_strong_length ix)
                      in if as_slice_db strong = as_slice_db (sb_strong block) then Some nxt else None)"

text \<open>The candidate loop shared by the two probes: the first candidate that is neither matched nor
  consumed and has the strong checksum.  \<open>matched\<close> is the optional set of matched blocks.\<close>

definition skip_block :: "DeltaSignatureIndex \<Rightarrow> MatchedBlocks option \<Rightarrow> nat \<Rightarrow> bool" where
  "skip_block ix matched index =
    ((case matched of Some mb \<Rightarrow> is_matched mb index | None \<Rightarrow> False) \<or> is_consumed ix (of_nat index))"

definition probe_candidates ::
  "DeltaSignatureIndex \<Rightarrow> MatchedBlocks option \<Rightarrow> DigestBuf \<Rightarrow> nat list \<Rightarrow> nat option" where
  "probe_candidates ix matched strong candidates =
    find (\<lambda>index. \<not> skip_block ix matched index \<and>
            as_slice_db strong = as_slice_db (sb_strong (di_blocks ix ! index))) candidates"

definition find_match_bytes_filtered ::
  "hash_crates \<Rightarrow> DeltaSignatureIndex \<Rightarrow> RollingDigest \<Rightarrow> bytes \<Rightarrow> MatchedBlocks option \<Rightarrow> nat option" where
  "find_match_bytes_filtered H ix digest window matched =
    (if length window \<noteq> di_block_length ix then None
     else if \<not> di_tag_table ix ! unat (rd_s1 digest) then None
     else if \<not> bh_contains (di_bithash ix) (rd_value digest) then None
     else let strong = compute_truncated H (di_algorithm ix) window (di_strong_length ix)
          in case find_all (di_lookup ix) (rd_s1 digest) (rd_s2 digest) of
               Some candidates \<Rightarrow> probe_candidates ix matched strong candidates
             | None \<Rightarrow> None)"

definition find_match_bytes ::
  "hash_crates \<Rightarrow> DeltaSignatureIndex \<Rightarrow> RollingDigest \<Rightarrow> bytes \<Rightarrow> nat option" where
  "find_match_bytes H ix digest window = find_match_bytes_filtered H ix digest window None"

definition find_match_slices_filtered ::
  "hash_crates \<Rightarrow> DeltaSignatureIndex \<Rightarrow> RollingDigest \<Rightarrow> bytes \<Rightarrow> bytes \<Rightarrow> MatchedBlocks option \<Rightarrow> nat option" where
  "find_match_slices_filtered H ix digest first second matched =
    (if length first + length second \<noteq> di_block_length ix then None
     else if \<not> di_tag_table ix ! unat (rd_s1 digest) then None
     else if \<not> bh_contains (di_bithash ix) (rd_value digest) then None
     else let strong = compute_truncated_slices H (di_algorithm ix) first second (di_strong_length ix)
          in case find_all (di_lookup ix) (rd_s1 digest) (rd_s2 digest) of
               Some candidates \<Rightarrow> probe_candidates ix matched strong candidates
             | None \<Rightarrow> None)"

definition find_match_slices ::
  "hash_crates \<Rightarrow> DeltaSignatureIndex \<Rightarrow> RollingDigest \<Rightarrow> bytes \<Rightarrow> bytes \<Rightarrow> nat option" where
  "find_match_slices H ix digest first second = find_match_slices_filtered H ix digest first second None"

definition find_tail_match ::
  "hash_crates \<Rightarrow> DeltaSignatureIndex \<Rightarrow> RollingDigest \<Rightarrow> bytes \<Rightarrow> bytes \<Rightarrow> MatchedBlocks option \<Rightarrow> nat option" where
  "find_tail_match H ix digest first second matched =
    (let tail_len = length first + length second
     in if tail_len = 0 \<or> di_block_length ix \<le> tail_len then None
        else find (\<lambda>index. let block = di_blocks ix ! index in
               sb_len block = tail_len \<and> \<not> skip_block ix matched index \<and>
               rd_s1 digest = rd_s1 (sb_rolling block) \<and> rd_s2 digest = rd_s2 (sb_rolling block) \<and>
               as_slice_db (compute_truncated_slices H (di_algorithm ix) first second (di_strong_length ix))
                 = as_slice_db (sb_strong block))
             [0..<length (di_blocks ix)])"

definition check_block_match_slices ::
  "hash_crates \<Rightarrow> DeltaSignatureIndex \<Rightarrow> nat \<Rightarrow> RollingDigest \<Rightarrow> bytes \<Rightarrow> bytes \<Rightarrow> bool" where
  "check_block_match_slices H ix block_index digest first second =
    (if length (di_blocks ix) \<le> block_index then False
     else let block = di_blocks ix ! block_index; block_digest = sb_rolling block
          in if sb_len block \<noteq> di_block_length ix then False
             else if rd_s1 digest \<noteq> rd_s1 block_digest \<or> rd_s2 digest \<noteq> rd_s2 block_digest then False
             else as_slice_db (compute_truncated_slices H (di_algorithm ix) first second (di_strong_length ix))
                    = as_slice_db (sb_strong block))"

text \<open>The windows of the two deque variants are pairs of slices.\<close>

definition find_match_window ::
  "hash_crates \<Rightarrow> DeltaSignatureIndex \<Rightarrow> RollingDigest \<Rightarrow> bytes \<times> bytes \<Rightarrow> nat option" where
  "find_match_window H ix digest window =
    (let (front, back) = window
     in if length front + length back \<noteq> di_block_length ix then None
        else find_match_bytes H ix digest (front @ back))"

definition find_tail_match_window ::
  "hash_crates \<Rightarrow> DeltaSignatureIndex \<Rightarrow> RollingDigest \<Rightarrow> bytes \<times> bytes \<Rightarrow> nat option" where
  "find_tail_match_window H ix digest window =
    (let (front, back) = window; tail_len = length front + length back
     in if tail_len = 0 \<or> di_block_length ix \<le> tail_len then None
        else find_tail_match H ix digest (front @ back) [] None)"

text \<open>\<open>extend_run\<close>: how many blocks from \<open>start\<close> on match the target, block by block.\<close>

fun extend_loop ::
  "target_arch \<Rightarrow> hash_crates \<Rightarrow> DeltaSignatureIndex \<Rightarrow> nat \<Rightarrow> bytes \<Rightarrow> nat \<Rightarrow> nat" where
  "extend_loop arch H ix block_idx target 0 = 0"
| "extend_loop arch H ix block_idx target (Suc left) =
    (if length (di_blocks ix) \<le> block_idx then 0
     else if length target < di_block_length ix then 0
     else let chunk = take (di_block_length ix) target; block = di_blocks ix ! block_idx
          in if sb_len block \<noteq> di_block_length ix then 0
             else let chunk_digest = rd_from_bytes arch chunk; block_digest = sb_rolling block
                  in if rd_s1 chunk_digest \<noteq> rd_s1 block_digest \<or> rd_s2 chunk_digest \<noteq> rd_s2 block_digest then 0
                     else if as_slice_db (compute_truncated H (di_algorithm ix) chunk (di_strong_length ix))
                               \<noteq> as_slice_db (sb_strong block) then 0
                     else Suc (extend_loop arch H ix (block_idx + 1) (drop (di_block_length ix) target) left))"

definition extend_run ::
  "target_arch \<Rightarrow> hash_crates \<Rightarrow> DeltaSignatureIndex \<Rightarrow> nat \<Rightarrow> bytes \<Rightarrow> nat \<Rightarrow> nat" where
  "extend_run arch H ix start_block_index target max_blocks =
    (if max_blocks = 0 \<or> di_block_length ix = 0 then 0
     else extend_loop arch H ix start_block_index target max_blocks)"

section \<open>Well-formed tables\<close>

definition is_full :: "nat \<Rightarrow> SignatureBlock list \<Rightarrow> nat \<Rightarrow> bool" where
  "is_full bl blocks i = (i < length blocks \<and> sb_len (blocks ! i) = bl)"

definition full_indices :: "nat \<Rightarrow> SignatureBlock list \<Rightarrow> nat list" where
  "full_indices bl blocks = filter (is_full bl blocks) [0..<length blocks]"

definition full_entry :: "SignatureBlock list \<Rightarrow> nat \<Rightarrow> u16 \<times> u16 \<times> nat" where
  "full_entry blocks i = (rd_s1 (sb_rolling (blocks ! i)), rd_s2 (sb_rolling (blocks ! i)), i)"

fun succ_in :: "nat list \<Rightarrow> nat \<Rightarrow> nat option" where
  "succ_in (x # y # xs) k = (if x = k then Some y else succ_in (y # xs) k)"
| "succ_in _ k = None"

definition link_of :: "nat option \<Rightarrow> u32" where
  "link_of n = (case n of Some j \<Rightarrow> of_nat j | None \<Rightarrow> NEXT_MATCH_NONE)"

definition tables_ok :: "nat \<Rightarrow> nat \<Rightarrow> SignatureBlock list \<Rightarrow> index_tables \<Rightarrow> bool" where
  "tables_ok n bl blocks t =
    (length (it_tag_table t) = TAG_TABLE_SIZE \<and> bh_inv (it_bithash t) \<and>
     cl_inv (map (full_entry blocks) (full_indices bl blocks)) (it_lookup t) \<and>
     (\<forall>i. is_full bl blocks i \<longrightarrow> it_tag_table t ! unat (rd_s1 (sb_rolling (blocks ! i))) \<and>
        bh_contains (it_bithash t) (rd_value (sb_rolling (blocks ! i)))) \<and>
     length (it_next_match t) = n \<and>
     (\<forall>k < n. it_next_match t ! k = link_of (succ_in (full_indices bl blocks) k)) \<and>
     it_prev_full t = (if full_indices bl blocks = [] then None else Some (last (full_indices bl blocks))))"

lemma is_full_snoc:
  "is_full bl (blocks @ [b]) i \<longleftrightarrow> is_full bl blocks i \<or> i = length blocks \<and> sb_len b = bl"
  by (auto simp: is_full_def nth_append)

lemma full_indices_snoc:
  "full_indices bl (blocks @ [b]) =
    full_indices bl blocks @ (if sb_len b = bl then [length blocks] else [])"
proof -
  have "filter (is_full bl (blocks @ [b])) [0..<length blocks] = filter (is_full bl blocks) [0..<length blocks]"
    by (rule filter_cong) (auto simp: is_full_snoc)
  then show ?thesis by (simp add: full_indices_def is_full_snoc is_full_def)
qed

lemma set_full_indices: "set (full_indices bl blocks) = {i. is_full bl blocks i}"
  by (auto simp: full_indices_def is_full_def)

lemma full_indices_bound: "i \<in> set (full_indices bl blocks) \<Longrightarrow> i < length blocks"
  by (simp add: set_full_indices is_full_def)

lemma length_full_indices: "length (full_indices bl blocks) \<le> length blocks"
  using length_filter_le [of "is_full bl blocks" "[0..<length blocks]"] by (simp add: full_indices_def)

lemma distinct_full_indices [simp]: "distinct (full_indices bl blocks)"
  by (simp add: full_indices_def)

lemma full_entries_append [simp]:
  "map (full_entry (blocks @ bs)) (full_indices bl blocks) = map (full_entry blocks) (full_indices bl blocks)"
  by (auto simp: full_entry_def nth_append dest: full_indices_bound)

lemma full_entry_new [simp]:
  "full_entry (blocks @ [b]) (length blocks) = (rd_s1 (sb_rolling b), rd_s2 (sb_rolling b), length blocks)"
  by (simp add: full_entry_def)

lemma succ_in_snoc:
  "distinct (xs @ [z]) \<Longrightarrow>
    succ_in (xs @ [z]) k = (if xs \<noteq> [] \<and> last xs = k then Some z else succ_in xs k)"
  by (induction xs k rule: succ_in.induct) auto

lemma populate_step_ok:
  assumes t: "tables_ok n bl blocks t" and len: "length blocks < n" "n < 2 ^ 32"
  shows "tables_ok n bl (blocks @ [b]) (populate_step bl (length blocks, b) t)"
proof (cases "sb_len b = bl")
  case False
  then show ?thesis
    using t by (auto simp: tables_ok_def populate_step_def full_indices_snoc is_full_snoc
        nth_append is_full_def)
next
  case True
  let ?fi = "full_indices bl blocks"
  have d: "distinct (?fi @ [length blocks])" using full_indices_bound by fastforce
  have prev: "?fi \<noteq> [] \<Longrightarrow> last ?fi < n" using full_indices_bound [OF last_in_set] len by fastforce
  have tag: "unat (s :: u16) < TAG_TABLE_SIZE" for s using unat_lt2p [of s] by (simp add: TAG_TABLE_SIZE_def)
  have "cl_inv (map (full_entry (blocks @ [b])) (full_indices bl (blocks @ [b])))
      (cl_insert (rd_s1 (sb_rolling b)) (rd_s2 (sb_rolling b)) (of_nat (length blocks)) (it_lookup t))"
    using t len length_full_indices [of bl blocks] True
    by (auto simp: full_indices_snoc tables_ok_def intro!: cl_insert_inv)
  moreover have "link_of (succ_in (?fi @ [length blocks]) k) =
      (if ?fi \<noteq> [] \<and> last ?fi = k then of_nat (length blocks) else link_of (succ_in ?fi k))" for k
    by (simp add: succ_in_snoc [OF d] link_of_def)
  ultimately show ?thesis
    using t True prev tag
    by (auto simp: tables_ok_def populate_step_def full_indices_snoc is_full_snoc nth_append is_full_def
        nth_list_update bh_contains_insert bithash.inv_ins Let_def)
qed

lemma populate_index_ok:
  assumes "tables_ok n bl [] t" "length blocks \<le> n" "n < 2 ^ 32"
  shows "tables_ok n bl blocks (fst (populate_index blocks bl t)) \<and>
    (snd (populate_index blocks bl t) \<longleftrightarrow> full_indices bl blocks \<noteq> [])"
proof -
  have "tables_ok n bl blocks (fold (populate_step bl) (enumerate 0 blocks) t)"
    using assms(2)
  proof (induction blocks rule: rev_induct)
    case Nil
    then show ?case using assms(1) by simp
  next
    case (snoc b blocks)
    then show ?case using assms(3) by (auto simp: enumerate_append_eq intro!: populate_step_ok)
  qed
  then show ?thesis by (auto simp: populate_index_def Let_def tables_ok_def)
qed

lemma empty_tables_ok:
  assumes "length tt = TAG_TABLE_SIZE" "bh_inv bh" "cl_inv [] cl"
  shows "tables_ok n bl [] \<lparr>it_tag_table = tt, it_bithash = bh, it_lookup = cl,
    it_next_match = replicate n NEXT_MATCH_NONE, it_prev_full = None\<rparr>"
  using assms by (simp add: tables_ok_def full_indices_def is_full_def link_of_def)

section \<open>The index invariant\<close>

definition index_inv :: "DeltaSignatureIndex \<Rightarrow> bool" where
  "index_inv ix =
    (length (di_blocks ix) < 2 ^ 32 - 1 \<and>
     length (di_consumed ix) = (length (di_blocks ix) + 63) div 64 \<and>
     (\<exists>prev. tables_ok (length (di_blocks ix)) (di_block_length ix) (di_blocks ix)
        \<lparr>it_tag_table = di_tag_table ix, it_bithash = di_bithash ix, it_lookup = di_lookup ix,
         it_next_match = di_next_match ix, it_prev_full = prev\<rparr>))"

lemma tables_surjective:
  "\<lparr>it_tag_table = it_tag_table t, it_bithash = it_bithash t, it_lookup = it_lookup t,
    it_next_match = it_next_match t, it_prev_full = it_prev_full t\<rparr> = (t :: index_tables)"
  by (cases t) simp

lemma index_invI:
  assumes "tables_ok (length (di_blocks ix)) (di_block_length ix) (di_blocks ix) t"
    "length (di_blocks ix) < 2 ^ 32 - 1" "length (di_consumed ix) = (length (di_blocks ix) + 63) div 64"
    "di_tag_table ix = it_tag_table t" "di_bithash ix = it_bithash t" "di_lookup ix = it_lookup t"
    "di_next_match ix = it_next_match t"
  shows "index_inv ix"
  using assms tables_surjective [of t] unfolding index_inv_def by metis

lemma from_signature_inv:
  assumes "from_signature sig alg = Some ix" "length (fs_blocks sig) < 2 ^ 32 - 1"
  shows "index_inv ix \<and> di_blocks ix = fs_blocks sig \<and> di_algorithm ix = alg \<and>
    di_block_length ix = unat (sl_block_length (fs_layout sig)) \<and>
    di_strong_length ix = sl_strong_sum_length (fs_layout sig) \<and>
    di_consumed ix = build_consumed_words (length (fs_blocks sig))"
proof -
  let ?bl = "unat (sl_block_length (fs_layout sig))" and ?n = "length (fs_blocks sig)"
  let ?t = "\<lparr>it_tag_table = replicate TAG_TABLE_SIZE False, it_bithash = bh_with_block_count ?n,
            it_lookup = cl_with_capacity ?n, it_next_match = replicate ?n NEXT_MATCH_NONE, it_prev_full = None\<rparr>"
  have "tables_ok ?n ?bl [] ?t"
    by (rule empty_tables_ok) (simp_all add: bh_with_block_count_inv cl_with_capacity_inv)
  then have ok: "tables_ok ?n ?bl (fs_blocks sig) (fst (populate_index (fs_blocks sig) ?bl ?t))"
    using populate_index_ok [of ?n ?bl ?t "fs_blocks sig"] assms(2) by simp
  obtain t b where p: "populate_index (fs_blocks sig) ?bl ?t = (t, b)" by fastforce
  show ?thesis
    using assms ok
    by (auto simp: from_signature_def Let_def p build_consumed_words_def split: if_splits intro!: index_invI [of _ t])
qed

lemma from_signature_some:
  "length (fs_blocks sig) < 2 ^ 32 \<Longrightarrow> from_signature sig alg = None \<longleftrightarrow>
    full_indices (unat (sl_block_length (fs_layout sig))) (fs_blocks sig) = []"
  using populate_index_ok [OF empty_tables_ok [OF length_replicate bh_with_block_count_inv cl_with_capacity_inv]]
  by (auto simp: from_signature_def Let_def split: prod.splits)
     (metis snd_conv order_refl)+

lemma is_consumed_bit:
  "index_inv ix \<Longrightarrow> i < length (di_blocks ix) \<Longrightarrow>
    is_consumed ix (of_nat i) \<longleftrightarrow> bit (di_consumed ix ! (i div 64)) (i mod 64)"
  by (simp add: is_consumed_def bit_test_drop index_inv_def unat_of_nat_u32 del: drop_bit_of_nat)

lemma mark_consumed_frame [simp]:
  "di_blocks (mark_consumed i ix) = di_blocks ix" "di_block_length (mark_consumed i ix) = di_block_length ix"
  "di_algorithm (mark_consumed i ix) = di_algorithm ix" "di_strong_length (mark_consumed i ix) = di_strong_length ix"
  "length (di_consumed (mark_consumed i ix)) = length (di_consumed ix)"
  by (simp_all add: mark_consumed_def Let_def)

lemma mark_consumed_inv [simp]: "index_inv ix \<Longrightarrow> index_inv (mark_consumed i ix)"
  by (simp add: index_inv_def mark_consumed_def Let_def)

lemma is_consumed_mark:
  assumes "index_inv ix" "i < length (di_blocks ix)" "j < length (di_blocks ix)"
  shows "is_consumed (mark_consumed (of_nat i) ix) (of_nat j) \<longleftrightarrow> is_consumed ix (of_nat j) \<or> i = j"
proof -
  have "i div 64 < length (di_consumed ix)" "i < 2 ^ 32"
    using assms div_64_bound by (auto simp: index_inv_def)
  then have "di_consumed (mark_consumed (of_nat i) ix) = bits_set i (di_consumed ix)"
    using assms by (simp add: mark_consumed_def Let_def unat_of_nat_u32)
  then show ?thesis
    using assms \<open>i div 64 < _\<close> by (simp add: is_consumed_bit bits_set_bit)
qed

lemma is_consumed_zero:
  assumes "index_inv ix" "\<And>w. w \<in> set (di_consumed ix) \<Longrightarrow> w = 0"
  shows "\<not> is_consumed ix i"
proof -
  have "di_consumed ix ! (unat i div 64) = 0" if "unat i < length (di_blocks ix)"
    using assms that div_64_bound by (auto simp: index_inv_def)
  then show ?thesis by (simp add: is_consumed_def Let_def)
qed

lemma rebuild_inv:
  assumes "index_inv ix" "length (fs_blocks sig) < 2 ^ 32 - 1" "rebuild sig alg ix = (ix', ok)"
  shows "index_inv ix' \<and> di_blocks ix' = fs_blocks sig \<and> di_algorithm ix' = alg \<and>
    di_block_length ix' = unat (sl_block_length (fs_layout sig)) \<and>
    di_strong_length ix' = sl_strong_sum_length (fs_layout sig) \<and>
    (ok \<longleftrightarrow> from_signature sig alg \<noteq> None) \<and> \<not> is_consumed ix' i"
proof -
  let ?bl = "unat (sl_block_length (fs_layout sig))" and ?n = "length (fs_blocks sig)"
  let ?t = "\<lparr>it_tag_table = map (\<lambda>_. False) (di_tag_table ix), it_bithash = bh_clear (di_bithash ix),
            it_lookup = cl_clear (di_lookup ix), it_next_match = replicate ?n NEXT_MATCH_NONE, it_prev_full = None\<rparr>"
  have "tables_ok ?n ?bl [] ?t"
    using assms(1) by (intro empty_tables_ok) (auto simp: index_inv_def tables_ok_def intro: cl_clear_inv)
  then have ok: "tables_ok ?n ?bl (fs_blocks sig) (fst (populate_index (fs_blocks sig) ?bl ?t))"
    "snd (populate_index (fs_blocks sig) ?bl ?t) \<longleftrightarrow> full_indices ?bl (fs_blocks sig) \<noteq> []"
    using populate_index_ok [of ?n ?bl ?t "fs_blocks sig"] assms(2) by simp_all
  obtain t b where p: "populate_index (fs_blocks sig) ?bl ?t = (t, b)" by fastforce
  have c: "length (di_consumed ix') = (?n + 63) div 64 \<and> (\<forall>w \<in> set (di_consumed ix'). w = 0)"
    using assms(3) by (auto simp: rebuild_def Let_def p build_consumed_words_def reset_consumed_def split: if_splits)
  have inv: "index_inv ix'"
    using assms(2,3) ok(1) c
    by (auto simp: rebuild_def Let_def p reset_consumed_def split: if_splits intro!: index_invI [of _ t])
  have "\<not> is_consumed ix' i" using is_consumed_zero [OF inv] c by blast
  moreover have "ok \<longleftrightarrow> from_signature sig alg \<noteq> None"
    using assms(2,3) ok(2) by (auto simp: rebuild_def Let_def p from_signature_some reset_consumed_def split: if_splits)
  ultimately show ?thesis
    using inv assms(3) by (auto simp: rebuild_def Let_def p reset_consumed_def split: if_splits)
qed

section \<open>What the probes return\<close>

text \<open>\<open>strong_match H ix i w\<close>: block \<open>i\<close> has the strong checksum of the window \<open>w\<close>.\<close>

definition strong_match :: "hash_crates \<Rightarrow> DeltaSignatureIndex \<Rightarrow> nat \<Rightarrow> bytes \<Rightarrow> bool" where
  "strong_match H ix i w \<longleftrightarrow>
    as_slice_db (compute_truncated H (di_algorithm ix) w (di_strong_length ix)) = as_slice_db (sb_strong (di_blocks ix ! i))"

lemma next_match_succ:
  assumes "index_inv ix"
  shows "next_match ix k = (if k < length (di_blocks ix)
    then succ_in (full_indices (di_block_length ix) (di_blocks ix)) k else None)"
proof -
  let ?fi = "full_indices (di_block_length ix) (di_blocks ix)"
  have mem: "succ_in xs k = Some j \<Longrightarrow> j \<in> set xs" for xs j
    by (induction xs k rule: succ_in.induct) (auto split: if_splits)
  have "of_nat j \<noteq> NEXT_MATCH_NONE \<and> unat (of_nat j :: u32) = j" if "succ_in ?fi k = Some j" for j
    using full_indices_bound [OF mem [OF that]] assms of_nat_neq_CHAIN_END [of j]
    by (auto simp: index_inv_def unat_of_nat_u32 NEXT_MATCH_NONE_def CHAIN_END_def)
  then show ?thesis
    using assms by (auto simp: next_match_def index_inv_def tables_ok_def link_of_def Let_def split: option.splits)
qed

lemma succ_in_full:
  "succ_in (full_indices bl blocks) k = Some j \<Longrightarrow> is_full bl blocks j \<and> k < j"
proof -
  have "succ_in xs k = Some j \<Longrightarrow> sorted xs \<Longrightarrow> distinct xs \<Longrightarrow> j \<in> set xs \<and> k < j" for xs
    by (induction xs k rule: succ_in.induct) (auto split: if_splits)
  then show "succ_in (full_indices bl blocks) k = Some j \<Longrightarrow> ?thesis"
    using set_full_indices by (fastforce simp: full_indices_def intro: sorted_wrt_filter)
qed

lemma find_all_index:
  assumes "index_inv ix"
  shows "find_all (di_lookup ix) s1 s2 = Some (filter (\<lambda>i. rd_s1 (sb_rolling (di_blocks ix ! i)) = s1 \<and>
    bucket_index (di_lookup ix) (rd_s2 (sb_rolling (di_blocks ix ! i))) = bucket_index (di_lookup ix) s2)
    (full_indices (di_block_length ix) (di_blocks ix)))"
proof -
  let ?fi = "full_indices (di_block_length ix) (di_blocks ix)"
  have "cl_inv (map (full_entry (di_blocks ix)) ?fi) (di_lookup ix)"
    using assms by (auto simp: index_inv_def tables_ok_def)
  note * = find_all_inv [OF this, of s1 s2]
  have "unat (of_nat i :: u32) = i" if "i \<in> set ?fi" for i
    using full_indices_bound [OF that] assms by (auto simp: index_inv_def unat_of_nat_u32)
  then show ?thesis unfolding *
    by (auto simp: filter_map o_def full_entry_def intro!: map_idI)
qed

lemma find_SomeI:
  "j \<in> set xs \<Longrightarrow> P j \<Longrightarrow> sorted xs \<Longrightarrow> \<exists>i \<le> j. find P xs = Some i"
  by (induction xs) auto

lemma find_SomeD: "find P xs = Some i \<Longrightarrow> i \<in> set xs \<and> P i"
  by (auto simp: find_Some_iff)

lemma find_match_bytes_sound:
  assumes "index_inv ix" "find_match_bytes_filtered H ix d w mb = Some i"
  shows "is_full (di_block_length ix) (di_blocks ix) i \<and> length w = di_block_length ix \<and>
    \<not> skip_block ix mb i \<and> strong_match H ix i w"
  using assms
  by (auto simp: find_match_bytes_filtered_def find_all_index probe_candidates_def Let_def strong_match_def
      set_full_indices dest!: find_SomeD split: if_splits)

lemma find_match_bytes_complete:
  assumes "index_inv ix" "is_full (di_block_length ix) (di_blocks ix) j" "length w = di_block_length ix"
    "\<not> skip_block ix mb j" "strong_match H ix j w" "d = sb_rolling (di_blocks ix ! j)"
  shows "\<exists>i \<le> j. find_match_bytes_filtered H ix d w mb = Some i"
proof -
  have "di_tag_table ix ! unat (rd_s1 d)" "bh_contains (di_bithash ix) (rd_value d)"
    using assms(1,2,6) by (auto simp: index_inv_def tables_ok_def)
  then show ?thesis
    using assms(1-5)
    by (auto simp: find_match_bytes_filtered_def find_all_index probe_candidates_def Let_def strong_match_def
        set_full_indices assms(6) full_indices_def is_full_def intro!: find_SomeI sorted_wrt_filter)
qed

lemma find_match_slices_append:
  "find_match_slices_filtered H ix d a b mb = find_match_bytes_filtered H ix d (a @ b) mb"
  by (simp add: find_match_slices_filtered_def find_match_bytes_filtered_def compute_truncated_slices_append)

lemma try_next_match_slices_append:
  "try_next_match_slices H ix k d a b = try_next_match_bytes H ix k d (a @ b)"
  by (simp add: try_next_match_slices_def try_next_match_bytes_def compute_truncated_slices_append Let_def split: option.split)

lemma try_next_match_sound:
  assumes "index_inv ix" "try_next_match_bytes H ix k d w = Some i"
  shows "is_full (di_block_length ix) (di_blocks ix) i \<and> length w = di_block_length ix \<and> k < i \<and>
    strong_match H ix i w"
  using assms succ_in_full
  by (fastforce simp: try_next_match_bytes_def next_match_succ Let_def strong_match_def
      split: option.splits if_splits)

lemma find_tail_match_sound:
  assumes "find_tail_match H ix d a b mb = Some i"
  shows "i < length (di_blocks ix) \<and> sb_len (di_blocks ix ! i) = length (a @ b) \<and>
    \<not> skip_block ix mb i \<and> strong_match H ix i (a @ b)"
  using assms
  by (auto simp: find_tail_match_def Let_def strong_match_def compute_truncated_slices_append
      dest!: find_SomeD split: if_splits)

lemma check_block_match_sound:
  assumes "check_block_match_slices H ix i d a b"
  shows "is_full (di_block_length ix) (di_blocks ix) i \<and> strong_match H ix i (a @ b)"
  using assms
  by (auto simp: check_block_match_slices_def Let_def strong_match_def compute_truncated_slices_append
      is_full_def split: if_splits)

lemma extend_loop_Suc:
  assumes "n < extend_loop arch H ix i target (Suc k)"
  shows "is_full (di_block_length ix) (di_blocks ix) i \<and> di_block_length ix \<le> length target \<and>
    strong_match H ix i (take (di_block_length ix) target) \<and>
    n \<le> extend_loop arch H ix (Suc i) (drop (di_block_length ix) target) k"
  using assms by (auto simp: Let_def is_full_def strong_match_def split: if_splits)

lemma extend_loop_sound:
  "j < extend_loop arch H ix i target k \<Longrightarrow>
    is_full (di_block_length ix) (di_blocks ix) (i + j) \<and> Suc j * di_block_length ix \<le> length target \<and>
    strong_match H ix (i + j) (take (di_block_length ix) (drop (j * di_block_length ix) target))"
proof (induction k arbitrary: i target j)
  case (Suc k)
  note step = extend_loop_Suc [OF Suc.prems]
  show ?case
  proof (cases j)
    case (Suc m)
    then have "m < extend_loop arch H ix (Suc i) (drop (di_block_length ix) target) k" using step by simp
    from Suc.IH [OF this] show ?thesis using step Suc by (auto simp: add.commute)
  qed (use step in simp)
qed simp

section \<open>Properties\<close>

lemma fold_mark_consumed:
  "index_inv ix \<Longrightarrow> index_inv (fold mark_consumed ks ix) \<and> di_blocks (fold mark_consumed ks ix) = di_blocks ix \<and>
    di_block_length (fold mark_consumed ks ix) = di_block_length ix"
  by (induction ks arbitrary: ix) auto

lemma fold_is_consumed:
  assumes "index_inv ix" "j < length (di_blocks ix)" "\<And>k. k \<in> set ks \<Longrightarrow> k < length (di_blocks ix)"
  shows "is_consumed (fold mark_consumed (map of_nat ks) ix) (of_nat j) \<longleftrightarrow> is_consumed ix (of_nat j) \<or> j \<in> set ks"
  using assms
proof (induction ks arbitrary: ix)
  case (Cons k ks)
  have "is_consumed (fold mark_consumed (map of_nat ks) (mark_consumed (of_nat k) ix)) (of_nat j) \<longleftrightarrow>
      is_consumed (mark_consumed (of_nat k) ix) (of_nat j) \<or> j \<in> set ks"
    using Cons.prems by (intro Cons.IH) auto
  also have "is_consumed (mark_consumed (of_nat k) ix) (of_nat j) \<longleftrightarrow> is_consumed ix (of_nat j) \<or> k = j"
    using Cons.prems by (intro is_consumed_mark) auto
  finally show ?case by auto
qed simp

text \<open>C10: probing the index is sound and complete.  Whatever blocks have been consumed since it was built, a
  block it returns has the window's length and strong checksum and is neither matched nor consumed;
  and a full block with the window's rolling and strong checksums that is neither is always found, or
  an earlier such block in its place.  The split-window and contiguous probes agree.\<close>

theorem index_finds_blocks:
  assumes "from_signature sig alg = Some ix0" "length (fs_blocks sig) < 2 ^ 32 - 1"
    "list_all (\<lambda>k. k < length (fs_blocks sig)) ks" "ix = fold mark_consumed (map of_nat ks) ix0"
  shows "(find_match_slices_filtered H ix d a b mb = Some i \<longrightarrow>
      i < length (fs_blocks sig) \<and> sb_len (fs_blocks sig ! i) = length (a @ b) \<and>
      length (a @ b) = unat (sl_block_length (fs_layout sig)) \<and> i \<notin> set ks \<and>
      (\<forall>m. mb = Some m \<longrightarrow> \<not> is_matched m i) \<and> strong_match H ix i (a @ b)) \<and>
    (j < length (fs_blocks sig) \<and> sb_len (fs_blocks sig ! j) = unat (sl_block_length (fs_layout sig)) \<and>
      length (a @ b) = sb_len (fs_blocks sig ! j) \<and> d = sb_rolling (fs_blocks sig ! j) \<and> j \<notin> set ks \<and>
      (\<forall>m. mb = Some m \<longrightarrow> \<not> is_matched m j) \<and> strong_match H ix j (a @ b) \<longrightarrow>
      (\<exists>i \<le> j. find_match_slices_filtered H ix d a b mb = Some i)) \<and>
    find_match_bytes_filtered H ix d (a @ b) mb = find_match_slices_filtered H ix d a b mb"
proof -
  have inv0: "index_inv ix0" and b0: "di_blocks ix0 = fs_blocks sig"
    and bl: "di_block_length ix0 = unat (sl_block_length (fs_layout sig))"
    and c0: "di_consumed ix0 = build_consumed_words (length (fs_blocks sig))"
    using from_signature_inv [OF assms(1,2)] by auto
  have inv: "index_inv ix" and ix: "di_blocks ix = fs_blocks sig" "di_block_length ix = di_block_length ix0"
    using fold_mark_consumed [OF inv0] b0 assms(4) by auto
  have "\<not> is_consumed ix0 k" for k
    using is_consumed_zero [OF inv0] by (simp add: c0 build_consumed_words_def)
  then have "k < length (fs_blocks sig) \<Longrightarrow> is_consumed ix (of_nat k) \<longleftrightarrow> k \<in> set ks" for k
    using fold_is_consumed [OF inv0, of k ks] assms(3,4) b0 by (auto simp: list_all_iff)
  then have skip: "k < length (fs_blocks sig) \<Longrightarrow>
      skip_block ix mb k \<longleftrightarrow> k \<in> set ks \<or> (\<exists>m. mb = Some m \<and> is_matched m k)" for k
    by (auto simp: skip_block_def split: option.splits)
  show ?thesis
    using find_match_bytes_sound [OF inv, of H d "a @ b" mb i]
      find_match_bytes_complete [OF inv, of j "a @ b" mb H d] skip
    by (auto simp: find_match_slices_append ix bl is_full_def)
qed

lemma toy_signature_indexed: "\<exists>ix. from_signature toy_signature Md4 = Some ix"
proof -
  have "sb_len (fs_blocks toy_signature ! 0) = 2"
    using toy_signature_blocks(2,3) nth_map [of 0 "fs_blocks toy_signature" sb_len] by simp
  then have "full_indices 2 (fs_blocks toy_signature) \<noteq> []"
    using set_full_indices [of 2 "fs_blocks toy_signature"] toy_signature_blocks(2) by (fastforce simp: is_full_def)
  then show ?thesis using from_signature_some [of toy_signature Md4] toy_signature_blocks(1,2) by auto
qed

lemma toy_block_1:
  "sb_len (fs_blocks toy_signature ! 1) = 2" "as_slice_db (sb_strong (fs_blocks toy_signature ! 1)) = [3, 4]"
  "sb_rolling (fs_blocks toy_signature ! 1) = rd_from_bytes Other_arch [3, 4]"
proof -
  have n: "map f (fs_blocks toy_signature) ! 1 = f (fs_blocks toy_signature ! 1)" for f :: "SignatureBlock \<Rightarrow> 'a"
    using toy_signature_blocks(2) by (intro nth_map) simp
  show "sb_len (fs_blocks toy_signature ! 1) = 2" "sb_rolling (fs_blocks toy_signature ! 1) = rd_from_bytes Other_arch [3, 4]"
    "as_slice_db (sb_strong (fs_blocks toy_signature ! 1)) = [3, 4]"
    using n [of sb_len] n [of sb_rolling] n [of "\<lambda>b. as_slice_db (sb_strong b)"] toy_signature_blocks(3-5) by simp_all
qed

theorem index_finds_blocks_witness:
  "\<exists>ix i. from_signature toy_signature Md4 = Some ix \<and> i \<noteq> 0 \<and>
    find_match_slices_filtered toy_crates (fold mark_consumed (map of_nat [0]) ix)
      (rd_from_bytes Other_arch [3, 4]) [3] [4] None = Some i"
proof -
  obtain ix0 where ix0: "from_signature toy_signature Md4 = Some ix0" using toy_signature_indexed by blast
  define ix where "ix = fold mark_consumed (map of_nat [0]) ix0"
  let ?d = "rd_from_bytes Other_arch [3, 4]"
  have n: "length (fs_blocks toy_signature) < 2 ^ 32 - 1" "list_all (\<lambda>k. k < length (fs_blocks toy_signature)) [0]"
    by (simp_all add: toy_signature_blocks(2))
  note t = index_finds_blocks [OF ix0 n ix_def, of toy_crates ?d "[3]" "[4]" None _ 1]
  have "strong_match toy_crates ix 1 [3, 4]"
    using from_signature_inv [OF ix0 n(1)] toy_block_1
    by (simp add: strong_match_def toy_compute ix_def toy_signature_blocks(1))
  then obtain i where i: "find_match_slices_filtered toy_crates ix ?d [3] [4] None = Some i"
    using t toy_block_1 by (auto simp: toy_signature_blocks(1,2))
  moreover have "i \<noteq> 0" using t i by auto
  ultimately show ?thesis using ix0 unfolding ix_def by blast
qed

text \<open>C20: rebuilding an index in place for another signature leaves nothing of the old one behind: the
  rebuilt index satisfies the invariant for the new signature, no block of it is consumed, it reports
  success exactly when a fresh index could be built, and its successor links are those of the fresh one.\<close>

theorem rebuild_is_fresh:
  assumes "index_inv ix" "length (fs_blocks sig) < 2 ^ 32 - 1" "rebuild sig alg ix = (ix', ok)"
  shows "index_inv ix' \<and> di_blocks ix' = fs_blocks sig \<and> (ok \<longleftrightarrow> from_signature sig alg \<noteq> None) \<and>
    \<not> is_consumed ix' i \<and>
    (\<forall>fresh k. from_signature sig alg = Some fresh \<longrightarrow>
       next_match ix' k = next_match fresh k \<and> di_block_length ix' = di_block_length fresh \<and>
       di_has_duplicate_blocks ix' = di_has_duplicate_blocks fresh)"
proof -
  note r = rebuild_inv [OF assms, of i]
  have dup: "di_has_duplicate_blocks ix' = detect_duplicate_blocks (fs_blocks sig) (unat (sl_block_length (fs_layout sig)))"
    using assms(3) by (auto simp: rebuild_def Let_def reset_consumed_def split: if_splits prod.splits)
  have "next_match ix' k = next_match fresh k \<and> di_block_length ix' = di_block_length fresh \<and>
       di_has_duplicate_blocks ix' = di_has_duplicate_blocks fresh" if "from_signature sig alg = Some fresh" for fresh k
  proof -
    have "di_has_duplicate_blocks fresh = di_has_duplicate_blocks ix'"
      using that dup by (auto simp: from_signature_def Let_def split: if_splits prod.splits)
    then show ?thesis using from_signature_inv [OF that assms(2)] r by (simp add: next_match_succ)
  qed
  then show ?thesis using r by simp
qed

theorem rebuild_is_fresh_witness:
  "\<exists>ix ix'. from_signature toy_signature Md4 = Some ix \<and>
    rebuild toy_signature Md4 (mark_consumed 1 ix) = (ix', True) \<and> \<not> is_consumed ix' 1"
proof -
  obtain ix where ix: "from_signature toy_signature Md4 = Some ix" using toy_signature_indexed by blast
  obtain ix' ok where r: "rebuild toy_signature Md4 (mark_consumed 1 ix) = (ix', ok)" by fastforce
  have n: "length (fs_blocks toy_signature) < 2 ^ 32 - 1" by (simp add: toy_signature_blocks(2))
  have "index_inv (mark_consumed 1 ix)" using from_signature_inv [OF ix n] by simp
  note rebuild_is_fresh [OF this n r, of 1]
  then have "ok = True" "\<not> is_consumed ix' 1" using ix by simp_all
  then show ?thesis using ix r by blast
qed

end
