(* ===== verification/Script.thy ===== *)
theory Script
  imports Index
begin

text \<open>
  Delta scripts, \<open>crates/matching/src/script.rs\<close>: the tokens, the script with its byte counts, and the
  application of a script to a basis file.  The seekable basis is its bytes and a position; the output
  is the list of the bytes written.
\<close>

section \<open>Tokens and scripts\<close>

datatype DeltaToken = Literal bytes | Copy u64 nat

definition byte_len :: "DeltaToken \<Rightarrow> nat" where
  "byte_len t = (case t of Literal bs \<Rightarrow> length bs | Copy _ len \<Rightarrow> len)"

definition is_literal :: "DeltaToken \<Rightarrow> bool" where
  "is_literal t = (case t of Literal _ \<Rightarrow> True | Copy _ _ \<Rightarrow> False)"

record DeltaScript =
  ds_tokens :: "DeltaToken list"
  ds_total_bytes :: u64
  ds_literal_bytes :: u64

definition copy_bytes :: "DeltaScript \<Rightarrow> u64" where
  "copy_bytes s =
    (if ds_literal_bytes s \<le> ds_total_bytes s then ds_total_bytes s - ds_literal_bytes s else 0)"

section \<open>Application\<close>

text \<open>The state of \<open>apply_delta\<close>: the position of the basis reader, the position it is known to have,
  and the output.\<close>

record apply_state =
  as_pos :: nat
  as_basis_position :: "u64 option"
  as_output :: bytes

definition checked_add :: "u64 \<Rightarrow> nat \<Rightarrow> u64 option" where
  "checked_add a n = (if unat a + n < 2 ^ 64 then Some (a + of_nat n) else None)"

definition checked_mul :: "u64 \<Rightarrow> nat \<Rightarrow> u64 option" where
  "checked_mul a n = (if unat a * n < 2 ^ 64 then Some (a * of_nat n) else None)"

text \<open>\<open>while remaining > 0\<close>: copy through a buffer of \<open>buffer_len\<close> bytes.\<close>

function copy_loop :: "bytes \<Rightarrow> nat \<Rightarrow> nat \<Rightarrow> apply_state \<Rightarrow> io_error + apply_state" where
  "copy_loop basis buffer_len remaining st =
    (if 0 < remaining \<and> 0 < buffer_len
     then let chunk = min remaining buffer_len
          in bindE (read_exact chunk (drop (as_pos st) basis)) (\<lambda>(bs, _).
             let st = st\<lparr>as_pos := as_pos st + chunk, as_output := as_output st @ bs\<rparr>
             in bindE (case as_basis_position st of
                         Some position \<Rightarrow> bindE (okOr InvalidInput (checked_add position chunk))
                           (\<lambda>p. Inr (st\<lparr>as_basis_position := Some p\<rparr>))
                       | None \<Rightarrow> Inr st)
                  (copy_loop basis buffer_len (remaining - chunk)))
     else Inr st)"
  by pat_completeness auto
termination by (relation "measure (\<lambda>(basis, buffer_len, remaining, st). remaining)") auto

declare copy_loop.simps [simp del]

definition apply_token :: "bytes \<Rightarrow> nat \<Rightarrow> DeltaToken \<Rightarrow> apply_state \<Rightarrow> io_error + apply_state" where
  "apply_token basis block_length token st =
    (case token of
       Literal bs \<Rightarrow> Inr (st\<lparr>as_output := as_output st @ bs\<rparr>)
     | Copy block_index len \<Rightarrow>
         bindE (okOr InvalidInput (checked_mul block_index block_length)) (\<lambda>offset.
           let st = (if as_basis_position st \<noteq> Some offset
                     then st\<lparr>as_pos := unat offset, as_basis_position := Some offset\<rparr> else st)
           in copy_loop basis (max block_length (8 * 1024)) len st))"

fun apply_tokens :: "bytes \<Rightarrow> nat \<Rightarrow> DeltaToken list \<Rightarrow> apply_state \<Rightarrow> io_error + apply_state" where
  "apply_tokens basis block_length [] st = Inr st"
| "apply_tokens basis block_length (token # tokens) st =
    bindE (apply_token basis block_length token st) (apply_tokens basis block_length tokens)"

definition apply_delta :: "bytes \<Rightarrow> DeltaSignatureIndex \<Rightarrow> DeltaScript \<Rightarrow> io_error + bytes" where
  "apply_delta basis ix script =
    bindE (apply_tokens basis (di_block_length ix) (ds_tokens script)
            \<lparr>as_pos = 0, as_basis_position = None, as_output = []\<rparr>)
      (\<lambda>st. Inr (as_output st))"

section \<open>What a script denotes\<close>

definition token_output :: "nat \<Rightarrow> bytes \<Rightarrow> DeltaToken \<Rightarrow> bytes" where
  "token_output bl basis t =
    (case t of Literal bs \<Rightarrow> bs | Copy i len \<Rightarrow> take len (drop (unat i * bl) basis))"

definition tokens_output :: "nat \<Rightarrow> bytes \<Rightarrow> DeltaToken list \<Rightarrow> bytes" where
  "tokens_output bl basis ts = concat (map (token_output bl basis) ts)"

definition token_valid :: "nat \<Rightarrow> bytes \<Rightarrow> DeltaToken \<Rightarrow> bool" where
  "token_valid bl basis t =
    (case t of Literal _ \<Rightarrow> True
     | Copy i len \<Rightarrow> unat i * bl < 2 ^ 64 \<and> (len = 0 \<or> unat i * bl + len \<le> length basis))"

definition literal_total :: "DeltaToken list \<Rightarrow> nat" where
  "literal_total ts = (\<Sum>t \<leftarrow> filter is_literal ts. byte_len t)"

lemma tokens_output_simps [simp]:
  "tokens_output bl basis [] = []"
  "tokens_output bl basis (t # ts) = token_output bl basis t @ tokens_output bl basis ts"
  "tokens_output bl basis (ts @ us) = tokens_output bl basis ts @ tokens_output bl basis us"
  by (simp_all add: tokens_output_def)

lemma literal_total_simps [simp]:
  "literal_total [] = 0"
  "literal_total (t # ts) = (if is_literal t then byte_len t else 0) + literal_total ts"
  "literal_total (ts @ us) = literal_total ts + literal_total us"
  by (simp_all add: literal_total_def)

lemma token_simps [simp]:
  "token_output bl basis (Literal bs) = bs"
  "token_output bl basis (Copy i len) = take len (drop (unat i * bl) basis)"
  "token_valid bl basis (Literal bs)"
  "is_literal (Literal bs)" "\<not> is_literal (Copy i len)" "byte_len (Literal bs) = length bs" "byte_len (Copy i len) = len"
  by (simp_all add: token_output_def token_valid_def is_literal_def byte_len_def)

lemma length_token_output: "token_valid bl basis t \<Longrightarrow> length (token_output bl basis t) = byte_len t"
  by (cases t) (auto simp: token_valid_def)

lemma length_tokens_output:
  "list_all (token_valid bl basis) ts \<Longrightarrow> length (tokens_output bl basis ts) = sum_list (map byte_len ts)"
  by (induction ts) (auto simp: length_token_output)

definition pos_known :: "apply_state \<Rightarrow> bool" where
  "pos_known st = (\<forall>p. as_basis_position st = Some p \<longrightarrow> as_pos st = unat p)"

lemma checked_add_Some: "unat a + n < 2 ^ 64 \<Longrightarrow> \<exists>p. checked_add a n = Some p \<and> unat p = unat a + n"
  by (simp add: checked_add_def unat_word_ariths unat_of_nat take_bit_nat_eq_self)

lemma checked_mul_Some: "unat a * n < 2 ^ 64 \<Longrightarrow> checked_mul a n = Some (a * of_nat n) \<and> unat (a * of_nat n) = unat a * n"
proof -
  assume a: "unat a * n < 2 ^ 64"
  have "unat (a * of_nat n) = (unat a * (n mod 2 ^ 64)) mod 2 ^ 64"
    by (simp add: unat_word_ariths unat_of_nat take_bit_eq_mod)
  also have "\<dots> = unat a * n" using a by (simp add: mod_mult_right_eq)
  finally show ?thesis using a by (simp add: checked_mul_def)
qed

lemma copy_loop_ok:
  assumes "as_pos st + len \<le> length basis" "length basis < 2 ^ 64" "pos_known st" "0 < buf" "as_basis_position st = Some p"
  shows "\<exists>st'. copy_loop basis buf len st = Inr st' \<and> pos_known st' \<and>
    as_output st' = as_output st @ take len (drop (as_pos st) basis)"
  using assms
proof (induction len arbitrary: st p rule: less_induct)
  case (less len)
  show ?case
  proof (cases "len = 0")
    case True
    then show ?thesis using less.prems by (subst copy_loop.simps) simp
  next
    case False
    let ?c = "min len buf"
    have pos: "as_pos st = unat p" using less.prems by (simp add: pos_known_def)
    then have "unat p + ?c < 2 ^ 64" using less.prems by simp
    then obtain q where q: "checked_add p ?c = Some q" "unat q = unat p + ?c"
      using checked_add_Some [of p ?c] by blast
    let ?st = "st\<lparr>as_pos := as_pos st + ?c, as_output := as_output st @ take ?c (drop (as_pos st) basis),
      as_basis_position := Some q\<rparr>"
    have "read_exact ?c (drop (as_pos st) basis) = Inr (take ?c (drop (as_pos st) basis), drop ?c (drop (as_pos st) basis))"
      using less.prems by (simp add: read_exact_def)
    then have step: "copy_loop basis buf len st = copy_loop basis buf (len - ?c) ?st"
      using False less.prems q by (subst copy_loop.simps) (simp add: Let_def)
    have "\<exists>st'. copy_loop basis buf (len - ?c) ?st = Inr st' \<and> pos_known st' \<and>
        as_output st' = as_output ?st @ take (len - ?c) (drop (as_pos ?st) basis)"
      using less.prems False q pos by (intro less.IH) (auto simp: pos_known_def)
    moreover have "take ?c (drop (as_pos st) basis) @ take (len - ?c) (drop (as_pos st + ?c) basis) =
        take len (drop (as_pos st) basis)"
      using take_add [of ?c "len - ?c" "drop (as_pos st) basis"] by (simp add: add.commute)
    ultimately show ?thesis using step by simp
  qed
qed

lemma copy_loop_eof:
  assumes "length basis < as_pos st + len" "0 < len" "0 < buf"
  shows "\<exists>e. copy_loop basis buf len st = Inl e"
  using assms
proof (induction len arbitrary: st rule: less_induct)
  case (less len)
  let ?c = "min len buf"
  show ?case
  proof (cases "as_pos st + ?c \<le> length basis")
    case False
    then have "\<not> ?c \<le> length (drop (as_pos st) basis)" using less.prems by auto
    then show ?thesis using less.prems by (subst copy_loop.simps) (simp add: read_exact_def Let_def)
  next
    case True
    then have "buf < len" using less.prems by (auto simp: min_def split: if_splits)
    then have "\<exists>e. copy_loop basis buf (len - ?c) s = Inl e" if "as_pos s = as_pos st + ?c" for s
      using less.prems that by (intro less.IH) auto
    then show ?thesis
      using less.prems True by (subst copy_loop.simps)
        (auto simp: read_exact_def Let_def okOr_def split: option.splits)
  qed
qed

lemma apply_token_ok:
  assumes "token_valid bl basis t" "length basis < 2 ^ 64" "pos_known st"
  shows "\<exists>st'. apply_token basis bl t st = Inr st' \<and> pos_known st' \<and>
    as_output st' = as_output st @ token_output bl basis t"
proof (cases t)
  case (Literal bs)
  then show ?thesis using assms(3) by (simp add: apply_token_def pos_known_def)
next
  case (Copy i len)
  then have v: "unat i * bl < 2 ^ 64" "len = 0 \<or> unat i * bl + len \<le> length basis"
    using assms(1) by (auto simp: token_valid_def)
  let ?o = "i * of_nat bl"
  let ?st = "if as_basis_position st \<noteq> Some ?o then st\<lparr>as_pos := unat ?o, as_basis_position := Some ?o\<rparr> else st"
  have st: "pos_known ?st" "as_pos ?st = unat i * bl" "as_output ?st = as_output st" "as_basis_position ?st = Some ?o"
    using assms(3) checked_mul_Some [OF v(1)] by (auto simp: pos_known_def)
  have "\<exists>st'. copy_loop basis (max bl (8 * 1024)) len ?st = Inr st' \<and> pos_known st' \<and>
      as_output st' = as_output ?st @ take len (drop (as_pos ?st) basis)"
  proof (cases "len = 0")
    case True
    then show ?thesis using st(1) by (subst copy_loop.simps) simp
  next
    case False
    then show ?thesis using st v(2) assms(2) by (intro copy_loop_ok [where p = ?o]) auto
  qed
  then show ?thesis
    using Copy st checked_mul_Some [OF v(1)] by (simp add: apply_token_def)
qed

lemma apply_token_error:
  assumes "\<not> token_valid bl basis t" "pos_known st"
  shows "\<exists>e. apply_token basis bl t st = Inl e"
proof -
  obtain i len where t: "t = Copy i len" using assms(1) by (cases t) auto
  show ?thesis
  proof (cases "unat i * bl < 2 ^ 64")
    case False
    then show ?thesis by (simp add: t apply_token_def checked_mul_def)
  next
    case True
    then have "length basis < unat i * bl + len" "0 < len" using assms(1) t by (auto simp: token_valid_def)
    then show ?thesis
      using checked_mul_Some [OF True] assms(2)
      by (auto simp: t apply_token_def Let_def pos_known_def intro!: copy_loop_eof)
  qed
qed

lemma apply_tokens_total:
  assumes "length basis < 2 ^ 64" "pos_known st"
  shows "if list_all (token_valid bl basis) ts
    then \<exists>st'. apply_tokens basis bl ts st = Inr st' \<and> as_output st' = as_output st @ tokens_output bl basis ts
    else \<exists>e. apply_tokens basis bl ts st = Inl e"
  using assms(2)
proof (induction ts arbitrary: st)
  case (Cons t ts)
  show ?case
  proof (cases "token_valid bl basis t")
    case True
    then obtain st' where "apply_token basis bl t st = Inr st'" "pos_known st'"
      "as_output st' = as_output st @ token_output bl basis t"
      using apply_token_ok [OF True assms(1) Cons.prems] by blast
    then show ?thesis using Cons.IH [of st'] True by auto
  next
    case False
    then show ?thesis using apply_token_error [OF False Cons.prems] by auto
  qed
qed simp

text \<open>C13: applying a delta script writes its literals and the named ranges of the basis, in order, through
  any buffer size and with every redundant seek skipped; it fails, and only then, when a copy token
  names a range outside the basis or an offset beyond 64 bits.\<close>

theorem apply_delta_denotes:
  assumes "length basis < 2 ^ 64"
  shows "if list_all (token_valid (di_block_length ix) basis) (ds_tokens script)
    then apply_delta basis ix script = Inr (tokens_output (di_block_length ix) basis (ds_tokens script))
    else \<exists>e. apply_delta basis ix script = Inl e"
  using apply_tokens_total [OF assms, of "\<lparr>as_pos = 0, as_basis_position = None, as_output = []\<rparr>"
      "di_block_length ix" "ds_tokens script"]
  by (auto simp: apply_delta_def pos_known_def split: if_splits)

theorem apply_delta_denotes_witness:
  "\<exists>ix. di_block_length ix = 2 \<and> apply_delta [1, 2, 3, 4, 5] ix
     \<lparr>ds_tokens = [Copy 1 2, Literal [9], Copy 2 1], ds_total_bytes = 4, ds_literal_bytes = 1\<rparr> = Inr [3, 4, 9, 5]"
proof -
  define ix :: DeltaSignatureIndex where "ix = undefined\<lparr>di_block_length := 2\<rparr>"
  have "di_block_length ix = 2" by (simp add: ix_def)
  then show ?thesis
    using apply_delta_denotes [of "[1, 2, 3, 4, 5]" ix
      "\<lparr>ds_tokens = [Copy 1 2, Literal [9], Copy 2 1], ds_total_bytes = 4, ds_literal_bytes = 1\<rparr>"]
    by (intro exI [of _ ix]) (simp add: token_valid_def)
qed

end
