(* ===== verification/Generator.thy ===== *)
theory Generator
  imports Script Ring_Buffer
begin

text \<open>
  Delta generation, \<open>crates/matching/src/generator.rs\<close>: the sequential scan with its chained matches
  (\<open>generate_with_prune\<close>), the consecutive-match scan (\<open>generate_gated\<close>), and the parallel scan over
  overlapping stripes with its merge (\<open>generate_chunked\<close>).  The reader is the list of the results its
  successive \<open>read\<close> calls return.  The \<open>debug_log!\<close> counters are left out.
\<close>

section \<open>Reading\<close>

type_synonym reader = "(io_error + bytes) list"

text \<open>The loops end because every round consumes input.  They carry fuel, and \<open>Gen_Fuel\<close> is its
  exhaustion; the scan starts with one unit more than the bytes it can read.  \<open>Gen_Panic\<close> is an
  out-of-range slice.\<close>

datatype gen_error = Gen_Io io_error | Gen_Fuel | Gen_Panic

definition CHUNK_SIZE :: nat where "CHUNK_SIZE = 32 * 1024"
definition DEFAULT_BUFFER_LEN :: nat where "DEFAULT_BUFFER_LEN = 128 * 1024"
definition MIN_PARALLEL_CHUNK_BYTES :: nat where "MIN_PARALLEL_CHUNK_BYTES = 1024 * 1024"

record DeltaGenerator =
  dg_buffer_len :: nat
  dg_consecutive_match_needed :: nat
  dg_updating_basis_file :: bool

definition dg_new :: DeltaGenerator where
  "dg_new = \<lparr>dg_buffer_len = DEFAULT_BUFFER_LEN, dg_consecutive_match_needed = 1, dg_updating_basis_file = False\<rparr>"

definition with_buffer_len :: "nat \<Rightarrow> DeltaGenerator \<Rightarrow> DeltaGenerator" where
  "with_buffer_len n g = g\<lparr>dg_buffer_len := max n 1\<rparr>"

definition with_consecutive_match_needed :: "nat \<Rightarrow> DeltaGenerator \<Rightarrow> DeltaGenerator" where
  "with_consecutive_match_needed n g = g\<lparr>dg_consecutive_match_needed := max n 1\<rparr>"

definition with_updating_basis_file :: "bool \<Rightarrow> DeltaGenerator \<Rightarrow> DeltaGenerator" where
  "with_updating_basis_file b g = g\<lparr>dg_updating_basis_file := b\<rparr>"

text \<open>The local variables of a scan.  \<open>gs_buf\<close> is the unread part of \<open>buffer\<close>.\<close>

record gen_state =
  gs_window :: RingBuffer
  gs_pending :: bytes
  gs_rolling :: RollingChecksum
  gs_tokens :: "DeltaToken list"
  gs_total :: u64
  gs_literal :: u64
  gs_offset :: u64
  gs_want_i :: "nat option"
  gs_matched :: MatchedBlocks
  gs_index :: DeltaSignatureIndex
  gs_buf :: bytes
  gs_reader :: reader

definition fill_buffer :: "gen_state \<Rightarrow> gen_error + gen_state" where
  "fill_buffer gs =
    (if gs_buf gs = []
     then case gs_reader gs of
            [] \<Rightarrow> Inr gs
          | Inl e # _ \<Rightarrow> Inl (Gen_Io e)
          | Inr bs # rest \<Rightarrow> Inr (gs\<lparr>gs_buf := bs, gs_reader := rest\<rparr>)
     else Inr gs)"

lemma fill_buffer_reads:
  "fill_buffer gs = Inr gs' \<Longrightarrow> gs_window gs' = gs_window gs \<and>
    (gs_buf gs = [] \<and> gs_reader gs = Inr (gs_buf gs') # gs_reader gs' \<or> gs' = gs)"
  by (auto simp: fill_buffer_def split: if_splits list.splits sum.splits)

text \<open>\<open>while filled < block_len\<close>: refill the window in bulk.\<close>

function refill_window :: "nat \<Rightarrow> nat \<Rightarrow> gen_state \<Rightarrow> gen_error + nat \<times> gen_state" where
  "refill_window block_len filled gs =
    (if filled < block_len
     then bindE (fill_buffer gs) (\<lambda>gs.
       if gs_buf gs = [] then Inr (filled, gs)
       else let take' = min (length (gs_buf gs)) (block_len - filled)
            in refill_window block_len (filled + take')
                 (gs\<lparr>gs_window := fst (extend_from_slice (take take' (gs_buf gs)) (gs_window gs)),
                     gs_buf := drop take' (gs_buf gs)\<rparr>))
     else Inr (filled, gs))"
  by pat_completeness auto
termination
  by (relation "measure (\<lambda>(block_len, filled, gs). block_len - filled)")
     (auto simp: min_def simp flip: length_greater_0_conv)

declare refill_window.simps [simp del]

text \<open>\<open>while let Some(byte) = window.pop_front()\<close>\<close>

function drain_window :: "RingBuffer \<Rightarrow> bytes \<Rightarrow> bytes" where
  "drain_window window pending =
    (case pop_front window of
       (window, Some byte) \<Rightarrow> drain_window window (pending @ [byte])
     | (_, None) \<Rightarrow> pending)"
  by pat_completeness auto
termination
  by (relation "measure (\<lambda>(window, pending). rb_len window)")
     (auto simp: pop_front_def Let_def split: if_splits)

declare drain_window.simps [simp del]

section \<open>The sequential scan\<close>

definition flush_seq_match_run ::
  "DeltaToken list \<Rightarrow> u64 option \<Rightarrow> nat \<Rightarrow> nat \<Rightarrow> DeltaToken list \<times> u64 option \<times> nat" where
  "flush_seq_match_run tokens start run_len block_len =
    (case start of
       Some start_idx \<Rightarrow>
         (if 0 < run_len then tokens @ [Copy start_idx (run_len * block_len)] else tokens, None, 0)
     | None \<Rightarrow> (tokens, None, 0))"

definition literal_flush_cadence :: "nat \<Rightarrow> nat" where
  "literal_flush_cadence block_len = block_len + CHUNK_SIZE"

definition flush_pending :: "gen_state \<Rightarrow> gen_state" where
  "flush_pending gs =
    (if gs_pending gs \<noteq> []
     then gs\<lparr>gs_literal := gs_literal gs + of_nat (length (gs_pending gs)),
             gs_total := gs_total gs + of_nat (length (gs_pending gs)),
             gs_pending := [], gs_tokens := gs_tokens gs @ [Literal (gs_pending gs)]\<rparr>
     else gs)"

definition basis_offset_ok :: "DeltaGenerator \<Rightarrow> DeltaSignatureIndex \<Rightarrow> nat \<Rightarrow> nat \<Rightarrow> u64 \<Rightarrow> bool" where
  "basis_offset_ok g ix block_len idx cursor =
    (if \<not> dg_updating_basis_file g then True
     else let basis_offset = sb_index (di_blocks ix ! idx) * of_nat block_len in cursor \<le> basis_offset)"

definition guard_offset :: "DeltaGenerator \<Rightarrow> nat \<Rightarrow> gen_state \<Rightarrow> nat option \<Rightarrow> nat option" where
  "guard_offset g block_len gs matched =
    (case matched of
       Some idx \<Rightarrow> if basis_offset_ok g (gs_index gs) block_len idx (gs_offset gs) then Some idx else None
     | None \<Rightarrow> None)"

text \<open>The head of the outer loop: one byte enters the window.\<close>

definition push_byte :: "nat \<Rightarrow> u8 \<Rightarrow> gen_state \<Rightarrow> gen_error + gen_state" where
  "push_byte block_len byte gs =
    (case push_back byte (gs_window gs) of
       (window, Some outgoing_byte) \<Rightarrow>
         (case roll (gs_rolling gs) outgoing_byte byte of
            Inl _ \<Rightarrow> Inl (Gen_Io InvalidData)
          | Inr rolling \<Rightarrow>
              let gs = gs\<lparr>gs_window := window, gs_rolling := rolling,
                          gs_pending := gs_pending gs @ [outgoing_byte], gs_offset := gs_offset gs + 1\<rparr>
              in Inr (if literal_flush_cadence block_len \<le> length (gs_pending gs) then flush_pending gs else gs))
     | (window, None) \<Rightarrow>
         Inr (gs\<lparr>gs_window := window, gs_rolling := update_byte (gs_rolling gs) byte\<rparr>))"

definition prune_filter :: "bool \<Rightarrow> gen_state \<Rightarrow> MatchedBlocks option" where
  "prune_filter prune gs = (if prune then Some (gs_matched gs) else None)"

definition probe_hint :: "hash_crates \<Rightarrow> bool \<Rightarrow> gen_state \<Rightarrow> nat option" where
  "probe_hint H prune gs =
    (let digest = rc_digest (gs_rolling gs); (first, second) = as_slices (gs_window gs)
     in case gs_want_i gs of
          Some hint \<Rightarrow>
            if check_block_match_slices H (gs_index gs) hint digest first second then Some hint
            else find_match_slices_filtered H (gs_index gs) digest first second (prune_filter prune gs)
        | None \<Rightarrow> find_match_slices_filtered H (gs_index gs) digest first second (prune_filter prune gs))"

definition probe_adjacent :: "hash_crates \<Rightarrow> bool \<Rightarrow> nat \<Rightarrow> gen_state \<Rightarrow> nat option" where
  "probe_adjacent H prune last_matched gs =
    (let adj_digest = rc_digest (gs_rolling gs); (f, s) = as_slices (gs_window gs)
     in case try_next_match_slices H (gs_index gs) last_matched adj_digest f s of
          Some next_idx \<Rightarrow> Some next_idx
        | None \<Rightarrow> find_match_slices_filtered H (gs_index gs) adj_digest f s (prune_filter prune gs))"

text \<open>The checksum of a refilled window, from scratch.\<close>

definition rehash_window :: "target_arch \<Rightarrow> gen_state \<Rightarrow> gen_state" where
  "rehash_window arch gs =
    (let (s1, s2) = as_slices (gs_window gs);
         rolling = update arch (gs_rolling gs) s1;
         rolling = (if s2 \<noteq> [] then update arch rolling s2 else rolling)
     in gs\<lparr>gs_rolling := rolling\<rparr>)"

text \<open>\<open>match run_start_idx\<close>: the block joins the open run, or the run is flushed and a new one starts.\<close>

definition join_run ::
  "DeltaToken list \<Rightarrow> u64 option \<Rightarrow> nat \<Rightarrow> nat \<Rightarrow> u64 \<Rightarrow> DeltaToken list \<times> u64 option \<times> nat" where
  "join_run tokens run_start_idx run_len block_len block_basis_idx =
    (case run_start_idx of
       Some start_idx \<Rightarrow>
         if start_idx + of_nat run_len = block_basis_idx then (tokens, run_start_idx, run_len + 1)
         else (case flush_seq_match_run tokens run_start_idx run_len block_len of
                 (tokens, _) \<Rightarrow> (tokens, Some block_basis_idx, 1))
     | None \<Rightarrow> (case flush_seq_match_run tokens run_start_idx run_len block_len of
                 (tokens, _) \<Rightarrow> (tokens, Some block_basis_idx, 1)))"

text \<open>The first half of a round of the match loop: the literals before the match are flushed, the block
  joins a run, and the window is emptied.\<close>

definition accept_match ::
  "bool \<Rightarrow> nat \<Rightarrow> nat \<Rightarrow> gen_state \<times> u64 option \<times> nat \<Rightarrow> gen_state \<times> u64 option \<times> nat" where
  "accept_match prune block_len match_idx st =
    (let (gs, run_start_idx, run_len) = st;
         (gs, run_start_idx, run_len) =
           (if gs_pending gs \<noteq> []
            then let (tokens, run_start_idx, run_len) = flush_seq_match_run (gs_tokens gs) run_start_idx run_len block_len
                 in (flush_pending (gs\<lparr>gs_tokens := tokens\<rparr>), run_start_idx, run_len)
            else (gs, run_start_idx, run_len));
         block = di_blocks (gs_index gs) ! match_idx;
         block_basis_idx = sb_index block;
         (tokens, run_start_idx, run_len) =
           join_run (gs_tokens gs) run_start_idx run_len block_len block_basis_idx
     in (gs\<lparr>gs_tokens := tokens, gs_total := gs_total gs + of_nat (sb_len block),
             gs_matched := mark_matched match_idx (gs_matched gs),
             gs_index := (if prune then mark_consumed (of_nat match_idx) (gs_index gs) else gs_index gs),
             gs_want_i := next_match (gs_index gs) match_idx,
             gs_window := rb_clear (gs_window gs), gs_rolling := rc_reset (gs_rolling gs),
             gs_offset := gs_offset gs + of_nat block_len\<rparr>, run_start_idx, run_len))"

fun match_loop ::
  "DeltaGenerator \<Rightarrow> target_arch \<Rightarrow> hash_crates \<Rightarrow> bool \<Rightarrow> nat \<Rightarrow> nat \<Rightarrow> nat \<Rightarrow>
   gen_state \<times> u64 option \<times> nat \<Rightarrow> gen_error + gen_state \<times> u64 option \<times> nat" where
  "match_loop g arch H prune block_len 0 match_idx st = Inl Gen_Fuel"
| "match_loop g arch H prune block_len (Suc fuel) match_idx st =
    (case accept_match prune block_len match_idx st of (gs, run_start_idx, run_len) \<Rightarrow>
      bindE (refill_window block_len 0 gs) (\<lambda>(filled, gs).
        if filled < block_len then Inr (gs, run_start_idx, run_len)
        else let gs = rehash_window arch gs
             in case guard_offset g block_len gs (probe_adjacent H prune match_idx gs) of
                  Some next_idx \<Rightarrow> match_loop g arch H prune block_len fuel next_idx (gs, run_start_idx, run_len)
                | None \<Rightarrow> Inr (gs, run_start_idx, run_len)))"

fun scan_loop ::
  "DeltaGenerator \<Rightarrow> target_arch \<Rightarrow> hash_crates \<Rightarrow> bool \<Rightarrow> nat \<Rightarrow> nat \<Rightarrow> gen_state \<Rightarrow> gen_error + gen_state" where
  "scan_loop g arch H prune block_len 0 gs = Inl Gen_Fuel"
| "scan_loop g arch H prune block_len (Suc fuel) gs =
    bindE (fill_buffer gs) (\<lambda>gs.
      case gs_buf gs of
        [] \<Rightarrow> Inr gs
      | byte # buf \<Rightarrow>
          bindE (push_byte block_len byte (gs\<lparr>gs_buf := buf\<rparr>)) (\<lambda>gs.
            if \<not> rb_is_full (gs_window gs) then scan_loop g arch H prune block_len fuel gs
            else case guard_offset g block_len gs (probe_hint H prune gs) of
                None \<Rightarrow> scan_loop g arch H prune block_len fuel gs
              | Some match_idx \<Rightarrow>
                  bindE (match_loop g arch H prune block_len fuel match_idx (gs, None, 0))
                    (\<lambda>(gs, run_start_idx, run_len).
                      scan_loop g arch H prune block_len fuel
                        (gs\<lparr>gs_tokens := fst (flush_seq_match_run (gs_tokens gs) run_start_idx run_len block_len)\<rparr>))))"

definition reader_size :: "reader \<Rightarrow> nat" where
  "reader_size r = (\<Sum>x \<leftarrow> r. case x of Inl _ \<Rightarrow> 0 | Inr bs \<Rightarrow> length bs)"

definition initial_state :: "DeltaSignatureIndex \<Rightarrow> reader \<Rightarrow> gen_state" where
  "initial_state ix reader =
    \<lparr>gs_window = rb_with_capacity (di_block_length ix), gs_pending = [], gs_rolling = rc_new, gs_tokens = [],
     gs_total = 0, gs_literal = 0, gs_offset = 0, gs_want_i = Some 0,
     gs_matched = mb_with_block_count (length (di_blocks ix)), gs_index = ix, gs_buf = [], gs_reader = reader\<rparr>"

definition finish_scan :: "gen_state \<Rightarrow> DeltaScript \<times> DeltaSignatureIndex" where
  "finish_scan gs =
    (let gs = flush_pending (gs\<lparr>gs_pending := drain_window (gs_window gs) (gs_pending gs)\<rparr>)
     in (\<lparr>ds_tokens = gs_tokens gs, ds_total_bytes = gs_total gs, ds_literal_bytes = gs_literal gs\<rparr>, gs_index gs))"

text \<open>The index is returned because a scan marks the blocks it consumed.\<close>

definition generate_with_prune ::
  "DeltaGenerator \<Rightarrow> target_arch \<Rightarrow> hash_crates \<Rightarrow> reader \<Rightarrow> DeltaSignatureIndex \<Rightarrow> bool \<Rightarrow>
   gen_error + DeltaScript \<times> DeltaSignatureIndex" where
  "generate_with_prune g arch H reader ix prune =
    (let ix = (if prune then reset_consumed ix else ix)
     in bindE (scan_loop g arch H prune (di_block_length ix) (Suc (reader_size reader)) (initial_state ix reader))
          (\<lambda>gs. Inr (finish_scan gs)))"

section \<open>The consecutive-match scan\<close>

definition push_byte_gated :: "u8 \<Rightarrow> gen_state \<Rightarrow> gen_error + gen_state" where
  "push_byte_gated byte gs =
    (case push_back byte (gs_window gs) of
       (window, Some outgoing_byte) \<Rightarrow>
         (case roll (gs_rolling gs) outgoing_byte byte of
            Inl _ \<Rightarrow> Inl (Gen_Io InvalidData)
          | Inr rolling \<Rightarrow>
              Inr (gs\<lparr>gs_window := window, gs_rolling := rolling,
                      gs_pending := gs_pending gs @ [outgoing_byte], gs_offset := gs_offset gs + 1\<rparr>))
     | (window, None) \<Rightarrow>
         Inr (gs\<lparr>gs_window := window, gs_rolling := update_byte (gs_rolling gs) byte\<rparr>))"

definition probe_gated :: "hash_crates \<Rightarrow> gen_state \<Rightarrow> nat option" where
  "probe_gated H gs =
    (let digest = rc_digest (gs_rolling gs); (first, second) = as_slices (gs_window gs)
     in find_match_slices_filtered H (gs_index gs) digest first second (Some (gs_matched gs)))"

text \<open>The first half of a round of the run loop.  \<open>lone_src\<close> keeps the bytes of the first block.\<close>

definition accept_gated ::
  "nat \<Rightarrow> nat \<Rightarrow> gen_state \<times> u64 list \<times> bytes \<Rightarrow> gen_state \<times> u64 list \<times> bytes" where
  "accept_gated block_len match_idx st =
    (let (gs, run, lone_src) = st;
         basis_idx = sb_index (di_blocks (gs_index gs) ! match_idx);
         lone_src = (if run = [] then let (s1, s2) = as_slices (gs_window gs) in lone_src @ s1 @ s2 else lone_src)
     in (gs\<lparr>gs_matched := mark_matched match_idx (gs_matched gs),
             gs_index := mark_consumed (of_nat match_idx) (gs_index gs),
             gs_window := rb_clear (gs_window gs), gs_rolling := rc_reset (gs_rolling gs),
             gs_offset := gs_offset gs + of_nat block_len\<rparr>, run @ [basis_idx], lone_src))"

fun gated_loop ::
  "DeltaGenerator \<Rightarrow> target_arch \<Rightarrow> hash_crates \<Rightarrow> nat \<Rightarrow> nat \<Rightarrow> nat \<Rightarrow>
   gen_state \<times> u64 list \<times> bytes \<Rightarrow> gen_error + gen_state \<times> u64 list \<times> bytes" where
  "gated_loop g arch H block_len 0 match_idx st = Inl Gen_Fuel"
| "gated_loop g arch H block_len (Suc fuel) match_idx st =
    (case accept_gated block_len match_idx st of (gs, run, lone_src) \<Rightarrow>
      bindE (refill_window block_len 0 gs) (\<lambda>(filled, gs).
        if filled < block_len then Inr (gs, run, lone_src)
        else let gs = rehash_window arch gs
             in case guard_offset g block_len gs (probe_gated H gs) of
                  Some next_idx \<Rightarrow> gated_loop g arch H block_len fuel next_idx (gs, run, lone_src)
                | None \<Rightarrow> Inr (gs, run, lone_src)))"

definition flush_gated_run :: "nat \<Rightarrow> gen_state \<times> u64 list \<times> bytes \<Rightarrow> gen_state" where
  "flush_gated_run block_len st =
    (let (gs, run, lone_src) = st
     in if 2 \<le> length run
        then foldl (\<lambda>gs idx. gs\<lparr>gs_total := gs_total gs + of_nat block_len,
                                 gs_tokens := gs_tokens gs @ [Copy idx block_len]\<rparr>) gs run
        else if run \<noteq> []
        then gs\<lparr>gs_literal := gs_literal gs + of_nat (length lone_src),
                gs_total := gs_total gs + of_nat (length lone_src),
                gs_tokens := gs_tokens gs @ [Literal lone_src]\<rparr>
        else gs)"

fun gated_scan ::
  "DeltaGenerator \<Rightarrow> target_arch \<Rightarrow> hash_crates \<Rightarrow> nat \<Rightarrow> nat \<Rightarrow> gen_state \<Rightarrow> gen_error + gen_state" where
  "gated_scan g arch H block_len 0 gs = Inl Gen_Fuel"
| "gated_scan g arch H block_len (Suc fuel) gs =
    bindE (fill_buffer gs) (\<lambda>gs.
      case gs_buf gs of
        [] \<Rightarrow> Inr gs
      | byte # buf \<Rightarrow>
          bindE (push_byte_gated byte (gs\<lparr>gs_buf := buf\<rparr>)) (\<lambda>gs.
            if \<not> rb_is_full (gs_window gs) then gated_scan g arch H block_len fuel gs
            else case guard_offset g block_len gs (probe_gated H gs) of
                None \<Rightarrow> gated_scan g arch H block_len fuel gs
              | Some match_idx \<Rightarrow>
                  bindE (gated_loop g arch H block_len fuel match_idx (flush_pending gs, [], []))
                    (\<lambda>st. gated_scan g arch H block_len fuel (flush_gated_run block_len st))))"

definition generate_gated ::
  "DeltaGenerator \<Rightarrow> target_arch \<Rightarrow> hash_crates \<Rightarrow> reader \<Rightarrow> DeltaSignatureIndex \<Rightarrow>
   gen_error + DeltaScript \<times> DeltaSignatureIndex" where
  "generate_gated g arch H reader ix =
    (let ix = reset_consumed ix
     in bindE (gated_scan g arch H (di_block_length ix) (Suc (reader_size reader)) (initial_state ix reader))
          (\<lambda>gs. Inr (finish_scan gs)))"

definition generate ::
  "DeltaGenerator \<Rightarrow> target_arch \<Rightarrow> hash_crates \<Rightarrow> reader \<Rightarrow> DeltaSignatureIndex \<Rightarrow>
   gen_error + DeltaScript \<times> DeltaSignatureIndex" where
  "generate g arch H reader ix =
    (if 2 \<le> dg_consecutive_match_needed g then generate_gated g arch H reader ix
     else generate_with_prune g arch H reader ix True)"

definition generate_delta ::
  "target_arch \<Rightarrow> hash_crates \<Rightarrow> reader \<Rightarrow> DeltaSignatureIndex \<Rightarrow> gen_error + DeltaScript \<times> DeltaSignatureIndex" where
  "generate_delta arch H reader ix = generate dg_new arch H reader ix"

section \<open>The parallel scan\<close>

text \<open>\<open>push_split_literal_run\<close>.  The cadence is positive, so the loop ends.\<close>

function split_literal_run :: "nat \<Rightarrow> bytes \<Rightarrow> DeltaToken list" where
  "split_literal_run cadence run =
    (if cadence < length run \<and> 0 < cadence
     then Literal (take cadence run) # split_literal_run cadence (drop cadence run)
     else [Literal run])"
  by pat_completeness auto
termination by (relation "measure (\<lambda>(cadence, run). length run)") auto

declare split_literal_run.simps [simp del]

definition push_split_literal_run :: "DeltaToken list \<Rightarrow> bytes \<Rightarrow> nat \<Rightarrow> DeltaToken list" where
  "push_split_literal_run out run cadence =
    (if run = [] then out
     else if length run \<le> cadence then out @ [Literal run]
     else out @ split_literal_run cadence run)"

definition resegment_step ::
  "nat \<Rightarrow> DeltaToken \<Rightarrow> DeltaToken list \<times> bytes option \<Rightarrow> DeltaToken list \<times> bytes option" where
  "resegment_step cadence token st =
    (case st of (out, run) \<Rightarrow>
      case token of
        Literal bs \<Rightarrow> (case run of Some acc \<Rightarrow> (out, Some (acc @ bs)) | None \<Rightarrow> (out, Some bs))
      | Copy _ _ \<Rightarrow> (case run of Some acc \<Rightarrow> (push_split_literal_run out acc cadence @ [token], None)
                    | None \<Rightarrow> (out @ [token], None)))"

definition resegment_literals :: "DeltaToken list \<Rightarrow> nat \<Rightarrow> DeltaToken list" where
  "resegment_literals tokens block_len =
    (let cadence = literal_flush_cadence block_len;
         (out, run) = fold (resegment_step cadence) tokens ([], None)
     in case run of Some acc \<Rightarrow> push_split_literal_run out acc cadence | None \<Rightarrow> out)"

text \<open>Source offsets are kept as naturals; they never exceed the length of the source.\<close>

record CopyRun =
  cr_source_start :: nat
  cr_basis_index :: u64
  cr_len :: nat

text \<open>The sort order of the merge: earliest start first, the longer run on a tie.  The source sorts
  unstably; runs equal under the order keep their order here.\<close>

fun insert_run :: "CopyRun \<Rightarrow> CopyRun list \<Rightarrow> CopyRun list" where
  "insert_run r [] = [r]"
| "insert_run r (x # xs) =
    (if cr_source_start r < cr_source_start x \<or> cr_source_start r = cr_source_start x \<and> cr_len x \<le> cr_len r
     then r # x # xs else x # insert_run r xs)"

definition sort_runs :: "CopyRun list \<Rightarrow> CopyRun list" where
  "sort_runs rs = foldr insert_run rs []"

function merge_loop :: "bytes \<Rightarrow> CopyRun list \<Rightarrow> nat \<Rightarrow> gen_error + DeltaToken list" where
  "merge_loop source runs cursor =
    (if cursor < length source
     then case dropWhile (\<lambda>run. cr_source_start run < cursor) runs of
            [] \<Rightarrow> Inr [Literal (slice cursor (length source) source)]
          | run # rest \<Rightarrow>
              if cr_source_start run = cursor
              then bindE (merge_loop source rest (cursor + cr_len run))
                     (\<lambda>ts. Inr (Copy (cr_basis_index run) (cr_len run) # ts))
              else if length source < cr_source_start run then Inl Gen_Panic
              else bindE (merge_loop source (run # rest) (cr_source_start run))
                     (\<lambda>ts. Inr (Literal (slice cursor (cr_source_start run) source) # ts))
     else Inr [])"
  by pat_completeness auto
termination
proof (relation "measures [\<lambda>(source, runs, cursor). length runs, \<lambda>(source, runs, cursor). length source - cursor]", goal_cases)
  case (2 source runs cursor run rest)
  then have "length (dropWhile (\<lambda>run. cr_source_start run < cursor) runs) = Suc (length rest)" by (metis length_Cons)
  then show ?case using length_dropWhile_le [of "\<lambda>run. cr_source_start run < cursor" runs] by simp
next
  case (3 source runs cursor run rest)
  then have l: "length (dropWhile (\<lambda>run. cr_source_start run < cursor) runs) = Suc (length rest)" by (metis length_Cons)
  have "\<not> cr_source_start run < cursor" using 3(2) by (metis hd_dropWhile list.discI list.sel(1))
  then show ?case using l 3 length_dropWhile_le [of "\<lambda>run. cr_source_start run < cursor" runs] by auto
qed simp

declare merge_loop.simps [simp del]

definition merge_copy_runs :: "bytes \<Rightarrow> CopyRun list \<Rightarrow> nat \<Rightarrow> gen_error + DeltaScript" where
  "merge_copy_runs source runs block_len =
    bindE (merge_loop source (sort_runs runs) 0) (\<lambda>tokens.
      let tokens = resegment_literals tokens block_len;
          literal_bytes = (\<Sum>token \<leftarrow> filter is_literal tokens. of_nat (byte_len token))
      in Inr \<lparr>ds_tokens = tokens, ds_total_bytes = of_nat (length source), ds_literal_bytes = literal_bytes\<rparr>)"

text \<open>The inner loop that splits a coalesced copy into one run per block.\<close>

function expand_copy :: "nat \<Rightarrow> nat \<Rightarrow> u64 \<Rightarrow> nat \<Rightarrow> CopyRun list" where
  "expand_copy block_len start basis_index len =
    (if 0 < len \<and> 0 < block_len
     then let this = min block_len len
          in \<lparr>cr_source_start = start, cr_basis_index = basis_index, cr_len = this\<rparr>
             # expand_copy block_len (start + this) (basis_index + 1) (len - this)
     else [])"
  by pat_completeness auto
termination by (relation "measure (\<lambda>(block_len, start, basis_index, len). len)") auto

declare expand_copy.simps [simp del]

fun lift_copies :: "nat \<Rightarrow> nat \<Rightarrow> DeltaToken list \<Rightarrow> CopyRun list" where
  "lift_copies block_len off [] = []"
| "lift_copies block_len off (token # tokens) =
    (case token of Copy basis_index len \<Rightarrow> expand_copy block_len off basis_index len | Literal _ \<Rightarrow> [])
    @ lift_copies block_len (off + byte_len token) tokens"

text \<open>\<open>Cursor::new(source)\<close>, read through a buffer.\<close>

function cursor_reader :: "nat \<Rightarrow> bytes \<Rightarrow> reader" where
  "cursor_reader buffer_len source =
    (if source \<noteq> [] \<and> 0 < buffer_len
     then Inr (take buffer_len source) # cursor_reader buffer_len (drop buffer_len source)
     else [])"
  by pat_completeness auto
termination by (relation "measure (\<lambda>(buffer_len, source). length source)") (auto simp flip: length_greater_0_conv)

declare cursor_reader.simps [simp del]

definition cursor_of :: "DeltaGenerator \<Rightarrow> DeltaSignatureIndex \<Rightarrow> bytes \<Rightarrow> reader" where
  "cursor_of g ix source = cursor_reader (max (dg_buffer_len g) (di_block_length ix)) source"

definition stripes :: "nat \<Rightarrow> nat \<Rightarrow> nat \<Rightarrow> (nat \<times> nat) list" where
  "stripes n chunks block_len =
    (let stripe = max (n div chunks) 1
     in takeWhile (\<lambda>(start, _). start < n)
          (map (\<lambda>k. let start = k * stripe
                    in (start, if k + 1 = chunks then n else min (start + stripe + block_len) n)) [0..<chunks]))"

fun scan_stripes ::
  "DeltaGenerator \<Rightarrow> target_arch \<Rightarrow> hash_crates \<Rightarrow> DeltaSignatureIndex \<Rightarrow> bytes \<Rightarrow> (nat \<times> nat) list \<Rightarrow>
   gen_error + CopyRun list" where
  "scan_stripes g arch H ix source [] = Inr []"
| "scan_stripes g arch H ix source ((s, e) # ranges) =
    bindE (generate_with_prune g arch H (cursor_of g ix (slice s e source)) ix False) (\<lambda>(script, _).
      bindE (scan_stripes g arch H ix source ranges) (\<lambda>runs.
        Inr (lift_copies (di_block_length ix) s (ds_tokens script) @ runs)))"

definition generate_chunked ::
  "DeltaGenerator \<Rightarrow> target_arch \<Rightarrow> hash_crates \<Rightarrow> bytes \<Rightarrow> DeltaSignatureIndex \<Rightarrow> nat \<Rightarrow>
   gen_error + DeltaScript \<times> DeltaSignatureIndex" where
  "generate_chunked g arch H source ix max_chunks =
    (if 2 \<le> dg_consecutive_match_needed g then generate_gated g arch H (cursor_of g ix source) ix
     else if dg_updating_basis_file g then generate g arch H (cursor_of g ix source) ix
     else
       let block_len = di_block_length ix;
           n = length source;
           min_chunk = max (max MIN_PARALLEL_CHUNK_BYTES (min (block_len * 64) USIZE_MAX)) 1;
           feasible = max (n div min_chunk) 1;
           chunks = min feasible (max max_chunks 1)
       in if chunks \<le> 1 \<or> block_len = 0 then generate g arch H (cursor_of g ix source) ix
          else let ix = reset_consumed ix
               in bindE (scan_stripes g arch H ix source (stripes n chunks block_len)) (\<lambda>runs.
                    bindE (merge_copy_runs source runs block_len) (\<lambda>script. Inr (script, ix))))"

section \<open>Readers and windows\<close>

definition reader_ok :: "reader \<Rightarrow> bool" where
  "reader_ok r = list_all (\<lambda>x. case x of Inl _ \<Rightarrow> False | Inr bs \<Rightarrow> bs \<noteq> []) r"

definition reader_bytes :: "reader \<Rightarrow> bytes" where
  "reader_bytes r = concat (map (\<lambda>x. case x of Inl _ \<Rightarrow> [] | Inr bs \<Rightarrow> bs) r)"

definition unread :: "gen_state \<Rightarrow> bytes" where
  "unread gs = gs_buf gs @ reader_bytes (gs_reader gs)"

lemma reader_simps [simp]:
  "reader_bytes [] = []" "reader_bytes (Inr bs # r) = bs @ reader_bytes r"
  "reader_ok []" "reader_ok (Inr bs # r) \<longleftrightarrow> bs \<noteq> [] \<and> reader_ok r" "\<not> reader_ok (Inl e # r)"
  by (simp_all add: reader_bytes_def reader_ok_def)

lemma reader_size_bytes: "reader_size r = length (reader_bytes r)"
  by (induction r) (auto simp: reader_size_def reader_bytes_def split: sum.splits)

lemma fill_buffer_ok:
  assumes "reader_ok (gs_reader gs)"
  obtains b r where "fill_buffer gs = Inr (gs\<lparr>gs_buf := b, gs_reader := r\<rparr>)" "reader_ok r"
    "b @ reader_bytes r = unread gs" "b = [] \<Longrightarrow> gs_buf gs = [] \<and> gs_reader gs = [] \<and> r = []"
proof (cases "gs_buf gs = []")
  case False
  have "fill_buffer gs = Inr (gs\<lparr>gs_buf := gs_buf gs, gs_reader := gs_reader gs\<rparr>)"
    using False by (simp add: fill_buffer_def)
  then show ?thesis using that [of "gs_reader gs" "gs_buf gs"] assms False by (simp add: unread_def)
next
  case True
  show ?thesis
  proof (cases "gs_reader gs")
    case Nil
    then have "fill_buffer gs = Inr (gs\<lparr>gs_buf := [], gs_reader := []\<rparr>)"
      using True by (cases gs) (simp add: fill_buffer_def)
    then show ?thesis using that [of "[]" "[]"] Nil True by (simp add: unread_def)
  next
    case (Cons x r)
    then obtain bs where x: "x = Inr bs" "bs \<noteq> []" "reader_ok r" using assms by (cases x) auto
    then show ?thesis using that [of r bs] Cons True by (simp add: fill_buffer_def unread_def)
  qed
qed

definition refilled :: "nat \<Rightarrow> gen_state \<Rightarrow> nat \<Rightarrow> gen_state \<Rightarrow> bool" where
  "refilled bl gs n gs' =
    (gs' = gs\<lparr>gs_window := gs_window gs', gs_buf := gs_buf gs', gs_reader := gs_reader gs'\<rparr> \<and>
     reader_ok (gs_reader gs') \<and> rb_inv (gs_window gs') \<and> rb_capacity (gs_window gs') = bl \<and>
     length (rb_list (gs_window gs')) = n \<and> n \<le> bl \<and>
     rb_list (gs_window gs') @ unread gs' = rb_list (gs_window gs) @ unread gs \<and>
     (n < bl \<longrightarrow> gs_buf gs' = [] \<and> gs_reader gs' = []))"

lemma refill_window_ok:
  assumes "reader_ok (gs_reader gs)" "rb_inv (gs_window gs)" "length (rb_list (gs_window gs)) = filled"
    "filled \<le> bl" "rb_capacity (gs_window gs) = bl"
  shows "\<exists>n gs'. refill_window bl filled gs = Inr (n, gs') \<and> refilled bl gs n gs'"
  using assms
proof (induction "bl - filled" arbitrary: filled gs rule: less_induct)
  case less
  show ?case
  proof (cases "filled < bl")
    case False
    then have "refill_window bl filled gs = Inr (filled, gs)"
      by (subst refill_window.simps) simp
    then show ?thesis using less.prems False by (simp add: refilled_def)
  next
    case True
    obtain b r where f: "fill_buffer gs = Inr (gs\<lparr>gs_buf := b, gs_reader := r\<rparr>)" "reader_ok r"
      "b @ reader_bytes r = unread gs" "b = [] \<Longrightarrow> r = []"
      using fill_buffer_ok [OF less.prems(1)] by metis
    show ?thesis
    proof (cases "b = []")
      case True
      have "refill_window bl filled gs = Inr (filled, gs\<lparr>gs_buf := [], gs_reader := []\<rparr>)"
        using \<open>filled < bl\<close> f True by (subst refill_window.simps) simp
      then show ?thesis using less.prems f True by (simp add: refilled_def unread_def)
    next
      case False
      let ?n = "min (length b) (bl - filled)"
      obtain w k where e: "extend_from_slice (take ?n b) (gs_window gs) = (w, k)" by fastforce
      have w: "rb_inv w" "rb_capacity w = bl" "rb_list w = rb_list (gs_window gs) @ take ?n b"
        using extend_from_slice_refines [OF less.prems(2) e] less.prems by auto
      let ?gs = "gs\<lparr>gs_reader := r, gs_window := w, gs_buf := drop ?n b\<rparr>"
      have n: "0 < ?n" using False True by simp
      have step: "refill_window bl filled gs = refill_window bl (filled + ?n) ?gs"
        using True f(1) False e by (subst refill_window.simps) (simp add: Let_def)
      have "bl - (filled + ?n) < bl - filled" using n True by linarith
      then have "\<exists>n' gs'. refill_window bl (filled + ?n) ?gs = Inr (n', gs') \<and> refilled bl ?gs n' gs'"
        using less.prems f(2) w True by (intro less.hyps) auto
      moreover have "rb_list w @ unread ?gs = rb_list (gs_window gs) @ unread gs"
      proof -
        have "take ?n b @ drop ?n b @ reader_bytes r = b @ reader_bytes r"
          using append_take_drop_id [of ?n b] by (simp only: append_assoc [symmetric])
        then show ?thesis using f(3) w(3) by (simp add: unread_def)
      qed
      ultimately show ?thesis unfolding step by (auto simp: refilled_def)
    qed
  qed
qed

lemma drain_window_list: "rb_inv w \<Longrightarrow> drain_window w pending = pending @ rb_list w"
proof (induction w pending rule: drain_window.induct)
  case (1 w pending)
  obtain w' r where p: "pop_front w = (w', r)" by fastforce
  note ref = pop_front_refines [OF 1(2) p]
  show ?case
  proof (cases "rb_list w = []")
    case True
    then show ?thesis using p ref by (subst drain_window.simps) simp
  next
    case False
    then have r: "r = Some (hd (rb_list w))" using ref by simp
    have "drain_window w' (pending @ [hd (rb_list w)]) = (pending @ [hd (rb_list w)]) @ rb_list w'"
      using 1(1) [OF p [symmetric] r] ref by simp
    then show ?thesis using p r ref False by (subst drain_window.simps) simp
  qed
qed

section \<open>The scan invariant\<close>

text \<open>What the scan relies on: the index belongs to the basis, and no window of the source has the strong
  checksum of a block it differs from.\<close>

text \<open>The copies a scan emits consist of whole blocks.\<close>

definition block_token :: "nat \<Rightarrow> bytes \<Rightarrow> DeltaToken \<Rightarrow> bool" where
  "block_token bl basis t =
    (token_valid bl basis t \<and> (case t of Copy _ len \<Rightarrow> 0 < len \<and> bl dvd len | Literal _ \<Rightarrow> True))"

lemma block_token_Literal [simp]: "block_token bl basis (Literal bs)"
  by (simp add: block_token_def)

lemma block_tokens_valid: "list_all (block_token bl basis) ts \<Longrightarrow> list_all (token_valid bl basis) ts"
  by (auto simp: list_all_iff block_token_def)

lemma length_block_tokens:
  "list_all (block_token bl basis) ts \<Longrightarrow> length (tokens_output bl basis ts) = sum_list (map byte_len ts)"
  by (rule length_tokens_output) (rule block_tokens_valid)

definition scan_env :: "hash_crates \<Rightarrow> bytes \<Rightarrow> bytes \<Rightarrow> DeltaSignatureIndex \<Rightarrow> bool" where
  "scan_env H basis source ix =
    (index_inv ix \<and> 0 < di_block_length ix \<and> di_block_length ix < 2 ^ 32 \<and>
     length source < 2 ^ 64 \<and> length basis < 2 ^ 64 \<and>
     (\<forall>i. is_full (di_block_length ix) (di_blocks ix) i \<longrightarrow>
        sb_index (di_blocks ix ! i) = of_nat i \<and>
        (\<forall>us w vs. source = us @ w @ vs \<and> length w = di_block_length ix \<and> strong_match H ix i w \<longrightarrow>
           Suc i * di_block_length ix \<le> length basis \<and> w = take (di_block_length ix) (drop (i * di_block_length ix) basis))))"

lemma scan_env_mark [simp]: "scan_env H basis source ix \<Longrightarrow> scan_env H basis source (mark_consumed i ix)"
  by (simp add: scan_env_def strong_match_def)

text \<open>A script that can be applied in place: no copy reads below the position reached.\<close>

fun forward :: "nat \<Rightarrow> nat \<Rightarrow> DeltaToken list \<Rightarrow> bool" where
  "forward bl pos [] = True"
| "forward bl pos (Literal bs # ts) = forward bl (pos + length bs) ts"
| "forward bl pos (Copy i len # ts) = (pos \<le> unat i * bl \<and> forward bl (pos + len) ts)"

lemma forward_append:
  "forward bl pos (ts @ us) \<longleftrightarrow> forward bl pos ts \<and> forward bl (pos + sum_list (map byte_len ts)) us"
  by (induction bl pos ts rule: forward.induct) (auto simp: add.assoc)

definition scan_ok :: "DeltaGenerator \<Rightarrow> hash_crates \<Rightarrow> bytes \<Rightarrow> bytes \<Rightarrow> nat \<Rightarrow> gen_state \<Rightarrow> bool" where
  "scan_ok g H basis source bl gs =
    (scan_env H basis source (gs_index gs) \<and> di_block_length (gs_index gs) = bl \<and>
     rb_inv (gs_window gs) \<and> rb_capacity (gs_window gs) = bl \<and> reader_ok (gs_reader gs) \<and>
     tokens_output bl basis (gs_tokens gs) @ gs_pending gs @ rb_list (gs_window gs) @ unread gs = source \<and>
     list_all (block_token bl basis) (gs_tokens gs) \<and>
     gs_total gs = of_nat (length (tokens_output bl basis (gs_tokens gs))) \<and>
     gs_literal gs = of_nat (literal_total (gs_tokens gs)) \<and>
     gs_offset gs = of_nat (length (tokens_output bl basis (gs_tokens gs) @ gs_pending gs)) \<and>
     (dg_updating_basis_file g \<longrightarrow> forward bl 0 (gs_tokens gs)) \<and>
     (gs_rolling gs = rsum (rb_list (gs_window gs)) \<or> gs_buf gs = [] \<and> gs_reader gs = []))"

lemma scan_env_bound: "scan_env H basis source ix \<Longrightarrow>
    index_inv ix \<and> 0 < di_block_length ix \<and> di_block_length ix < 2 ^ 32 \<and> length source < 2 ^ 64 \<and> length basis < 2 ^ 64"
  by (simp add: scan_env_def)

lemma unat_of_nat_u64: "n < 2 ^ 64 \<Longrightarrow> unat (of_nat n :: u64) = n"
  by (simp add: unat_of_nat take_bit_nat_eq_self)

lemma scan_env_block:
  assumes "scan_env H basis source ix" "bl = di_block_length ix" "is_full bl (di_blocks ix) i"
    "source = us @ w @ vs" "length w = bl" "strong_match H ix i w"
  shows "sb_index (di_blocks ix ! i) = of_nat i" "unat (sb_index (di_blocks ix ! i)) = i"
    "Suc i * bl \<le> length basis" "w = take bl (drop (i * bl) basis)" "sb_len (di_blocks ix ! i) = bl"
proof -
  show a: "sb_index (di_blocks ix ! i) = of_nat i" "Suc i * bl \<le> length basis"
    "w = take bl (drop (i * bl) basis)" "sb_len (di_blocks ix ! i) = bl"
    using assms unfolding scan_env_def by (blast, blast, blast, simp add: is_full_def)
  have "0 < bl" using scan_env_bound [OF assms(1)] assms(2) by simp
  then have "i \<le> Suc i * bl" by (cases bl) simp_all
  also note a(2)
  also have "length basis < 2 ^ 64" using scan_env_bound [OF assms(1)] by simp
  finally have "i < 2 ^ 64" .
  then show "unat (sb_index (di_blocks ix ! i)) = i" using a(1) by (simp add: unat_of_nat_u64)
qed

lemma flush_pending_ok: "scan_ok g H basis source bl gs \<Longrightarrow> scan_ok g H basis source bl (flush_pending gs)"
  by (auto simp: scan_ok_def flush_pending_def forward_append unread_def)

lemma flush_pending_simps [simp]:
  "gs_window (flush_pending gs) = gs_window gs" "gs_buf (flush_pending gs) = gs_buf gs"
  "gs_reader (flush_pending gs) = gs_reader gs" "gs_pending (flush_pending gs) = []"
  "gs_index (flush_pending gs) = gs_index gs" "unread (flush_pending gs) = unread gs"
  "gs_offset (flush_pending gs) = gs_offset gs"
  by (auto simp: flush_pending_def unread_def)

lemma push_byte_ok:
  assumes "scan_ok g H basis source bl gs" "gs_buf gs = byte # buf"
  shows "\<exists>gs'. push_byte bl byte (gs\<lparr>gs_buf := buf\<rparr>) = Inr gs' \<and> scan_ok g H basis source bl gs' \<and>
    gs_rolling gs' = rsum (rb_list (gs_window gs')) \<and> length (unread gs') < length (unread gs)"
proof -
  have ok: "rb_inv (gs_window gs)" "rb_capacity (gs_window gs) = bl" "gs_rolling gs = rsum (rb_list (gs_window gs))"
    "bl < 2 ^ 32" "0 < bl"
    using assms scan_env_bound [of H basis source "gs_index gs"] by (auto simp: scan_ok_def)
  obtain w r where p: "push_back byte (gs_window gs) = (w, r)" by fastforce
  note ref = push_back_refines [OF ok(1) p]
  show ?thesis
  proof (cases "length (rb_list (gs_window gs)) < bl")
    case True
    then show ?thesis
      using ref ok(2,3) p assms by (auto simp: push_byte_def scan_ok_def unread_def)
  next
    case False
    then obtain x xs where x: "rb_list (gs_window gs) = x # xs" using ok(5) by (cases "rb_list (gs_window gs)") auto
    then have w: "rb_inv w" "rb_capacity w = bl" "rb_list w = xs @ [byte]" "r = Some x" using ref False ok(2) by auto
    have "length xs < 2 ^ 32 - 1"
      using x ok length_rb_list [OF ok(1)] by (auto simp: rb_inv_def rb_capacity_def)
    then have roll: "roll (gs_rolling gs) x byte = Inr (rsum (xs @ [byte]))" using ok(3) x roll_rsum by simp
    let ?gs = "gs\<lparr>gs_buf := buf, gs_window := w, gs_rolling := rsum (xs @ [byte]),
                  gs_pending := gs_pending gs @ [x], gs_offset := gs_offset gs + 1\<rparr>"
    have "scan_ok g H basis source bl ?gs"
      using assms w x by (auto simp: scan_ok_def unread_def)
    moreover have "push_byte bl byte (gs\<lparr>gs_buf := buf\<rparr>) =
        Inr (if literal_flush_cadence bl \<le> length (gs_pending ?gs) then flush_pending ?gs else ?gs)"
      using p w(4) roll by (simp add: push_byte_def Let_def)
    moreover have "gs_rolling (flush_pending ?gs) = rsum (xs @ [byte])" by (simp add: flush_pending_def)
    moreover have "length (unread ?gs) < length (unread gs)" using assms(2) by (simp add: unread_def)
    ultimately show ?thesis using w(3) flush_pending_ok [of g H basis source bl ?gs] by auto
  qed
qed

section \<open>Matches\<close>

definition flushed :: "DeltaToken list \<Rightarrow> u64 option \<Rightarrow> nat \<Rightarrow> nat \<Rightarrow> DeltaToken list" where
  "flushed ts rs rl bl = fst (flush_seq_match_run ts rs rl bl)"

lemma flushed_simps [simp]:
  "flushed ts None rl bl = ts"
  "0 < rl \<Longrightarrow> flushed ts (Some s) rl bl = ts @ [Copy s (rl * bl)]"
  by (simp_all add: flushed_def flush_seq_match_run_def)

lemma join_run_tokens:
  assumes j: "join_run ts rs rl bl (of_nat i) = (ts', rs', rl')"
    and v: "list_all (block_token bl basis) (flushed ts rs rl bl)" and rs: "rs \<noteq> None \<longrightarrow> 0 < rl"
    and bounds: "Suc i * bl \<le> length basis" "length basis < 2 ^ 64" "0 < bl" "i < 2 ^ 64"
  shows "rs' \<noteq> None \<and> 0 < rl'"
    and "tokens_output bl basis (flushed ts' rs' rl' bl) = tokens_output bl basis (flushed ts rs rl bl) @ take bl (drop (i * bl) basis)"
    and "list_all (block_token bl basis) (flushed ts' rs' rl' bl)"
    and "literal_total (flushed ts' rs' rl' bl) = literal_total (flushed ts rs rl bl)"
    and "forward bl 0 (flushed ts rs rl bl) \<Longrightarrow> length (tokens_output bl basis (flushed ts rs rl bl)) \<le> i * bl \<Longrightarrow>
      forward bl 0 (flushed ts' rs' rl' bl)"
proof -
  have new: "block_token bl basis (Copy (of_nat i) bl)" using bounds by (simp add: block_token_def token_valid_def unat_of_nat_u64)
  have ui: "unat (of_nat i :: u64) = i" using bounds(4) by (rule unat_of_nat_u64)
  have "(\<exists>s. rs = Some s \<and> unat s + rl = i \<and> ts' = ts \<and> rs' = Some s \<and> rl' = Suc rl) \<or>
      (ts' = flushed ts rs rl bl \<and> rs' = Some (of_nat i) \<and> rl' = 1)"
  proof (cases rs)
    case None
    then show ?thesis using j by (auto simp: join_run_def flushed_def flush_seq_match_run_def split: prod.splits)
  next
    case (Some s)
    then have "unat s * bl + rl * bl \<le> length basis" using v rs bounds(3) by (auto simp: block_token_def token_valid_def)
    then have "(unat s + rl) * bl < 2 ^ 64" using bounds(2) by (simp add: algebra_simps)
    moreover have "unat s + rl \<le> (unat s + rl) * bl" using bounds(3) by (cases bl) simp_all
    ultimately have "unat s + rl < 2 ^ 64" by (rule le_less_trans [rotated])
    then have "unat (s + of_nat rl) = unat s + rl" by (simp add: unat_word_ariths unat_of_nat take_bit_nat_eq_self)
    then show ?thesis
      using j Some ui by (auto simp: join_run_def flushed_def split: prod.splits if_splits)
  qed
  then consider (ext) s where "rs = Some s" "unat s + rl = i" "ts' = ts" "rs' = Some s" "rl' = Suc rl"
    | (new) "ts' = flushed ts rs rl bl" "rs' = Some (of_nat i)" "rl' = 1" by blast
  note cases = this
  show "rs' \<noteq> None \<and> 0 < rl'" by (rule cases) auto
  have split: "take (bl + rl * bl) (drop (unat s * bl) basis) =
      take (rl * bl) (drop (unat s * bl) basis) @ take bl (drop ((unat s + rl) * bl) basis)" for s :: u64
    using take_add [of "rl * bl" bl "drop (unat s * bl) basis"] by (simp add: algebra_simps)
  show "tokens_output bl basis (flushed ts' rs' rl' bl) =
      tokens_output bl basis (flushed ts rs rl bl) @ take bl (drop (i * bl) basis)"
    by (rule cases) (use rs ui in \<open>auto simp: split\<close>)
  show "list_all (block_token bl basis) (flushed ts' rs' rl' bl)"
    by (rule cases) (use rs v new bounds(1) in \<open>auto simp: block_token_def token_valid_def algebra_simps\<close>)
  show "literal_total (flushed ts' rs' rl' bl) = literal_total (flushed ts rs rl bl)"
    by (rule cases) (use rs in auto)
  show "forward bl 0 (flushed ts' rs' rl' bl)" if "forward bl 0 (flushed ts rs rl bl)"
    "length (tokens_output bl basis (flushed ts rs rl bl)) \<le> i * bl"
    by (rule cases) (use rs that ui v in \<open>auto simp: forward_append length_block_tokens\<close>)
qed

text \<open>The state of the match loop is a scan state once its open run is flushed.\<close>

definition match_ok ::
  "DeltaGenerator \<Rightarrow> hash_crates \<Rightarrow> bytes \<Rightarrow> bytes \<Rightarrow> nat \<Rightarrow> gen_state \<times> u64 option \<times> nat \<Rightarrow> bool" where
  "match_ok g H basis source bl st =
    (case st of (gs, rs, rl) \<Rightarrow>
      scan_ok g H basis source bl (gs\<lparr>gs_tokens := flushed (gs_tokens gs) rs rl bl\<rparr>) \<and>
      (rs \<noteq> None \<longrightarrow> 0 < rl \<and> gs_pending gs = []))"

text \<open>\<open>accepts g H bl idx gs\<close>: block \<open>idx\<close> matches the full window and passes the in-place guard.\<close>

definition accepts :: "DeltaGenerator \<Rightarrow> hash_crates \<Rightarrow> nat \<Rightarrow> nat \<Rightarrow> gen_state \<Rightarrow> bool" where
  "accepts g H bl idx gs =
    (is_full bl (di_blocks (gs_index gs)) idx \<and> strong_match H (gs_index gs) idx (rb_list (gs_window gs)) \<and>
     length (rb_list (gs_window gs)) = bl \<and> basis_offset_ok g (gs_index gs) bl idx (gs_offset gs))"

lemma accepts_block:
  assumes "scan_ok g H basis source bl gs" "accepts g H bl idx gs"
  shows "sb_index (di_blocks (gs_index gs) ! idx) = of_nat idx" "Suc idx * bl \<le> length basis" "idx < 2 ^ 64"
    "rb_list (gs_window gs) = take bl (drop (idx * bl) basis)" "sb_len (di_blocks (gs_index gs) ! idx) = bl"
    "dg_updating_basis_file g \<Longrightarrow> length (tokens_output bl basis (gs_tokens gs) @ gs_pending gs) \<le> idx * bl"
proof -
  have env: "scan_env H basis source (gs_index gs)" "di_block_length (gs_index gs) = bl"
    "source = (tokens_output bl basis (gs_tokens gs) @ gs_pending gs) @ rb_list (gs_window gs) @ unread gs"
    "gs_offset gs = of_nat (length (tokens_output bl basis (gs_tokens gs) @ gs_pending gs))"
    using assms(1) by (auto simp: scan_ok_def)
  note b = scan_env_block [OF env(1) env(2) [symmetric] _ env(3), of idx]
  show i: "sb_index (di_blocks (gs_index gs) ! idx) = of_nat idx" "Suc idx * bl \<le> length basis"
    "rb_list (gs_window gs) = take bl (drop (idx * bl) basis)" "sb_len (di_blocks (gs_index gs) ! idx) = bl"
    using b assms(2) by (auto simp: accepts_def)
  have u: "unat (of_nat idx :: u64) = idx" using b(1,2) assms(2) by (auto simp: accepts_def)
  then show "idx < 2 ^ 64" using unat_lt2p [of "of_nat idx :: u64"] by simp
  have l: "length (tokens_output bl basis (gs_tokens gs) @ gs_pending gs) < 2 ^ 64" "idx * bl < 2 ^ 64"
    using env(3) i(2) scan_env_bound [OF env(1)] by auto
  then have "unat (of_nat idx * of_nat bl :: u64) = idx * bl" using checked_mul_Some [of "of_nat idx" bl] u by simp
  moreover have "unat (gs_offset gs) = length (tokens_output bl basis (gs_tokens gs) @ gs_pending gs)"
    unfolding env(4) by (rule unat_of_nat_u64 [OF l(1)])
  ultimately show "dg_updating_basis_file g \<Longrightarrow> length (tokens_output bl basis (gs_tokens gs) @ gs_pending gs) \<le> idx * bl"
    using assms(2) i(1) by (auto simp: accepts_def basis_offset_ok_def word_le_nat_alt Let_def)
qed

lemma rc_reset_rsum [simp]: "rc_reset rc = rsum []"
  using update_new [of Other_arch "[]"] by (cases rc) (simp add: rc_reset_def rc_new_def rsum_def sat_add_def)

text \<open>The literals before a match never coexist with an open run.\<close>

lemma accept_match_flush:
  assumes "match_ok g H basis source bl (gs, rs, rl)"
  shows "accept_match prune bl idx (gs, rs, rl) = accept_match prune bl idx (flush_pending gs, rs, rl)"
    and "match_ok g H basis source bl (flush_pending gs, rs, rl)"
    and "accepts g H bl idx (flush_pending gs) \<longleftrightarrow> accepts g H bl idx gs"
proof -
  have rs: "gs_pending gs \<noteq> [] \<Longrightarrow> rs = None" using assms by (auto simp: match_ok_def)
  show "accept_match prune bl idx (gs, rs, rl) = accept_match prune bl idx (flush_pending gs, rs, rl)"
  proof (cases "gs_pending gs = []")
    case False
    have *: "flush_pending gs = flush_pending (gs\<lparr>gs_tokens := gs_tokens gs\<rparr>)" by simp
    show ?thesis
      using rs [OF False] False
      by (auto simp: accept_match_def flush_seq_match_run_def Let_def join_run_def)
  qed (simp add: flush_pending_def)
  show "match_ok g H basis source bl (flush_pending gs, rs, rl)"
    using assms rs flush_pending_ok [of g H basis source bl gs]
    by (cases "gs_pending gs = []") (auto simp: match_ok_def flush_pending_def)
  show "accepts g H bl idx (flush_pending gs) \<longleftrightarrow> accepts g H bl idx gs" by (simp add: accepts_def)
qed

lemma accept_match_nil:
  assumes m: "match_ok g H basis source bl (gs, rs, rl)" and a: "accepts g H bl idx gs" and p: "gs_pending gs = []"
    and r: "accept_match prune bl idx (gs, rs, rl) = (gs', rs', rl')"
  shows "match_ok g H basis source bl (gs', rs', rl') \<and> rb_list (gs_window gs') = [] \<and> gs_pending gs' = [] \<and>
    gs_rolling gs' = rsum [] \<and> unread gs' = unread gs \<and> gs_buf gs' = gs_buf gs \<and> gs_reader gs' = gs_reader gs"
proof -
  let ?gs = "gs\<lparr>gs_tokens := flushed (gs_tokens gs) rs rl bl\<rparr>"
  have ok: "scan_ok g H basis source bl ?gs" and rs: "rs \<noteq> None \<longrightarrow> 0 < rl" using m by (auto simp: match_ok_def)
  have acc: "accepts g H bl idx ?gs" using a by (simp add: accepts_def)
  note blk = accepts_block [OF ok acc]
  obtain ts where j: "join_run (gs_tokens gs) rs rl bl (of_nat idx) = (ts, rs', rl')"
    and gs': "gs' = gs\<lparr>gs_tokens := ts, gs_total := gs_total gs + of_nat bl,
             gs_matched := mark_matched idx (gs_matched gs),
             gs_index := (if prune then mark_consumed (of_nat idx) (gs_index gs) else gs_index gs),
             gs_want_i := next_match (gs_index gs) idx,
             gs_window := rb_clear (gs_window gs), gs_rolling := rc_reset (gs_rolling gs),
             gs_offset := gs_offset gs + of_nat bl\<rparr>"
    using r p blk(1,5) by (auto simp: accept_match_def Let_def split: prod.splits)
  have env: "scan_env H basis source (gs_index gs)" "di_block_length (gs_index gs) = bl"
    "list_all (block_token bl basis) (flushed (gs_tokens gs) rs rl bl)"
    using ok by (auto simp: scan_ok_def)
  have bl: "0 < bl" "length basis < 2 ^ 64" using scan_env_bound [OF env(1)] env(2) by auto
  note t = join_run_tokens [OF j env(3) rs blk(2) bl(2,1) blk(3)]
  have cap: "rb_capacity (rb_clear (gs_window gs)) = bl" "rb_inv (gs_window gs)"
    using ok by (auto simp: scan_ok_def rb_capacity_def rb_clear_def)
  have len: "length (take bl (drop (idx * bl) basis)) = bl" using blk(2) by simp
  have "scan_ok g H basis source bl (gs'\<lparr>gs_tokens := flushed (gs_tokens gs') rs' rl' bl\<rparr>)"
    using ok t(2-5) blk(4,6) p cap len env unfolding scan_ok_def gs' by (auto simp: unread_def)
  then show ?thesis
    using t(1) p unfolding gs' by (simp add: match_ok_def unread_def)
qed

lemma accept_match_ok:
  assumes m: "match_ok g H basis source bl (gs, rs, rl)" and a: "accepts g H bl idx gs"
    and r: "accept_match prune bl idx (gs, rs, rl) = (gs', rs', rl')"
  shows "match_ok g H basis source bl (gs', rs', rl') \<and> rb_list (gs_window gs') = [] \<and> gs_pending gs' = [] \<and>
    gs_rolling gs' = rsum [] \<and> unread gs' = unread gs \<and> gs_buf gs' = gs_buf gs \<and> gs_reader gs' = gs_reader gs"
  using accept_match_nil [of g H basis source bl "flush_pending gs" rs rl idx prune gs' rs' rl']
    accept_match_flush(1) [OF m, of prune idx] accept_match_flush(2) [OF m] accept_match_flush(3) [OF m, of idx] a r
  by simp

section \<open>The loops\<close>

lemma guard_offset_Some:
  "guard_offset g bl gs m = Some idx \<longleftrightarrow> m = Some idx \<and> basis_offset_ok g (gs_index gs) bl idx (gs_offset gs)"
  by (auto simp: guard_offset_def split: option.splits)

lemma scan_ok_window:
  "scan_ok g H basis source bl gs \<Longrightarrow> index_inv (gs_index gs) \<and> di_block_length (gs_index gs) = bl \<and>
    rb_inv (gs_window gs) \<and> rb_capacity (gs_window gs) = bl \<and> 0 < bl \<and> reader_ok (gs_reader gs) \<and>
    fst (as_slices (gs_window gs)) @ snd (as_slices (gs_window gs)) = rb_list (gs_window gs)"
  using scan_env_bound [of H basis source "gs_index gs"] as_slices_list by (auto simp: scan_ok_def)

lemma probe_hint_accepts:
  assumes "scan_ok g H basis source bl gs" "rb_is_full (gs_window gs)"
    "guard_offset g bl gs (probe_hint H prune gs) = Some idx"
  shows "accepts g H bl idx gs"
proof -
  note w = scan_ok_window [OF assms(1)]
  have len: "length (rb_list (gs_window gs)) = bl"
    using assms(2) w by (simp add: rb_is_full_def rb_capacity_def)
  obtain a b where ab: "as_slices (gs_window gs) = (a, b)" by fastforce
  have "probe_hint H prune gs = Some idx" using assms(3) by (simp add: guard_offset_Some)
  then have "is_full bl (di_blocks (gs_index gs)) idx \<and> strong_match H (gs_index gs) idx (a @ b)"
    using w check_block_match_sound [of H "gs_index gs" idx _ a b]
      find_match_bytes_sound [of "gs_index gs" H _ "a @ b" "prune_filter prune gs" idx]
    by (auto simp: probe_hint_def ab find_match_slices_append Let_def split: option.splits if_splits)
  then show ?thesis using assms(3) w len ab by (simp add: accepts_def guard_offset_Some)
qed

lemma probe_adjacent_accepts:
  assumes "scan_ok g H basis source bl gs" "guard_offset g bl gs (probe_adjacent H prune k gs) = Some idx"
    "length (rb_list (gs_window gs)) = bl"
  shows "accepts g H bl idx gs"
proof -
  note w = scan_ok_window [OF assms(1)]
  obtain a b where ab: "as_slices (gs_window gs) = (a, b)" by fastforce
  have "probe_adjacent H prune k gs = Some idx" using assms(2) by (simp add: guard_offset_Some)
  then have "is_full bl (di_blocks (gs_index gs)) idx \<and> strong_match H (gs_index gs) idx (a @ b)"
    using w try_next_match_sound [of "gs_index gs" H k _ "a @ b" idx]
      find_match_bytes_sound [of "gs_index gs" H _ "a @ b" "prune_filter prune gs" idx]
    by (auto simp: probe_adjacent_def ab find_match_slices_append try_next_match_slices_append Let_def split: option.splits)
  then show ?thesis using assms(2,3) w ab by (simp add: accepts_def guard_offset_Some)
qed

lemma rehash_window_rsum:
  assumes "rb_inv (gs_window gs)" "gs_rolling gs = rsum []"
  shows "rehash_window arch gs = gs\<lparr>gs_rolling := rsum (rb_list (gs_window gs))\<rparr>"
  using assms as_slices_list [OF assms(1)] by (auto simp: rehash_window_def Let_def split: prod.splits)

lemma match_ok_refilled:
  assumes "match_ok g H basis source bl (gs, rs, rl)" "refilled bl gs n gs'" "gs_rolling gs = rsum []"
  shows "match_ok g H basis source bl ((if n < bl then gs' else rehash_window arch gs'), rs, rl)"
proof -
  have r: "gs' = gs\<lparr>gs_window := gs_window gs', gs_buf := gs_buf gs', gs_reader := gs_reader gs'\<rparr>"
    "reader_ok (gs_reader gs')" "rb_inv (gs_window gs')" "rb_capacity (gs_window gs') = bl"
    "rb_list (gs_window gs') @ unread gs' = rb_list (gs_window gs) @ unread gs"
    "n < bl \<Longrightarrow> gs_buf gs' = [] \<and> gs_reader gs' = []"
    using assms(2) by (auto simp: refilled_def)
  have f: "gs_tokens gs' = gs_tokens gs" "gs_pending gs' = gs_pending gs" "gs_total gs' = gs_total gs"
    "gs_literal gs' = gs_literal gs" "gs_offset gs' = gs_offset gs" "gs_index gs' = gs_index gs"
    "gs_rolling gs' = rsum []"
    by (subst r(1), simp add: assms(3))+
  show ?thesis
    using assms(1) r(2-6) f rehash_window_rsum [OF r(3) f(7), of arch]
    by (auto simp: match_ok_def scan_ok_def unread_def)
qed

lemma match_loop_ok:
  assumes "match_ok g H basis source bl (gs, rs, rl)" "accepts g H bl idx gs" "length (unread gs) < fuel"
  shows "\<exists>gs' rs' rl'. match_loop g arch H prune bl fuel idx (gs, rs, rl) = Inr (gs', rs', rl') \<and>
    match_ok g H basis source bl (gs', rs', rl') \<and> length (unread gs') \<le> length (unread gs)"
  using assms
proof (induction fuel arbitrary: gs rs rl idx)
  case (Suc fuel)
  obtain gs1 rs1 rl1 where acc: "accept_match prune bl idx (gs, rs, rl) = (gs1, rs1, rl1)" by (metis prod_cases3)
  note a = accept_match_ok [OF Suc.prems(1,2) acc]
  have ok1: "match_ok g H basis source bl (gs1, rs1, rl1)" using a by simp
  then have "scan_ok g H basis source bl (gs1\<lparr>gs_tokens := flushed (gs_tokens gs1) rs1 rl1 bl\<rparr>)"
    by (simp add: match_ok_def)
  note w = scan_ok_window [OF this, simplified]
  obtain n gs2 where r: "refill_window bl 0 gs1 = Inr (n, gs2)" "refilled bl gs1 n gs2"
    using refill_window_ok [of gs1 0 bl] w a by auto
  have ok2: "match_ok g H basis source bl ((if n < bl then gs2 else rehash_window arch gs2), rs1, rl1)"
    using match_ok_refilled [OF ok1 r(2)] a by simp
  have left: "n + length (unread gs2) = length (unread gs)" "n \<le> bl" "length (rb_list (gs_window gs2)) = n"
    using r(2) a by (auto simp: refilled_def dest: arg_cong [where f = length])
  show ?case
  proof (cases "n < bl")
    case True
    then show ?thesis using acc r(1) ok2 left by simp
  next
    case False
    let ?gs = "rehash_window arch gs2"
    have u: "unread ?gs = unread gs2" "gs_window ?gs = gs_window gs2" "gs_index ?gs = gs_index gs2"
      "gs_offset ?gs = gs_offset gs2" "probe_adjacent H prune idx (?gs\<lparr>gs_tokens := ts\<rparr>) = probe_adjacent H prune idx ?gs"
      "accepts g H bl j (?gs\<lparr>gs_tokens := ts\<rparr>) = accepts g H bl j ?gs"
      "guard_offset g bl (?gs\<lparr>gs_tokens := ts\<rparr>) m = guard_offset g bl ?gs m" for ts j m
      by (auto simp: rehash_window_def Let_def unread_def probe_adjacent_def accepts_def guard_offset_def prune_filter_def
          split: prod.splits option.splits)
    show ?thesis
    proof (cases "guard_offset g bl ?gs (probe_adjacent H prune idx ?gs)")
      case None
      then show ?thesis using acc r(1) False ok2 left u by (simp add: Let_def)
    next
      case (Some next_idx)
      have "accepts g H bl next_idx ?gs"
        using probe_adjacent_accepts [of g H basis source bl "?gs\<lparr>gs_tokens := flushed (gs_tokens ?gs) rs1 rl1 bl\<rparr>" prune idx next_idx]
          ok2 False Some left u by (simp add: match_ok_def)
      moreover have "length (unread ?gs) < fuel" using left u w False Suc.prems(3) by auto
      ultimately obtain gs' rs' rl' where
        "match_loop g arch H prune bl fuel next_idx (?gs, rs1, rl1) = Inr (gs', rs', rl')"
        "match_ok g H basis source bl (gs', rs', rl')" "length (unread gs') \<le> length (unread ?gs)"
        using Suc.IH [of ?gs rs1 rl1 next_idx] ok2 False by auto
      then show ?thesis using acc r(1) False Some left u by (simp add: Let_def)
    qed
  qed
qed simp

lemma scan_loop_ok:
  assumes "scan_ok g H basis source bl gs" "length (unread gs) < fuel"
  shows "\<exists>gs'. scan_loop g arch H prune bl fuel gs = Inr gs' \<and> scan_ok g H basis source bl gs' \<and> unread gs' = []"
  using assms
proof (induction fuel arbitrary: gs)
  case (Suc fuel)
  have "reader_ok (gs_reader gs)" using Suc.prems(1) by (simp add: scan_ok_def)
  then obtain b r where f: "fill_buffer gs = Inr (gs\<lparr>gs_buf := b, gs_reader := r\<rparr>)" "reader_ok r"
    "b @ reader_bytes r = unread gs" "b = [] \<Longrightarrow> gs_buf gs = [] \<and> gs_reader gs = [] \<and> r = []"
    using fill_buffer_ok [of gs] by metis
  let ?gs = "gs\<lparr>gs_buf := b, gs_reader := r\<rparr>"
  have u: "unread ?gs = unread gs" using f(3) by (simp add: unread_def)
  have ok: "scan_ok g H basis source bl ?gs"
    using Suc.prems(1) f u by (auto simp: scan_ok_def unread_def)
  show ?case
  proof (cases b)
    case Nil
    then show ?thesis using f ok u by (simp add: unread_def)
  next
    case (Cons byte buf)
    obtain gs1 where p: "push_byte bl byte (?gs\<lparr>gs_buf := buf\<rparr>) = Inr gs1" "scan_ok g H basis source bl gs1"
      "length (unread gs1) < length (unread gs)"
      using push_byte_ok [OF ok] Cons u by auto
    have fuel: "length (unread gs1) < fuel" using p(3) Suc.prems(2) by simp
    note step = f(1) Cons p(1)
    show ?thesis
    proof (cases "rb_is_full (gs_window gs1)")
      case False
      then show ?thesis using step Suc.IH [OF p(2) fuel] by simp
    next
      case True
      show ?thesis
      proof (cases "guard_offset g bl gs1 (probe_hint H prune gs1)")
        case None
        then show ?thesis using step True Suc.IH [OF p(2) fuel] by simp
      next
        case (Some idx)
        have "match_ok g H basis source bl (gs1, None, 0)" using p(2) by (simp add: match_ok_def)
        from match_loop_ok [OF this probe_hint_accepts [OF p(2) True Some] fuel, of arch prune]
        obtain gs2 rs rl where m: "match_loop g arch H prune bl fuel idx (gs1, None, 0) = Inr (gs2, rs, rl)"
          "match_ok g H basis source bl (gs2, rs, rl)" "length (unread gs2) \<le> length (unread gs1)" by blast
        let ?g = "gs2\<lparr>gs_tokens := flushed (gs_tokens gs2) rs rl bl\<rparr>"
        have "scan_ok g H basis source bl ?g" "length (unread ?g) < fuel"
          using m(2,3) fuel by (simp_all add: match_ok_def unread_def)
        from Suc.IH [OF this] show ?thesis using step True Some m(1) by (simp add: flushed_def)
      qed
    qed
  qed
qed simp

text \<open>\<open>delta_ok\<close>: the script denotes the source, its byte counts are right, its copies lie inside the basis,
  and under the in-place guard no copy reads below the position written.\<close>

definition delta_ok :: "DeltaGenerator \<Rightarrow> nat \<Rightarrow> bytes \<Rightarrow> bytes \<Rightarrow> DeltaScript \<Rightarrow> bool" where
  "delta_ok g bl basis source script =
    (tokens_output bl basis (ds_tokens script) = source \<and> list_all (block_token bl basis) (ds_tokens script) \<and>
     ds_total_bytes script = of_nat (length source) \<and> ds_literal_bytes script = of_nat (literal_total (ds_tokens script)) \<and>
     (dg_updating_basis_file g \<longrightarrow> forward bl 0 (ds_tokens script)))"

lemma scan_env_reset [simp]: "scan_env H basis source ix \<Longrightarrow> scan_env H basis source (reset_consumed ix)"
proof -
  assume a: "scan_env H basis source ix"
  have "index_inv (reset_consumed ix)" using a by (simp add: scan_env_def index_inv_def reset_consumed_def)
  then show ?thesis using a by (simp add: scan_env_def reset_consumed_def strong_match_def)
qed

lemma initial_state_ok:
  assumes "scan_env H basis (reader_bytes reader) ix" "reader_ok reader"
  shows "scan_ok g H basis (reader_bytes reader) (di_block_length ix) (initial_state ix reader)"
proof -
  have "rb_inv (rb_with_capacity (di_block_length ix)) \<and> rb_list (rb_with_capacity (di_block_length ix)) = []"
    using scan_env_bound [OF assms(1)] rb_with_capacity_inv by simp
  moreover have "rc_new = rsum []" by (simp add: rc_new_def rsum_def sat_add_def)
  ultimately show ?thesis
    using assms by (simp add: scan_ok_def initial_state_def unread_def rb_capacity_def rb_with_capacity_def)
qed

lemma finish_scan_ok:
  assumes "scan_ok g H basis source bl gs" "unread gs = []" "finish_scan gs = (script, ix')"
  shows "delta_ok g bl basis source script \<and> index_inv ix'"
proof -
  let ?gs = "flush_pending (gs\<lparr>gs_pending := gs_pending gs @ rb_list (gs_window gs)\<rparr>)"
  have "rb_inv (gs_window gs)" "index_inv (gs_index gs)" using assms(1) by (auto simp: scan_ok_def scan_env_def)
  then have s: "script = \<lparr>ds_tokens = gs_tokens ?gs, ds_total_bytes = gs_total ?gs, ds_literal_bytes = gs_literal ?gs\<rparr>" "index_inv ix'"
    using assms(3) by (auto simp: finish_scan_def drain_window_list Let_def)
  have "delta_ok g bl basis source script"
    using assms(1,2) unfolding s(1)
    by (auto simp: delta_ok_def scan_ok_def flush_pending_def forward_append)
  then show ?thesis using s(2) by simp
qed

lemma generate_with_prune_ok:
  assumes "scan_env H basis (reader_bytes reader) ix" "reader_ok reader"
  shows "\<exists>script ix'. generate_with_prune g arch H reader ix prune = Inr (script, ix') \<and>
    delta_ok g (di_block_length ix) basis (reader_bytes reader) script \<and> index_inv ix'"
proof -
  let ?ix = "if prune then reset_consumed ix else ix" and ?bl = "di_block_length ix"
  have bl: "di_block_length ?ix = ?bl" by (simp add: reset_consumed_def)
  have "scan_env H basis (reader_bytes reader) ?ix" using assms(1) by simp
  from initial_state_ok [OF this assms(2), of g, unfolded bl]
  have ok: "scan_ok g H basis (reader_bytes reader) ?bl (initial_state ?ix reader)" .
  have "length (unread (initial_state ?ix reader)) < Suc (reader_size reader)"
    by (simp add: initial_state_def unread_def reader_size_bytes)
  from scan_loop_ok [OF ok this, of arch prune] obtain gs where
    gs: "scan_loop g arch H prune ?bl (Suc (reader_size reader)) (initial_state ?ix reader) = Inr gs"
    "scan_ok g H basis (reader_bytes reader) ?bl gs" "unread gs = []" by blast
  obtain script ix' where "finish_scan gs = (script, ix')" by fastforce
  with finish_scan_ok [OF gs(2,3) this] gs(1) show ?thesis
    by (simp add: generate_with_prune_def Let_def bl del: scan_loop.simps)
qed

section \<open>The consecutive-match scan is correct\<close>

lemma push_byte_gated_ok:
  assumes "scan_ok g H basis source bl gs" "gs_buf gs = byte # buf"
  shows "\<exists>gs'. push_byte_gated byte (gs\<lparr>gs_buf := buf\<rparr>) = Inr gs' \<and> scan_ok g H basis source bl gs' \<and>
    length (unread gs') < length (unread gs)"
proof -
  have ok: "rb_inv (gs_window gs)" "rb_capacity (gs_window gs) = bl" "gs_rolling gs = rsum (rb_list (gs_window gs))"
    "bl < 2 ^ 32" "0 < bl"
    using assms scan_env_bound [of H basis source "gs_index gs"] by (auto simp: scan_ok_def)
  obtain w r where p: "push_back byte (gs_window gs) = (w, r)" by fastforce
  note ref = push_back_refines [OF ok(1) p]
  show ?thesis
  proof (cases "length (rb_list (gs_window gs)) < bl")
    case True
    then show ?thesis
      using ref ok(2,3) p assms by (auto simp: push_byte_gated_def scan_ok_def unread_def)
  next
    case False
    then obtain x xs where x: "rb_list (gs_window gs) = x # xs" using ok(5) by (cases "rb_list (gs_window gs)") auto
    then have w: "rb_inv w" "rb_capacity w = bl" "rb_list w = xs @ [byte]" "r = Some x" using ref False ok(2) by auto
    have "length xs < 2 ^ 32 - 1"
      using x ok length_rb_list [OF ok(1)] by (auto simp: rb_inv_def rb_capacity_def)
    then have "roll (gs_rolling gs) x byte = Inr (rsum (xs @ [byte]))" using ok(3) x roll_rsum by simp
    then show ?thesis
      using p w x assms by (auto simp: push_byte_gated_def scan_ok_def unread_def)
  qed
qed

text \<open>The state once the run is written out as copies.\<close>

definition gated_view :: "nat \<Rightarrow> gen_state \<Rightarrow> u64 list \<Rightarrow> gen_state" where
  "gated_view bl gs run =
    gs\<lparr>gs_total := gs_total gs + of_nat (length run * bl), gs_tokens := gs_tokens gs @ map (\<lambda>i. Copy i bl) run\<rparr>"

definition gated_ok ::
  "DeltaGenerator \<Rightarrow> hash_crates \<Rightarrow> bytes \<Rightarrow> bytes \<Rightarrow> nat \<Rightarrow> gen_state \<times> u64 list \<times> bytes \<Rightarrow> bool" where
  "gated_ok g H basis source bl st =
    (case st of (gs, run, lone) \<Rightarrow>
      scan_ok g H basis source bl (gated_view bl gs run) \<and> gs_pending gs = [] \<and>
      (run = [] \<longrightarrow> lone = []) \<and>
      (run \<noteq> [] \<longrightarrow> lone = token_output bl basis (Copy (hd run) bl)))"

lemma gated_view_simps [simp]:
  "gs_window (gated_view bl gs run) = gs_window gs" "gs_index (gated_view bl gs run) = gs_index gs"
  "gs_offset (gated_view bl gs run) = gs_offset gs" "unread (gated_view bl gs run) = unread gs"
  "gs_pending (gated_view bl gs run) = gs_pending gs" "gs_reader (gated_view bl gs run) = gs_reader gs"
  "accepts g H bl i (gated_view bl gs run) = accepts g H bl i gs" "gated_view bl gs [] = gs"
  by (simp_all add: gated_view_def unread_def accepts_def)

lemma accept_gated_ok:
  assumes m: "gated_ok g H basis source bl (gs, run, lone)" and a: "accepts g H bl idx gs"
    and r: "accept_gated bl idx (gs, run, lone) = (gs', run', lone')"
  shows "gated_ok g H basis source bl (gs', run', lone') \<and> rb_list (gs_window gs') = [] \<and>
    gs_rolling gs' = rsum [] \<and> unread gs' = unread gs \<and> gs_reader gs' = gs_reader gs \<and>
    rb_inv (gs_window gs') \<and> rb_capacity (gs_window gs') = bl \<and> 0 < bl \<and> reader_ok (gs_reader gs')"
proof -
  have ok: "scan_ok g H basis source bl (gated_view bl gs run)" and p: "gs_pending gs = []"
    using m by (auto simp: gated_ok_def)
  note w = scan_ok_window [OF ok, simplified]
  note blk = accepts_block [OF ok, of idx, simplified, OF a]
  have u: "unat (of_nat idx :: u64) = idx" using blk(3) by (simp add: unat_of_nat_u64)
  have gs': "gs' = gs\<lparr>gs_matched := mark_matched idx (gs_matched gs),
             gs_index := mark_consumed (of_nat idx) (gs_index gs),
             gs_window := rb_clear (gs_window gs), gs_rolling := rc_reset (gs_rolling gs),
             gs_offset := gs_offset gs + of_nat bl\<rparr>" "run' = run @ [of_nat idx]"
    "lone' = (if run = [] then lone @ rb_list (gs_window gs) else lone)"
    using r blk(1) w by (auto simp: accept_gated_def Let_def split: prod.splits if_splits)
  have v: "block_token bl basis (Copy (of_nat idx) bl)"
    using blk(2) u w scan_env_bound [of H basis source "gs_index gs"] ok by (auto simp: block_token_def token_valid_def scan_ok_def)
  have len: "length (take bl (drop (idx * bl) basis)) = bl" using blk(2) by simp
  have cap: "rb_capacity (rb_clear (gs_window gs)) = bl" using w by (auto simp: rb_capacity_def rb_clear_def)
  have valid: "list_all (block_token bl basis) (gs_tokens (gated_view bl gs run))"
    "gs_offset gs = of_nat (length (tokens_output bl basis (gs_tokens (gated_view bl gs run))))"
    using ok p by (auto simp: scan_ok_def)
  have fwd: "forward bl 0 (gs_tokens gs @ map (\<lambda>i. Copy i bl) (run @ [of_nat idx]))" if "dg_updating_basis_file g"
  proof -
    have "forward bl 0 (gs_tokens (gated_view bl gs run))" using ok that by (simp add: scan_ok_def)
    moreover have "length (tokens_output bl basis (gs_tokens (gated_view bl gs run))) \<le> idx * bl"
      using blk(6) that p by simp
    ultimately show ?thesis
      using valid(1) u by (auto simp: forward_append gated_view_def length_block_tokens [symmetric] simp del: tokens_output_simps
          simp flip: append_assoc map_append) (simp add: length_block_tokens forward_append)
  qed
  have "scan_ok g H basis source bl (gated_view bl gs' run')"
    using ok v blk(4) p cap len w u fwd unfolding scan_ok_def gs'
    by (auto simp: gated_view_def unread_def algebra_simps)
  moreover have "run' \<noteq> [] \<longrightarrow> lone' = token_output bl basis (Copy (hd run') bl)"
    using m blk(4) u unfolding gs' by (cases run) (auto simp: gated_ok_def)
  ultimately show ?thesis
    using m w cap unfolding gs' by (auto simp: gated_ok_def unread_def)
qed

lemma gated_ok_refilled:
  assumes "gated_ok g H basis source bl (gs, run, lone)" "refilled bl gs n gs'" "gs_rolling gs = rsum []"
  shows "gated_ok g H basis source bl ((if n < bl then gs' else rehash_window arch gs'), run, lone)"
proof -
  have r: "gs' = gs\<lparr>gs_window := gs_window gs', gs_buf := gs_buf gs', gs_reader := gs_reader gs'\<rparr>"
    "reader_ok (gs_reader gs')" "rb_inv (gs_window gs')" "rb_capacity (gs_window gs') = bl"
    "rb_list (gs_window gs') @ unread gs' = rb_list (gs_window gs) @ unread gs"
    "n < bl \<Longrightarrow> gs_buf gs' = [] \<and> gs_reader gs' = []"
    using assms(2) by (auto simp: refilled_def)
  have f: "gs_tokens gs' = gs_tokens gs" "gs_pending gs' = gs_pending gs" "gs_total gs' = gs_total gs"
    "gs_literal gs' = gs_literal gs" "gs_offset gs' = gs_offset gs" "gs_index gs' = gs_index gs"
    "gs_rolling gs' = rsum []"
    by (subst r(1), simp add: assms(3))+
  show ?thesis
    using assms(1) r(2-6) f rehash_window_rsum [OF r(3) f(7), of arch]
    by (auto simp: gated_ok_def scan_ok_def unread_def gated_view_def)
qed

lemma probe_gated_accepts:
  assumes "scan_ok g H basis source bl gs" "guard_offset g bl gs (probe_gated H gs) = Some idx"
    "length (rb_list (gs_window gs)) = bl"
  shows "accepts g H bl idx gs"
proof -
  note w = scan_ok_window [OF assms(1)]
  obtain a b where ab: "as_slices (gs_window gs) = (a, b)" by fastforce
  have "probe_gated H gs = Some idx" using assms(2) by (simp add: guard_offset_Some)
  then have "is_full bl (di_blocks (gs_index gs)) idx \<and> strong_match H (gs_index gs) idx (a @ b)"
    using w find_match_bytes_sound [of "gs_index gs" H _ "a @ b" "Some (gs_matched gs)" idx]
    by (auto simp: probe_gated_def ab find_match_slices_append Let_def)
  then show ?thesis using assms(2,3) w ab by (simp add: accepts_def guard_offset_Some)
qed

lemma gated_view_probe [simp]:
  "probe_gated H (gated_view bl gs run) = probe_gated H gs"
  "guard_offset g bl (gated_view bl gs run) m = guard_offset g bl gs m"
  by (simp_all add: probe_gated_def gated_view_def guard_offset_def split: option.split)

lemma gated_loop_ok:
  assumes "gated_ok g H basis source bl (gs, run, lone)" "accepts g H bl idx gs" "length (unread gs) < fuel"
  shows "\<exists>gs' run' lone'. gated_loop g arch H bl fuel idx (gs, run, lone) = Inr (gs', run', lone') \<and>
    gated_ok g H basis source bl (gs', run', lone') \<and> length (unread gs') \<le> length (unread gs)"
  using assms
proof (induction fuel arbitrary: gs run lone idx)
  case (Suc fuel)
  obtain gs1 run1 lone1 where acc: "accept_gated bl idx (gs, run, lone) = (gs1, run1, lone1)" by (metis prod_cases3)
  note a = accept_gated_ok [OF Suc.prems(1,2) acc]
  obtain n gs2 where r: "refill_window bl 0 gs1 = Inr (n, gs2)" "refilled bl gs1 n gs2"
    using refill_window_ok [of gs1 0 bl] a by auto
  have ok2: "gated_ok g H basis source bl ((if n < bl then gs2 else rehash_window arch gs2), run1, lone1)"
    using gated_ok_refilled [OF _ r(2)] a by simp
  have left: "n + length (unread gs2) = length (unread gs)" "n \<le> bl" "length (rb_list (gs_window gs2)) = n"
    using r(2) a by (auto simp: refilled_def dest: arg_cong [where f = length])
  show ?case
  proof (cases "n < bl")
    case True
    then show ?thesis using acc r(1) ok2 left by simp
  next
    case False
    let ?gs = "rehash_window arch gs2"
    have u: "unread ?gs = unread gs2" "gs_window ?gs = gs_window gs2"
      by (auto simp: rehash_window_def Let_def unread_def split: prod.splits)
    show ?thesis
    proof (cases "guard_offset g bl ?gs (probe_gated H ?gs)")
      case None
      then show ?thesis using acc r(1) False ok2 left u by (simp add: Let_def)
    next
      case (Some next_idx)
      have "accepts g H bl next_idx ?gs"
        using probe_gated_accepts [of g H basis source bl "gated_view bl ?gs run1" next_idx] ok2 False Some left u
        by (simp add: gated_ok_def)
      moreover have "length (unread ?gs) < fuel" using left u a False Suc.prems(3) by auto
      ultimately obtain gs' run' lone' where
        "gated_loop g arch H bl fuel next_idx (?gs, run1, lone1) = Inr (gs', run', lone')"
        "gated_ok g H basis source bl (gs', run', lone')" "length (unread gs') \<le> length (unread ?gs)"
        using Suc.IH [of ?gs run1 lone1 next_idx] ok2 False by auto
      then show ?thesis using acc r(1) False Some left u by (simp add: Let_def)
    qed
  qed
qed simp

lemma flush_gated_run_ok:
  assumes "gated_ok g H basis source bl (gs, run, lone)"
  shows "scan_ok g H basis source bl (flush_gated_run bl (gs, run, lone)) \<and>
    unread (flush_gated_run bl (gs, run, lone)) = unread gs"
proof -
  have ok: "scan_ok g H basis source bl (gated_view bl gs run)" using assms by (simp add: gated_ok_def)
  have fold: "foldl (\<lambda>gs idx. gs\<lparr>gs_total := gs_total gs + of_nat bl, gs_tokens := gs_tokens gs @ [Copy idx bl]\<rparr>) gs run
      = gated_view bl gs run" for gs
    by (induction run arbitrary: gs) (simp_all add: gated_view_def algebra_simps)
  consider "2 \<le> length run" | "run = []" | i where "run = [i]"
    by (cases run; cases "tl run") auto
  then show ?thesis
  proof cases
    case 1
    then show ?thesis using ok by (simp add: flush_gated_run_def fold)
  next
    case 2
    then show ?thesis using ok by (simp add: flush_gated_run_def)
  next
    case (3 i)
    then have l: "lone = take bl (drop (unat i * bl) basis)" using assms by (simp add: gated_ok_def)
    have "length lone = bl" using ok l 3 by (auto simp: scan_ok_def gated_view_def block_token_def token_valid_def)
    then show ?thesis
      using ok 3 l assms by (auto simp: flush_gated_run_def scan_ok_def gated_view_def unread_def forward_append gated_ok_def)
  qed
qed

lemma gated_scan_ok:
  assumes "scan_ok g H basis source bl gs" "length (unread gs) < fuel"
  shows "\<exists>gs'. gated_scan g arch H bl fuel gs = Inr gs' \<and> scan_ok g H basis source bl gs' \<and> unread gs' = []"
  using assms
proof (induction fuel arbitrary: gs)
  case (Suc fuel)
  have "reader_ok (gs_reader gs)" using Suc.prems(1) by (simp add: scan_ok_def)
  then obtain b r where f: "fill_buffer gs = Inr (gs\<lparr>gs_buf := b, gs_reader := r\<rparr>)" "reader_ok r"
    "b @ reader_bytes r = unread gs" "b = [] \<Longrightarrow> gs_buf gs = [] \<and> gs_reader gs = [] \<and> r = []"
    using fill_buffer_ok [of gs] by metis
  let ?gs = "gs\<lparr>gs_buf := b, gs_reader := r\<rparr>"
  have u: "unread ?gs = unread gs" using f(3) by (simp add: unread_def)
  have ok: "scan_ok g H basis source bl ?gs"
    using Suc.prems(1) f u by (auto simp: scan_ok_def unread_def)
  show ?case
  proof (cases b)
    case Nil
    then show ?thesis using f ok u by (simp add: unread_def)
  next
    case (Cons byte buf)
    obtain gs1 where p: "push_byte_gated byte (?gs\<lparr>gs_buf := buf\<rparr>) = Inr gs1" "scan_ok g H basis source bl gs1"
      "length (unread gs1) < length (unread gs)"
      using push_byte_gated_ok [OF ok] Cons u by auto
    have fuel: "length (unread gs1) < fuel" using p(3) Suc.prems(2) by simp
    note step = f(1) Cons p(1)
    show ?thesis
    proof (cases "rb_is_full (gs_window gs1) \<and> guard_offset g bl gs1 (probe_gated H gs1) \<noteq> None")
      case False
      then show ?thesis using step Suc.IH [OF p(2) fuel] by (auto split: if_splits)
    next
      case True
      then obtain idx where idx: "guard_offset g bl gs1 (probe_gated H gs1) = Some idx" by auto
      have "length (rb_list (gs_window gs1)) = bl"
        using True scan_ok_window [OF p(2)] by (simp add: rb_is_full_def rb_capacity_def)
      then have acc: "accepts g H bl idx (flush_pending gs1)"
        using probe_gated_accepts [OF p(2) idx] by (simp add: accepts_def)
      have "gated_ok g H basis source bl (flush_pending gs1, [], [])"
        using flush_pending_ok [OF p(2)] by (simp add: gated_ok_def)
      from gated_loop_ok [OF this acc, of fuel arch] fuel
      obtain gs2 run lone where m: "gated_loop g arch H bl fuel idx (flush_pending gs1, [], []) = Inr (gs2, run, lone)"
        "gated_ok g H basis source bl (gs2, run, lone)" "length (unread gs2) \<le> length (unread gs1)" by auto
      from Suc.IH [of "flush_gated_run bl (gs2, run, lone)"] flush_gated_run_ok [OF m(2)] m(3) fuel
      show ?thesis using step True idx m(1) by simp
    qed
  qed
qed simp

lemma generate_gated_ok:
  assumes "scan_env H basis (reader_bytes reader) ix" "reader_ok reader"
  shows "\<exists>script ix'. generate_gated g arch H reader ix = Inr (script, ix') \<and>
    delta_ok g (di_block_length ix) basis (reader_bytes reader) script \<and> index_inv ix'"
proof -
  let ?ix = "reset_consumed ix" and ?bl = "di_block_length ix"
  have bl: "di_block_length ?ix = ?bl" by (simp add: reset_consumed_def)
  have "scan_env H basis (reader_bytes reader) ?ix" using assms(1) by simp
  from initial_state_ok [OF this assms(2), of g, unfolded bl]
  have ok: "scan_ok g H basis (reader_bytes reader) ?bl (initial_state ?ix reader)" .
  have "length (unread (initial_state ?ix reader)) < Suc (reader_size reader)"
    by (simp add: initial_state_def unread_def reader_size_bytes)
  from gated_scan_ok [OF ok this, of arch] obtain gs where
    gs: "gated_scan g arch H ?bl (Suc (reader_size reader)) (initial_state ?ix reader) = Inr gs"
    "scan_ok g H basis (reader_bytes reader) ?bl gs" "unread gs = []" by blast
  obtain script ix' where "finish_scan gs = (script, ix')" by fastforce
  with finish_scan_ok [OF gs(2,3) this] gs(1) show ?thesis
    by (simp add: generate_gated_def Let_def bl del: gated_scan.simps)
qed

lemma generate_ok:
  assumes "scan_env H basis (reader_bytes reader) ix" "reader_ok reader"
  shows "\<exists>script ix'. generate g arch H reader ix = Inr (script, ix') \<and>
    delta_ok g (di_block_length ix) basis (reader_bytes reader) script \<and> index_inv ix'"
  using generate_gated_ok [OF assms] generate_with_prune_ok [OF assms] by (simp add: generate_def)

section \<open>The parallel scan is correct\<close>

lemma split_literal_run_output:
  "tokens_output bl basis (split_literal_run c run) = run \<and> list_all (block_token bl basis) (split_literal_run c run)"
proof (induction c run rule: split_literal_run.induct)
  case (1 c run)
  then show ?case by (subst (1 2) split_literal_run.simps) auto
qed

lemma push_split_output:
  "tokens_output bl basis (push_split_literal_run out run c) = tokens_output bl basis out @ run"
  "list_all (block_token bl basis) out \<Longrightarrow> list_all (block_token bl basis) (push_split_literal_run out run c)"
  using split_literal_run_output [of bl basis c run] by (auto simp: push_split_literal_run_def)

lemma fold_resegment:
  assumes "fold (resegment_step c) ts (out, run) = (out', run')" "list_all (block_token bl basis) (out @ ts)"
  shows "tokens_output bl basis out' @ (case run' of None \<Rightarrow> [] | Some acc \<Rightarrow> acc) =
      tokens_output bl basis out @ (case run of None \<Rightarrow> [] | Some acc \<Rightarrow> acc) @ tokens_output bl basis ts \<and>
    list_all (block_token bl basis) out'"
  using assms
proof (induction ts arbitrary: out run)
  case (Cons t ts)
  obtain o1 r1 where st: "resegment_step c t (out, run) = (o1, r1)" by fastforce
  have v: "list_all (block_token bl basis) (o1 @ ts)"
    using st Cons.prems(2) by (auto simp: resegment_step_def push_split_output split: DeltaToken.splits option.splits)
  have "tokens_output bl basis o1 @ (case r1 of None \<Rightarrow> [] | Some acc \<Rightarrow> acc) =
      tokens_output bl basis out @ (case run of None \<Rightarrow> [] | Some acc \<Rightarrow> acc) @ token_output bl basis t"
    using st by (auto simp: resegment_step_def push_split_output split: DeltaToken.splits option.splits)
  then show ?case using Cons.IH [of o1 r1] Cons.prems(1) st v by simp
qed simp

lemma resegment_literals_output:
  assumes "list_all (block_token bl basis) ts"
  shows "tokens_output bl basis (resegment_literals ts n) = tokens_output bl basis ts \<and>
    list_all (block_token bl basis) (resegment_literals ts n)"
proof -
  obtain out run where f: "fold (resegment_step (literal_flush_cadence n)) ts ([], None) = (out, run)" by fastforce
  show ?thesis
    using fold_resegment [OF f, of bl basis] assms
    by (auto simp: resegment_literals_def f Let_def push_split_output split: option.splits)
qed

definition run_valid :: "nat \<Rightarrow> bytes \<Rightarrow> bytes \<Rightarrow> CopyRun \<Rightarrow> bool" where
  "run_valid bl basis source r =
    (cr_source_start r + cr_len r \<le> length source \<and> block_token bl basis (Copy (cr_basis_index r) (cr_len r)) \<and>
     take (cr_len r) (drop (cr_source_start r) source) = take (cr_len r) (drop (unat (cr_basis_index r) * bl) basis))"

lemma slice_drop: "a \<le> b \<Longrightarrow> slice a b xs @ drop b xs = drop a xs"
  by (metis append_take_drop_id drop_drop drop_take le_add_diff_inverse2 slice_def)

lemma merge_loop_ok:
  assumes "list_all (run_valid bl basis source) runs" "cursor \<le> length source"
  shows "\<exists>ts. merge_loop source runs cursor = Inr ts \<and> tokens_output bl basis ts = drop cursor source \<and>
    list_all (block_token bl basis) ts"
  using assms
proof (induction source runs cursor rule: merge_loop.induct)
  case (1 source runs cursor)
  show ?case
  proof (cases "cursor < length source")
    case False
    then show ?thesis using 1(4) by (subst merge_loop.simps) simp
  next
    case c: True
    show ?thesis
    proof (cases "dropWhile (\<lambda>run. cr_source_start run < cursor) runs")
      case Nil
      then show ?thesis using c by (subst merge_loop.simps) (simp add: slice_def del: dropWhile_eq_Nil_conv)
    next
      case (Cons run rest)
      have "set (run # rest) \<subseteq> set runs" using Cons by (metis set_dropWhileD subsetI)
      then have v: "run_valid bl basis source run" "list_all (run_valid bl basis source) rest"
        using 1(3) by (auto simp: list_all_iff)
      have ge: "cursor \<le> cr_source_start run" using Cons by (metis hd_dropWhile leI list.discI list.sel(1))
      show ?thesis
      proof (cases "cr_source_start run = cursor")
        case True
        obtain ts where ts: "merge_loop source rest (cursor + cr_len run) = Inr ts"
          "tokens_output bl basis ts = drop (cursor + cr_len run) source" "list_all (block_token bl basis) ts"
          using 1(1) [OF c Cons True v(2)] v(1) True by (auto simp: run_valid_def)
        have "take (cr_len run) (drop cursor source) @ drop (cursor + cr_len run) source = drop cursor source"
          using append_take_drop_id [of "cr_len run" "drop cursor source"] by (simp add: add.commute)
        then show ?thesis
          using c Cons True ts v(1) by (subst merge_loop.simps) (auto simp: run_valid_def)
      next
        case False
        have le: "cr_source_start run \<le> length source" using v(1) by (simp add: run_valid_def)
        then obtain ts where ts: "merge_loop source (run # rest) (cr_source_start run) = Inr ts"
          "tokens_output bl basis ts = drop (cr_source_start run) source" "list_all (block_token bl basis) ts"
          using 1(2) [OF c Cons False] v by auto
        then show ?thesis
          using c Cons False le slice_drop [OF ge] by (subst merge_loop.simps) auto
      qed
    qed
  qed
qed

lemma set_insert_run [simp]: "set (insert_run r xs) = insert r (set xs)"
  by (induction xs) auto

lemma set_sort_runs [simp]: "set (sort_runs xs) = set xs"
  by (induction xs) (auto simp: sort_runs_def)

lemma merge_copy_runs_ok:
  assumes "list_all (run_valid bl basis source) runs" "\<not> dg_updating_basis_file g"
  shows "\<exists>script. merge_copy_runs source runs bl = Inr script \<and> delta_ok g bl basis source script"
proof -
  have "list_all (run_valid bl basis source) (sort_runs runs)" using assms(1) by (simp add: list_all_iff)
  from merge_loop_ok [OF this, of 0] obtain ts where ts: "merge_loop source (sort_runs runs) 0 = Inr ts"
    "tokens_output bl basis ts = source" "list_all (block_token bl basis) ts" by auto
  have sum: "(\<Sum>t \<leftarrow> us. of_nat (byte_len t) :: u64) = of_nat (\<Sum>t \<leftarrow> us. byte_len t)" for us
    by (induction us) simp_all
  show ?thesis
    using resegment_literals_output [OF ts(3), of bl] ts assms(2)
    by (simp add: merge_copy_runs_def Let_def delta_ok_def literal_total_def sum)
qed

lemma expand_copy_valid:
  assumes "block_token bl basis (Copy i len)" "off + len \<le> length source" "length basis < 2 ^ 64" "0 < bl"
    "take len (drop off source) = take len (drop (unat i * bl) basis)"
  shows "list_all (run_valid bl basis source) (expand_copy bl off i len)"
  using assms
proof (induction bl off i len rule: expand_copy.induct)
  case (1 bl off i len)
  show ?case
  proof (cases "len = 0")
    case True
    then show ?thesis by (subst expand_copy.simps) simp
  next
    case False
    let ?t = "min bl len"
    have v: "unat i * bl + len \<le> length basis" using 1(2) False by (simp add: block_token_def token_valid_def)
    have eq: "take n (drop off source) = take n (drop (unat i * bl) basis)" if "n \<le> len" for n
      using arg_cong [OF 1(6), of "take n"] that by (simp add: min_absorb1)
    have t: "?t = bl" "0 < len" using 1(2) False dvd_imp_le [of bl len] by (auto simp: block_token_def)
    have first: "run_valid bl basis source \<lparr>cr_source_start = off, cr_basis_index = i, cr_len = ?t\<rparr>"
      using 1(3) v 1(4,5) eq [of ?t] t by (auto simp: run_valid_def block_token_def token_valid_def)
    have rest: "list_all (run_valid bl basis source) (expand_copy bl (off + ?t) (i + 1) (len - ?t))"
    proof (cases "len \<le> bl")
      case True
      then show ?thesis by (subst expand_copy.simps) simp
    next
      case gt: False
      have "unat i \<le> unat i * bl" using 1(5) by simp
      then have "unat i + 1 < 2 ^ 64" using v gt 1(4,5) by linarith
      then have ui: "unat (i + 1) = unat i + 1" by (simp add: unat_word_ariths)
      have "take (len - bl) (drop (off + bl) source) = take (len - bl) (drop (unat (i + 1) * bl) basis)"
        using arg_cong [OF 1(6), of "drop bl"] ui by (simp add: drop_take algebra_simps)
      then show ?thesis
        using gt v ui 1(2-5) False
        by (intro 1(1)) (auto simp: block_token_def token_valid_def min_absorb1 algebra_simps)
    qed
    show ?thesis using first rest False 1(5) by (subst expand_copy.simps) (simp add: Let_def)
  qed
qed

lemma lift_copies_valid:
  assumes "source = pre @ tokens_output bl basis ts @ post" "list_all (block_token bl basis) ts"
    "length basis < 2 ^ 64" "0 < bl"
  shows "list_all (run_valid bl basis source) (lift_copies bl (length pre) ts)"
  using assms(1,2)
proof (induction ts arbitrary: pre)
  case (Cons t ts)
  have len: "length (token_output bl basis t) = byte_len t" using Cons.prems(2) by (simp add: length_token_output block_token_def)
  have "list_all (run_valid bl basis source) (lift_copies bl (length (pre @ token_output bl basis t)) ts)"
    using Cons.prems by (intro Cons.IH) auto
  moreover have "list_all (run_valid bl basis source) (expand_copy bl (length pre) i n)" if "t = Copy i n" for i n
    using Cons.prems that len assms(3,4) by (intro expand_copy_valid) auto
  ultimately show ?case using len by (auto split: DeltaToken.splits)
qed simp

lemma cursor_reader_ok: "0 < n \<Longrightarrow> reader_ok (cursor_reader n xs) \<and> reader_bytes (cursor_reader n xs) = xs"
proof (induction n xs rule: cursor_reader.induct)
  case (1 n xs)
  then show ?case by (subst (1 2) cursor_reader.simps) auto
qed

lemma scan_env_slice:
  assumes "scan_env H basis source ix"
  shows "scan_env H basis (slice a b source) ix"
proof -
  have eq: "source = (take (min a b) source) @ slice a b source @ drop (max a b) source" if "a \<le> b"
    using slice_drop [OF that, of source] append_take_drop_id [of a source] that by (simp add: min_def max_def)
  have "\<exists>us vs. source = us @ slice a b source @ vs"
  proof (cases "a \<le> b")
    case False
    then have "slice a b source = []" by (simp add: slice_def)
    then show ?thesis by (intro exI [of _ source] exI [of _ "[]"]) simp
  qed (use eq in blast)
  then obtain us vs where s: "source = us @ slice a b source @ vs" by blast
  have sub: "source = (us @ us') @ w @ (vs' @ vs)" if "slice a b source = us' @ w @ vs'" for us' w vs'
    using that by (subst s) simp
  have len: "length (slice a b source) \<le> length source" by (simp add: slice_def)
  have "Suc i * di_block_length ix \<le> length basis \<and> w = take (di_block_length ix) (drop (i * di_block_length ix) basis)"
    if "is_full (di_block_length ix) (di_blocks ix) i" "slice a b source = us' @ w @ vs'" "length w = di_block_length ix"
      "strong_match H ix i w" for i us' w vs'
    using assms that(1,3,4) sub [OF that(2)] unfolding scan_env_def by blast
  then show ?thesis using assms len unfolding scan_env_def by simp
qed

lemma stripes_ok:
  assumes "0 < gl" "\<And>r. r \<in> set rs \<Longrightarrow> fst r \<le> snd r \<and> snd r \<le> length source"
    "scan_env H basis source ix" "gl = dg_buffer_len g + di_block_length ix"
  shows "\<exists>runs. scan_stripes g arch H ix source rs = Inr runs \<and>
    list_all (run_valid (di_block_length ix) basis source) runs"
  using assms(2)
proof (induction rs)
  case (Cons r rs)
  obtain a b where r: "r = (a, b)" by fastforce
  have ab: "a \<le> b" "b \<le> length source" using Cons.prems [of r] r by auto
  let ?s = "slice a b source"
  have c: "reader_ok (cursor_of g ix ?s)" "reader_bytes (cursor_of g ix ?s) = ?s"
    using cursor_reader_ok [of "max (dg_buffer_len g) (di_block_length ix)"] assms(1,4) by (auto simp: cursor_of_def)
  have env: "scan_env H basis (reader_bytes (cursor_of g ix ?s)) ix" using scan_env_slice [OF assms(3)] c by simp
  from generate_with_prune_ok [OF env c(1), of g arch False] obtain script ix' where
    gen: "generate_with_prune g arch H (cursor_of g ix ?s) ix False = Inr (script, ix')"
    "delta_ok g (di_block_length ix) basis ?s script" unfolding c(2) by blast
  have bnd: "0 < di_block_length ix" "length basis < 2 ^ 64" using scan_env_bound [OF assms(3)] by auto
  have sp: "source = take a source @ tokens_output (di_block_length ix) basis (ds_tokens script) @ drop b source"
    using gen(2) slice_drop [OF ab(1), of source] append_take_drop_id [of a source] by (simp add: delta_ok_def)
  have la: "length (take a source) = a" using ab by simp
  have "list_all (run_valid (di_block_length ix) basis source)
      (lift_copies (di_block_length ix) (length (take a source)) (ds_tokens script))"
    by (rule lift_copies_valid [OF sp]) (use gen(2) bnd in \<open>simp_all add: delta_ok_def\<close>)
  then have "list_all (run_valid (di_block_length ix) basis source) (lift_copies (di_block_length ix) a (ds_tokens script))"
    unfolding la .
  moreover obtain runs where "scan_stripes g arch H ix source rs = Inr runs"
    "list_all (run_valid (di_block_length ix) basis source) runs" using Cons.IH Cons.prems by auto
  ultimately show ?case using gen(1) r by simp
qed simp

lemma stripes_range:
  assumes "r \<in> set (stripes n chunks bl)"
  shows "fst r \<le> snd r \<and> snd r \<le> n"
  using assms by (auto simp: stripes_def Let_def dest!: set_takeWhileD split: if_splits)

lemma generate_chunked_ok:
  assumes "scan_env H basis source ix" "0 < dg_buffer_len g"
  shows "\<exists>script ix'. generate_chunked g arch H source ix max_chunks = Inr (script, ix') \<and>
    delta_ok g (di_block_length ix) basis source script \<and> index_inv ix'"
proof -
  have c: "reader_ok (cursor_of g ix source)" "reader_bytes (cursor_of g ix source) = source"
    using cursor_reader_ok [of "max (dg_buffer_len g) (di_block_length ix)"] assms(2) by (auto simp: cursor_of_def)
  have env: "scan_env H basis (reader_bytes (cursor_of g ix source)) ix" using assms(1) c by simp
  note seq = generate_ok [OF env c(1), of g arch, unfolded c(2)]
    generate_gated_ok [OF env c(1), of g arch, unfolded c(2)]
  have par: "\<exists>script. bindE (scan_stripes g arch H (reset_consumed ix) source (stripes (length source) chunks (di_block_length ix)))
        (\<lambda>runs. bindE (merge_copy_runs source runs (di_block_length ix)) (\<lambda>script. Inr (script, reset_consumed ix))) =
      Inr (script, reset_consumed ix) \<and> delta_ok g (di_block_length ix) basis source script"
    if "\<not> dg_updating_basis_file g" for chunks
  proof -
    have bl: "di_block_length (reset_consumed ix) = di_block_length ix" by (simp add: reset_consumed_def)
    obtain runs where "scan_stripes g arch H (reset_consumed ix) source (stripes (length source) chunks (di_block_length ix)) = Inr runs"
      "list_all (run_valid (di_block_length ix) basis source) runs"
      using stripes_ok [of _ "stripes (length source) chunks (di_block_length ix)" source H basis "reset_consumed ix" g arch]
        stripes_range [of _ "length source" chunks] scan_env_reset [OF assms(1)] assms(2) bl by auto
    then show ?thesis using merge_copy_runs_ok [OF _ that] by fastforce
  qed
  have inv: "index_inv (reset_consumed ix)" using scan_env_reset [OF assms(1)] by (simp add: scan_env_def)
  define chunks where "chunks = min (max (length source div max (max MIN_PARALLEL_CHUNK_BYTES
    (min (di_block_length ix * 64) USIZE_MAX)) 1) 1) (max max_chunks 1)"
  consider "2 \<le> dg_consecutive_match_needed g"
    | "\<not> 2 \<le> dg_consecutive_match_needed g" "dg_updating_basis_file g \<or> chunks \<le> 1 \<or> di_block_length ix = 0"
    | "\<not> 2 \<le> dg_consecutive_match_needed g" "\<not> dg_updating_basis_file g" "\<not> (chunks \<le> 1 \<or> di_block_length ix = 0)"
    by metis
  then show ?thesis
  proof cases
    case 1
    then show ?thesis using seq(2) by (simp only: generate_chunked_def if_True)
  next
    case 2
    then show ?thesis
      using seq(1) by (simp only: generate_chunked_def Let_def chunks_def [symmetric] if_False if_True if_cancel) auto
  next
    case 3
    then show ?thesis
      using par [OF 3(2), of chunks] inv
      by (simp only: generate_chunked_def Let_def chunks_def [symmetric] if_False) blast
  qed
qed

end
