(* ===== verification/Delta.thy ===== *)
theory Delta
  imports Generator
begin

text \<open>
  The delta transfer end to end: a receiver computes the signature of its basis
  (\<open>Signature\<close>), a sender indexes it (\<open>Index\<close>) and scans its source against it (\<open>Generator\<close>), and
  the receiver applies the script to the basis (\<open>Script\<close>).
\<close>

section \<open>From a generated signature to the scan\<close>

text \<open>The one hypothesis on the strong checksum: among the windows of this source, only a block's own
  content has the block's truncated digest.\<close>

definition collision_free ::
  "hash_crates \<Rightarrow> SignatureAlgorithm \<Rightarrow> SignatureLayout \<Rightarrow> bytes \<Rightarrow> bytes \<Rightarrow> bool" where
  "collision_free H alg l basis source =
    (\<forall>i us w vs. source = us @ w @ vs \<and> length w = unat (sl_block_length l) \<and>
       length (block_chunk l basis i) = unat (sl_block_length l) \<and>
       as_slice_db (compute_truncated H alg w (sl_strong_sum_length l)) =
         as_slice_db (compute_truncated H alg (block_chunk l basis i) (sl_strong_sum_length l)) \<longrightarrow>
       w = block_chunk l basis i)"

lemma signature_scan_env:
  assumes "layout_fits l (length basis)" "length basis < 2 ^ 64" "length source < 2 ^ 64"
    "unat (sl_block_count l) < 2 ^ 31"
    "from_signature \<lparr>fs_layout = l, fs_blocks = map (signature_block arch H alg l basis) [0..<unat (sl_block_count l)],
       fs_total_bytes = t\<rparr> alg = Some ix"
    "collision_free H alg l basis source"
  shows "scan_env H basis source ix \<and> di_block_length ix = unat (sl_block_length l)"
proof -
  let ?bl = "unat (sl_block_length l)" and ?n = "unat (sl_block_count l)"
  have ix: "index_inv ix" "di_blocks ix = map (signature_block arch H alg l basis) [0..<?n]" "di_algorithm ix = alg"
    "di_block_length ix = ?bl" "di_strong_length ix = sl_strong_sum_length l"
    using from_signature_inv [OF assms(5)] assms(4) by auto
  have bl: "0 < ?bl" "?bl < 2 ^ 32" using assms(1) unat_lt2p [of "sl_block_length l"] by (auto simp: layout_fits_def Let_def)
  have "sb_index (di_blocks ix ! i) = of_nat i \<and> 
      (\<forall>us w vs. source = us @ w @ vs \<and> length w = ?bl \<and> strong_match H ix i w \<longrightarrow>
        Suc i * ?bl \<le> length basis \<and> w = take ?bl (drop (i * ?bl) basis))"
    if "is_full ?bl (di_blocks ix) i" for i
  proof -
    have i: "i < ?n" "min (length (block_chunk l basis i)) USIZE_MAX = ?bl"
      using that by (auto simp: is_full_def ix(2) sb_len_def signature_block_def rd_len_from_bytes)
    then have len: "length (block_chunk l basis i) = ?bl" using bl(2) by (auto simp: USIZE_MAX_def min_def split: if_splits)
    then have "?bl \<le> length basis - i * ?bl" by (simp add: block_chunk_def)
    then have "Suc i * ?bl \<le> length basis" using bl(1) by auto
    moreover have "di_blocks ix ! i = signature_block arch H alg l basis i" using i(1) by (simp add: ix(2))
    moreover have "w = block_chunk l basis i"
      if "source = us @ w @ vs" "length w = ?bl" "strong_match H ix i w" for us w vs
    proof -
      have "as_slice_db (compute_truncated H alg w (sl_strong_sum_length l)) =
          as_slice_db (compute_truncated H alg (block_chunk l basis i) (sl_strong_sum_length l))"
        using that(3) i(1) by (simp add: strong_match_def ix signature_block_def)
      then show ?thesis using assms(6) len that(1,2) unfolding collision_free_def by blast
    qed
    ultimately show ?thesis by (auto simp: signature_block_def block_chunk_def)
  qed
  then show ?thesis using ix bl assms(2,3) by (simp add: scan_env_def)
qed

lemma delta_ok_applies:
  assumes "delta_ok g (di_block_length ix) basis source script" "length basis < 2 ^ 64"
  shows "apply_delta basis ix script = Inr source"
proof -
  have "list_all (token_valid (di_block_length ix) basis) (ds_tokens script)"
    "tokens_output (di_block_length ix) basis (ds_tokens script) = source" using assms(1) block_tokens_valid by (auto simp: delta_ok_def)
  then show ?thesis
    using apply_tokens_total [OF assms(2), of "\<lparr>as_pos = 0, as_basis_position = None, as_output = []\<rparr>"
        "di_block_length ix" "ds_tokens script"]
    by (auto simp: apply_delta_def pos_known_def)
qed

text \<open>The premises shared by the properties: an index built from the basis' own signature.\<close>

definition transfer_setup ::
  "SignatureLayoutParams \<Rightarrow> target_arch \<Rightarrow> hash_crates \<Rightarrow> SignatureAlgorithm \<Rightarrow> bytes \<Rightarrow> bytes \<Rightarrow> DeltaSignatureIndex \<Rightarrow> bool" where
  "transfer_setup params arch H alg basis source ix =
    (\<exists>l sig. calculate_signature_layout params = Inr l \<and> slp_forced_block_length params \<noteq> Some 0 \<and>
       length basis = unat (slp_file_length params) \<and> sl_strong_sum_length l \<le> digest_len alg \<and> batch_ok H \<and>
       generate_file_signature arch H basis l alg = Inr sig \<and> from_signature sig alg = Some ix \<and>
       length source < 2 ^ 64 \<and> collision_free H alg l basis source)"

lemma transfer_setup_env:
  assumes "transfer_setup params arch H alg basis source ix"
  shows "scan_env H basis source ix" "length basis < 2 ^ 64"
proof -
  obtain l sig where s: "calculate_signature_layout params = Inr l" "slp_forced_block_length params \<noteq> Some 0"
    "length basis = unat (slp_file_length params)" "sl_strong_sum_length l \<le> digest_len alg" "batch_ok H"
    "generate_file_signature arch H basis l alg = Inr sig" "from_signature sig alg = Some ix"
    "length source < 2 ^ 64" "collision_free H alg l basis source"
    using assms unfolding transfer_setup_def by blast
  show len: "length basis < 2 ^ 64" using s(3) unat_lt2p [of "slp_file_length params"] by simp
  have "derive_block_length (slp_file_length params) (slp_protocol params) \<noteq> 0"
    using derive_block_length_bounds(1) [of "slp_file_length params" "slp_protocol params"] by auto
  then have fits: "layout_fits l (length basis)" "unat (sl_block_count l) < 2 ^ 31"
    using calculate_signature_layout_fits [OF s(1,2)] s(3) by auto
  have "sig = \<lparr>fs_layout = l, fs_blocks = map (signature_block arch H alg l basis) [0..<unat (sl_block_count l)],
      fs_total_bytes = length basis\<rparr>"
    using generate_file_signature_blocks [OF fits(1) s(5) len s(4), of arch "[]"] s(6) by simp
  then show "scan_env H basis source ix"
    using signature_scan_env [OF fits(1) len s(8) fits(2) _ s(9)] s(7) by blast
qed

section \<open>Applying a script in place\<close>

text \<open>The receiver's file is overwritten from the front while copies read from the same file.\<close>

fun apply_in_place :: "nat \<Rightarrow> nat \<Rightarrow> bytes \<Rightarrow> DeltaToken list \<Rightarrow> bytes" where
  "apply_in_place bl pos file [] = take pos file"
| "apply_in_place bl pos file (Literal bs # ts) = apply_in_place bl (pos + length bs) (copy_at pos bs file) ts"
| "apply_in_place bl pos file (Copy i len # ts) =
    apply_in_place bl (pos + len) (copy_at pos (take len (drop (unat i * bl) file)) file) ts"

lemma copy_at_front: "length out = pos \<Longrightarrow> copy_at pos bs (out @ drop pos basis) = (out @ bs) @ drop (pos + length bs) basis"
  by (simp add: copy_at_def add.commute)

lemma apply_in_place_forward:
  assumes "forward bl (length out) ts" "list_all (token_valid bl basis) ts"
  shows "apply_in_place bl (length out) (out @ drop (length out) basis) ts = out @ tokens_output bl basis ts"
  using assms
proof (induction ts arbitrary: out)
  case (Cons t ts)
  show ?case
  proof (cases t)
    case (Literal bs)
    then show ?thesis
      using Cons.IH [of "out @ bs"] Cons.prems copy_at_front [of out "length out" bs basis] by simp
  next
    case (Copy i len)
    have "drop (unat i * bl) (out @ drop (length out) basis) = drop (unat i * bl) basis"
      using Cons.prems(1) Copy by simp
    moreover have "length (take len (drop (unat i * bl) basis)) = len"
      using Cons.prems(2) Copy length_token_output [of bl basis t] by simp
    ultimately show ?thesis
      using Cons.IH [of "out @ take len (drop (unat i * bl) basis)"] Cons.prems Copy
        copy_at_front [of out "length out" "take len (drop (unat i * bl) basis)" basis] by simp
  qed
qed simp

section \<open>A concrete transfer\<close>

definition toy_params :: SignatureLayoutParams where
  "toy_params = layout_params_new 5 (Some 2) 31 2"

lemma toy_setup:
  assumes "length source < 2 ^ 64"
  shows "\<exists>ix. transfer_setup toy_params Other_arch toy_crates Md4 [1, 2, 3, 4, 5] source ix"
proof -
  let ?l = "\<lparr>sl_block_length = 2, sl_remainder = 1, sl_block_count = 3, sl_strong_sum_length = 2\<rparr>"
  have batch: "batch_ok toy_crates" by (simp add: batch_ok_def toy_crates_def)
  have len: "length [1, 2, 3, 4, 5 :: u8] = 5" by simp
  have fits: "layout_fits ?l (length [1, 2, 3, 4, 5 :: u8])" unfolding len by (simp add: layout_fits_def)
  have "[0..<unat (sl_block_count ?l)] = [0, 1, 2]" by (simp add: upt_rec)
  then have "generate_file_signature Other_arch toy_crates [1, 2, 3, 4, 5] ?l Md4 = Inr toy_signature"
    using generate_file_signature_blocks [OF fits batch, of Md4 Other_arch "[]"] unfolding len
    by (simp only: digest_len_def toy_signature_def Let_def) simp
  moreover have "collision_free toy_crates Md4 ?l [1, 2, 3, 4, 5] source"
    by (auto simp: collision_free_def toy_compute)
  moreover obtain ix where "from_signature toy_signature Md4 = Some ix" using toy_signature_indexed by blast
  ultimately have "transfer_setup toy_params Other_arch toy_crates Md4 [1, 2, 3, 4, 5] source ix"
    using assms batch toy_layout unfolding transfer_setup_def toy_params_def
    by (intro exI [of _ ?l] exI [of _ toy_signature]) (simp add: layout_params_new_def digest_len_def)
  then show ?thesis ..
qed

section \<open>Properties\<close>

text \<open>C2: a delta reconstructs the source.  Whatever the block length, the checksum algorithm, the
  processors of the two sides, the way reads split the source, and the generator's settings, generation
  succeeds, the script's counts are those of its tokens, and applying it to the basis yields the source,
  provided no window of the source collides with a basis block it differs from.\<close>

theorem delta_reconstructs:
  assumes "transfer_setup params arch H alg basis source ix" "reader_ok reader" "reader_bytes reader = source"
  shows "\<exists>script ix'. generate g arch' H reader ix = Inr (script, ix') \<and> apply_delta basis ix script = Inr source \<and>
    ds_total_bytes script = of_nat (length source) \<and>
    ds_literal_bytes script = of_nat (literal_total (ds_tokens script))"
proof -
  note env = transfer_setup_env [OF assms(1)]
  from generate_ok [of H basis reader ix g arch'] env assms obtain script ix' where
    g: "generate g arch' H reader ix = Inr (script, ix')" "delta_ok g (di_block_length ix) basis source script" by auto
  then show ?thesis using delta_ok_applies [OF g(2) env(2)] by (auto simp: delta_ok_def)
qed

theorem delta_reconstructs_witness:
  "\<exists>ix script ix'. transfer_setup toy_params Other_arch toy_crates Md4 [1, 2, 3, 4, 5] [9, 3, 4, 1, 2, 7] ix \<and>
    generate dg_new Other_arch toy_crates [Inr [9, 3, 4], Inr [1, 2, 7]] ix = Inr (script, ix') \<and>
    apply_delta [1, 2, 3, 4, 5] ix script = Inr [9, 3, 4, 1, 2, 7]"
proof -
  obtain ix where ix: "transfer_setup toy_params Other_arch toy_crates Md4 [1, 2, 3, 4, 5] [9, 3, 4, 1, 2, 7] ix"
    using toy_setup [of "[9, 3, 4, 1, 2, 7]"] by auto
  have "reader_ok [Inr [9, 3, 4], Inr [1, 2, 7]]" "reader_bytes [Inr [9, 3, 4], Inr [1, 2, 7]] = [9, 3, 4, 1, 2, 7]" by simp_all
  from delta_reconstructs [OF ix this, of dg_new Other_arch] show ?thesis using ix by blast
qed

text \<open>C9: the parallel scan reconstructs too, for every number of stripes: the merged script denotes the
  source although the stripes overlap, copies straddle their seams and literals are cut anew.\<close>

theorem chunked_reconstructs:
  assumes "transfer_setup params arch H alg basis source ix" "0 < dg_buffer_len g"
  shows "\<exists>script ix'. generate_chunked g arch' H source ix max_chunks = Inr (script, ix') \<and>
    apply_delta basis ix script = Inr source \<and> ds_total_bytes script = of_nat (length source) \<and>
    ds_literal_bytes script = of_nat (literal_total (ds_tokens script))"
proof -
  note env = transfer_setup_env [OF assms(1)]
  from generate_chunked_ok [OF env(1) assms(2), of arch' max_chunks] obtain script ix' where
    g: "generate_chunked g arch' H source ix max_chunks = Inr (script, ix')"
    "delta_ok g (di_block_length ix) basis source script" by blast
  then show ?thesis using delta_ok_applies [OF g(2) env(2)] by (auto simp: delta_ok_def)
qed

theorem chunked_reconstructs_witness:
  "let source = concat (replicate 1000000 [9, 3, 4])
   in \<exists>ix script ix'. transfer_setup toy_params Other_arch toy_crates Md4 [1, 2, 3, 4, 5] source ix \<and>
    2 \<le> length source div max MIN_PARALLEL_CHUNK_BYTES (2 * 64) \<and>
    generate_chunked dg_new Other_arch toy_crates source ix 4 = Inr (script, ix') \<and>
    apply_delta [1, 2, 3, 4, 5] ix script = Inr source"
proof -
  define source where "source = concat (replicate 1000000 [9, 3, 4 :: u8])"
  have "length [9, 3, 4 :: u8] = 3" by simp
  then have "length source = 1000000 * 3" unfolding source_def by (simp only: length_concat map_replicate sum_list_replicate of_nat_id)
  then have len: "length source = 3000000" by simp
  obtain ix where ix: "transfer_setup toy_params Other_arch toy_crates Md4 [1, 2, 3, 4, 5] source ix"
    using toy_setup [of source] len by auto
  have "0 < dg_buffer_len dg_new" by (simp add: dg_new_def DEFAULT_BUFFER_LEN_def)
  from chunked_reconstructs [OF ix this, of Other_arch 4] show ?thesis
    unfolding Let_def source_def [symmetric] using ix len by (auto simp: MIN_PARALLEL_CHUNK_BYTES_def)
qed

text \<open>C3: with the in-place guard on, the script can be applied to the very file it reads from: no copy
  needs a byte that an earlier token has overwritten.\<close>

theorem in_place_delta_safe:
  assumes "transfer_setup params arch H alg basis source ix" "reader_ok reader" "reader_bytes reader = source"
    "generate (with_updating_basis_file True g) arch' H reader ix = Inr (script, ix')"
  shows "apply_in_place (di_block_length ix) 0 basis (ds_tokens script) = source \<and>
    forward (di_block_length ix) 0 (ds_tokens script)"
proof -
  let ?g = "with_updating_basis_file True g"
  from generate_ok [of H basis reader ix ?g arch'] transfer_setup_env [OF assms(1)] assms(2-4)
  have "delta_ok ?g (di_block_length ix) basis source script" by auto
  then show ?thesis
    using apply_in_place_forward [of "di_block_length ix" "[]" "ds_tokens script" basis] block_tokens_valid
    by (auto simp: delta_ok_def with_updating_basis_file_def)
qed

theorem in_place_delta_safe_witness:
  "\<exists>ix script ix'. transfer_setup toy_params Other_arch toy_crates Md4 [1, 2, 3, 4, 5] [3, 4, 1, 2] ix \<and>
    generate (with_updating_basis_file True dg_new) Other_arch toy_crates [Inr [3, 4, 1, 2]] ix = Inr (script, ix') \<and>
    apply_in_place (di_block_length ix) 0 [1, 2, 3, 4, 5] (ds_tokens script) = [3, 4, 1, 2]"
proof -
  let ?g = "with_updating_basis_file True dg_new"
  obtain ix where ix: "transfer_setup toy_params Other_arch toy_crates Md4 [1, 2, 3, 4, 5] [3, 4, 1, 2] ix"
    using toy_setup [of "[3, 4, 1, 2]"] by auto
  have r: "reader_ok [Inr [3, 4, 1, 2]]" "reader_bytes [Inr [3, 4, 1, 2]] = [3, 4, 1, 2]" by simp_all
  obtain script ix' where g: "generate ?g Other_arch toy_crates [Inr [3, 4, 1, 2]] ix = Inr (script, ix')"
    using generate_ok [of toy_crates "[1, 2, 3, 4, 5]" "[Inr [3, 4, 1, 2]]" ix ?g Other_arch] transfer_setup_env [OF ix] r by auto
  from in_place_delta_safe [OF ix r g] show ?thesis using ix g by blast
qed

end
