(* ===== verification/Ndx.thy ===== *)
theory Ndx
  imports Codec
begin

text \<open>
  The file-index codec of \<open>crates/protocol/src/codec/ndx\<close>: the 4-byte codec of protocols below 30 and
  the delta codec of later protocols (\<open>codec.rs\<close>), its standalone copy (\<open>state.rs\<close>), the writer with the
  ordering guard, the retried read from a carry-over buffer, and the goodbye handshake (\<open>goodbye.rs\<close>).
  An \<open>i32\<close> is a 32-bit word read through \<^const>\<open>sint\<close>; its arithmetic wraps, as in a release build.
\<close>

section \<open>Constants and shared decoders\<close>

definition NDX_DONE :: i32 where "NDX_DONE = -1"
definition NDX_FLIST_EOF :: i32 where "NDX_FLIST_EOF = -2"
definition NDX_DEL_STATS :: i32 where "NDX_DEL_STATS = -3"
definition NDX_FLIST_OFFSET :: i32 where "NDX_FLIST_OFFSET = -101"
definition NDX_DONE_LEGACY_BYTES :: bytes where "NDX_DONE_LEGACY_BYTES = [0xFF, 0xFF, 0xFF, 0xFF]"
definition NDX_DONE_MODERN_BYTE :: u8 where "NDX_DONE_MODERN_BYTE = 0"

datatype NdxLead = Done | Negative | Positive

definition classify_ndx_lead :: "u8 \<Rightarrow> NdxLead" where
  "classify_ndx_lead lead = (if lead = 0xFF then Negative else if lead = 0 then Done else Positive)"

definition decode_ndx_extended_full :: "u8 \<Rightarrow> u8 \<Rightarrow> u8 \<Rightarrow> u8 \<Rightarrow> i32" where
  "decode_ndx_extended_full tag b0 b1 b2 =
    (let high = ucast (tag AND NOT 0x80)
     in push_bit 24 high OR ucast b0 OR push_bit 8 (ucast b1) OR push_bit 16 (ucast b2))"

definition decode_ndx_extended_diff :: "u8 \<Rightarrow> u8 \<Rightarrow> i32 \<Rightarrow> i32" where
  "decode_ndx_extended_diff hi lo prev_val =
    (let diff = push_bit 8 (ucast hi) OR ucast lo in prev_val + diff)"

definition decode_ndx_short :: "u8 \<Rightarrow> i32 \<Rightarrow> i32" where
  "decode_ndx_short diff_byte prev_val = prev_val + ucast diff_byte"

section \<open>The legacy codec\<close>

definition legacy_write_ndx :: "i32 \<Rightarrow> bytes" where
  "legacy_write_ndx ndx = le_bytes 4 ndx"

definition legacy_write_ndx_done :: bytes where
  "legacy_write_ndx_done = le_bytes 4 NDX_DONE"

definition legacy_read_ndx :: "bytes \<Rightarrow> i32 read_result" where
  "legacy_read_ndx s = bindE (read_exact 4 s) (\<lambda>(buf, s). Inr (from_le buf, s))"

section \<open>The modern codec\<close>

record ModernNdxCodec =
  mn_protocol_version :: nat
  prev_positive :: i32
  prev_negative :: i32

definition modern_new :: "nat \<Rightarrow> ModernNdxCodec option" where
  "modern_new protocol_version =
    (if 30 \<le> protocol_version
     then Some \<lparr>mn_protocol_version = protocol_version, prev_positive = -1, prev_negative = 1\<rparr> else None)"

definition prev_val :: "ModernNdxCodec \<Rightarrow> bool \<Rightarrow> i32" where
  "prev_val c is_negative = (if is_negative then prev_negative c else prev_positive c)"

definition commit_ndx :: "ModernNdxCodec \<Rightarrow> bool \<Rightarrow> i32 \<Rightarrow> i32 \<times> ModernNdxCodec" where
  "commit_ndx c is_negative num =
    (if is_negative then (- num, c\<lparr>prev_negative := num\<rparr>) else (num, c\<lparr>prev_positive := num\<rparr>))"

text \<open>The common tail of \<open>write_ndx\<close>: the difference, or the full value with the high bit set.\<close>

definition encode_ndx_diff :: "i32 \<Rightarrow> i32 \<Rightarrow> bytes" where
  "encode_ndx_diff diff ndx_positive =
    (if 0 < sint diff \<and> sint diff < 0xFE then [ucast diff]
     else if \<not> (0 \<le> sint diff \<and> sint diff \<le> 0x7FFF)
     then [0xFE, ucast (signed_drop_bit 24 ndx_positive) OR 0x80, ucast ndx_positive,
           ucast (signed_drop_bit 8 ndx_positive), ucast (signed_drop_bit 16 ndx_positive)]
     else [0xFE, ucast (signed_drop_bit 8 diff), ucast diff])"

definition modern_write_ndx :: "ModernNdxCodec \<Rightarrow> i32 \<Rightarrow> bytes \<times> ModernNdxCodec" where
  "modern_write_ndx c ndx =
    (if 0 \<le> sint ndx
     then let diff = ndx - prev_positive c
          in (encode_ndx_diff diff ndx, c\<lparr>prev_positive := ndx\<rparr>)
     else if ndx = NDX_DONE then ([0], c)
     else let ndx_abs = - ndx; diff = ndx_abs - prev_negative c
          in (0xFF # encode_ndx_diff diff ndx_abs, c\<lparr>prev_negative := ndx_abs\<rparr>))"

definition modern_write_ndx_done :: bytes where
  "modern_write_ndx_done = [0]"

text \<open>The part of \<open>read_ndx\<close> after the sign: \<open>b0\<close> is the current lead byte.\<close>

definition read_ndx_num :: "i32 \<Rightarrow> u8 \<Rightarrow> bytes \<Rightarrow> i32 read_result" where
  "read_ndx_num prev b0 s =
    (if b0 = 0xFE
     then bindE (read_exact 1 s) (\<lambda>(b, s).
       if hd b AND 0x80 \<noteq> 0
       then let high = hd b
            in bindE (read_exact 3 s) (\<lambda>(b, s). Inr (decode_ndx_extended_full high (b ! 0) (b ! 1) (b ! 2), s))
       else let hi = hd b
            in bindE (read_exact 1 s) (\<lambda>(b, s). Inr (decode_ndx_extended_diff hi (hd b) prev, s)))
     else Inr (decode_ndx_short b0 prev, s))"

definition modern_read_ndx :: "ModernNdxCodec \<Rightarrow> bytes \<Rightarrow> (i32 \<times> ModernNdxCodec) read_result" where
  "modern_read_ndx c s =
    bindE (read_exact 1 s) (\<lambda>(b, s).
      case classify_ndx_lead (hd b) of
        Done \<Rightarrow> Inr ((NDX_DONE, c), s)
      | Negative \<Rightarrow>
          bindE (read_exact 1 s) (\<lambda>(b, s).
            bindE (read_ndx_num (prev_val c True) (hd b) s) (\<lambda>(num, s). Inr (commit_ndx c True num, s)))
      | Positive \<Rightarrow>
          bindE (read_ndx_num (prev_val c False) (hd b) s) (\<lambda>(num, s). Inr (commit_ndx c False num, s)))"

section \<open>The versioned codec\<close>

datatype NdxCodecEnum = Legacy nat | Modern ModernNdxCodec

definition ndx_codec_new :: "nat \<Rightarrow> NdxCodecEnum" where
  "ndx_codec_new protocol_version =
    (if protocol_version < 30 then Legacy protocol_version
     else Modern \<lparr>mn_protocol_version = protocol_version, prev_positive = -1, prev_negative = 1\<rparr>)"

definition write_ndx :: "NdxCodecEnum \<Rightarrow> i32 \<Rightarrow> bytes \<times> NdxCodecEnum" where
  "write_ndx c ndx =
    (case c of
       Legacy v \<Rightarrow> (legacy_write_ndx ndx, c)
     | Modern m \<Rightarrow> (case modern_write_ndx m ndx of (bs, m) \<Rightarrow> (bs, Modern m)))"

definition write_ndx_done :: "NdxCodecEnum \<Rightarrow> bytes" where
  "write_ndx_done c = (case c of Legacy _ \<Rightarrow> legacy_write_ndx_done | Modern _ \<Rightarrow> modern_write_ndx_done)"

definition read_ndx :: "NdxCodecEnum \<Rightarrow> bytes \<Rightarrow> (i32 \<times> NdxCodecEnum) read_result" where
  "read_ndx c s =
    (case c of
       Legacy v \<Rightarrow> bindE (legacy_read_ndx s) (\<lambda>(n, s). Inr ((n, c), s))
     | Modern m \<Rightarrow> bindE (modern_read_ndx m s) (\<lambda>((n, m), s). Inr ((n, Modern m), s)))"

definition ndx_protocol_version :: "NdxCodecEnum \<Rightarrow> nat" where
  "ndx_protocol_version c = (case c of Legacy v \<Rightarrow> v | Modern m \<Rightarrow> mn_protocol_version m)"

text \<open>The retried read: the codec runs on the bytes carried over so far, and more bytes are read while it
  runs short.  The reads of the source are a list; the last result is the unread rest of it.\<close>

fun read_ndx_from_carry ::
  "NdxCodecEnum \<Rightarrow> bytes list \<Rightarrow> bytes \<Rightarrow> io_error + i32 \<times> NdxCodecEnum \<times> bytes \<times> bytes list" where
  "read_ndx_from_carry c reads carry =
    (case (if carry \<noteq> [] then read_ndx c carry else Inl UnexpectedEof) of
       Inr ((ndx, c'), rest) \<Rightarrow> Inr (ndx, c', rest, reads)
     | Inl e \<Rightarrow>
         if e \<noteq> UnexpectedEof then Inl e
         else (case reads of
                 [] \<Rightarrow> Inl UnexpectedEof
               | buf # reads \<Rightarrow>
                   if buf = [] then Inl UnexpectedEof else read_ndx_from_carry c reads (carry @ buf)))"

declare read_ndx_from_carry.simps [simp del]

section \<open>The ordering guard\<close>

text \<open>\<open>Inl\<close> is the failed \<open>debug_assert!\<close>.\<close>

record MonotonicNdxWriter =
  mw_inner :: NdxCodecEnum
  last_positive :: "i32 option"
  redo_seen :: bool

definition monotonic_new :: "nat \<Rightarrow> MonotonicNdxWriter" where
  "monotonic_new protocol_version =
    \<lparr>mw_inner = ndx_codec_new protocol_version, last_positive = None, redo_seen = False\<rparr>"

definition monotonic_guard :: "MonotonicNdxWriter \<Rightarrow> i32 \<Rightarrow> unit + MonotonicNdxWriter" where
  "monotonic_guard w ndx =
    (if 0 \<le> sint ndx
     then let w = (case last_positive w of
                     Some prev \<Rightarrow> if sint ndx \<le> sint prev then w\<lparr>redo_seen := True\<rparr> else w
                   | None \<Rightarrow> w)
          in if \<not> redo_seen w
             then (case last_positive w of
                     Some prev \<Rightarrow> if sint prev < sint ndx then Inr (w\<lparr>last_positive := Some ndx\<rparr>) else Inl ()
                   | None \<Rightarrow> Inr (w\<lparr>last_positive := Some ndx\<rparr>))
             else Inr w
     else Inr w)"

definition monotonic_write_ndx :: "MonotonicNdxWriter \<Rightarrow> i32 \<Rightarrow> unit + bytes \<times> MonotonicNdxWriter" where
  "monotonic_write_ndx w ndx =
    bindE (monotonic_guard w ndx) (\<lambda>w.
      case write_ndx (mw_inner w) ndx of (bs, c) \<Rightarrow> Inr (bs, w\<lparr>mw_inner := c\<rparr>))"

text \<open>A sequence of guarded writes.\<close>

primrec monotonic_writes :: "MonotonicNdxWriter \<Rightarrow> i32 list \<Rightarrow> unit + bytes \<times> MonotonicNdxWriter" where
  "monotonic_writes w [] = Inr ([], w)"
| "monotonic_writes w (n # ns) =
    bindE (monotonic_write_ndx w n) (\<lambda>(bs, w). bindE (monotonic_writes w ns) (\<lambda>(cs, w). Inr (bs @ cs, w)))"

section \<open>The standalone copy\<close>

record NdxState =
  ns_prev_positive :: i32
  ns_prev_negative :: i32

definition ndx_state_new :: NdxState where
  "ndx_state_new = \<lparr>ns_prev_positive = -1, ns_prev_negative = 1\<rparr>"

definition state_write_ndx :: "NdxState \<Rightarrow> i32 \<Rightarrow> bytes \<times> NdxState" where
  "state_write_ndx st ndx =
    (if 0 \<le> sint ndx
     then let diff = ndx - ns_prev_positive st
          in (encode_ndx_diff diff ndx, st\<lparr>ns_prev_positive := ndx\<rparr>)
     else if ndx = NDX_DONE then ([0], st)
     else let ndx_abs = - ndx; diff = ndx_abs - ns_prev_negative st
          in (0xFF # encode_ndx_diff diff ndx_abs, st\<lparr>ns_prev_negative := ndx_abs\<rparr>))"

definition state_read_num :: "i32 \<Rightarrow> u8 \<Rightarrow> bytes \<Rightarrow> i32 read_result" where
  "state_read_num prev b0 s =
    (if b0 = 0xFE
     then bindE (read_exact 1 s) (\<lambda>(b, s).
       if hd b AND 0x80 \<noteq> 0
       then let high = ucast (hd b AND NOT 0x80)
            in bindE (read_exact 3 s) (\<lambda>(b, s).
                 Inr (push_bit 24 high OR ucast (b ! 0) OR push_bit 8 (ucast (b ! 1)) OR push_bit 16 (ucast (b ! 2)), s))
       else let b0 = hd b
            in bindE (read_exact 1 s) (\<lambda>(b, s).
                 let diff = push_bit 8 (ucast b0) OR ucast (hd b) in Inr (prev + diff, s)))
     else Inr (prev + ucast b0, s))"

definition state_read_ndx :: "NdxState \<Rightarrow> bytes \<Rightarrow> (i32 \<times> NdxState) read_result" where
  "state_read_ndx st s =
    bindE (read_exact 1 s) (\<lambda>(b, s).
      if hd b = 0xFF
      then bindE (read_exact 1 s) (\<lambda>(b, s).
             bindE (state_read_num (ns_prev_negative st) (hd b) s) (\<lambda>(num, s).
               Inr ((- num, st\<lparr>ns_prev_negative := num\<rparr>), s)))
      else if hd b = 0 then Inr ((NDX_DONE, st), s)
      else bindE (state_read_num (ns_prev_positive st) (hd b) s) (\<lambda>(num, s).
             Inr ((num, st\<lparr>ns_prev_positive := num\<rparr>), s)))"

definition write_ndx_flist_eof :: "NdxState \<Rightarrow> bytes \<times> NdxState" where
  "write_ndx_flist_eof st = state_write_ndx st NDX_FLIST_EOF"

section \<open>Goodbye\<close>

definition write_goodbye :: "nat \<Rightarrow> bytes" where
  "write_goodbye protocol_version =
    (if protocol_version < 30 then NDX_DONE_LEGACY_BYTES else [NDX_DONE_MODERN_BYTE])"

definition read_goodbye :: "nat \<Rightarrow> bytes \<Rightarrow> unit read_result" where
  "read_goodbye protocol_version s =
    (if protocol_version < 30
     then bindE (read_exact 4 s) (\<lambda>(buf, s).
       if (from_le buf :: i32) \<noteq> NDX_DONE then Inl InvalidData else Inr ((), s))
     else bindE (read_exact 1 s) (\<lambda>(buf, s).
       if hd buf \<noteq> NDX_DONE_MODERN_BYTE then Inl InvalidData else Inr ((), s)))"

section \<open>The delta encoding\<close>

lemma sint_nonneg_bit: "0 \<le> sint (n :: i32) \<longleftrightarrow> \<not> bit n 31"
  using bit_last_iff [of n] by auto

lemma bit_128: "bit (0x80 :: int) j \<longleftrightarrow> j = 7"
  using bit_exp_iff [where ?'a = int, of 7 j] by auto

lemma clear_high: "(t OR 0x80 :: u8) AND NOT 0x80 = take_bit 7 t"
  by (rule bit_word_eqI) (auto simp: bit_simps bit_128)

lemma byte_cases:
  "i < (32 :: nat) \<Longrightarrow> i < 8 \<or> (\<exists>j < 8. i = 8 + j) \<or> (\<exists>j < 8. i = 16 + j) \<or> (\<exists>j < 8. i = 24 + j)"
  by presburger

lemma decode_full_encode:
  assumes "\<not> bit (n :: i32) 31"
  shows "decode_ndx_extended_full (ucast (signed_drop_bit 24 n) OR 0x80) (ucast n) (ucast (signed_drop_bit 8 n))
      (ucast (signed_drop_bit 16 n)) = n"
proof (rule bit_word_eqI)
  fix i assume "i < LENGTH(32)"
  then have "i < 8 \<or> (\<exists>j < 8. i = 8 + j) \<or> (\<exists>j < 8. i = 16 + j) \<or> (\<exists>j < 8. i = 24 + j)"
    using byte_cases [of i] by simp
  then consider "i < 8" | j where "i = 8 + j" "j < 8" | j where "i = 16 + j" "j < 8" | j where "i = 24 + j" "j < 8"
    by blast
  then have "bit (push_bit 24 (ucast (take_bit 7 (ucast (signed_drop_bit 24 n) :: u8))) OR ucast (ucast n :: u8) OR
      push_bit 8 (ucast (ucast (signed_drop_bit 8 n) :: u8)) OR push_bit 16 (ucast (ucast (signed_drop_bit 16 n) :: u8)) :: i32) i
      \<longleftrightarrow> bit n i"
  proof cases
    case (4 j)
    then show ?thesis using assms by (cases "j = 7") (simp_all add: bit_simps)
  qed (simp_all add: bit_simps)
  then show "bit (decode_ndx_extended_full (ucast (signed_drop_bit 24 n) OR 0x80) (ucast n) (ucast (signed_drop_bit 8 n))
      (ucast (signed_drop_bit 16 n))) i \<longleftrightarrow> bit n i"
    unfolding decode_ndx_extended_full_def Let_def clear_high .
qed

lemma set_high: "(t OR 0x80 :: u8) AND 0x80 \<noteq> 0"
proof -
  have "(t OR 0x80 :: u8) AND 0x80 = 0x80" by (rule bit_word_eqI) (auto simp: bit_simps bit_128)
  then show ?thesis by simp
qed

lemma small_diff_bits:
  assumes "0 \<le> sint (d :: i32)" "sint d < 2 ^ k" "k \<le> i" "k < 32"
  shows "\<not> bit d i"
proof
  assume b: "bit d i"
  have "take_bit k (sint d) = sint d" using assms(1,2) by (simp add: take_bit_int_eq_self)
  moreover have "bit (sint d) i" using b by (simp add: bit_sint_iff)
  ultimately show False using assms(3) by (metis bit_take_bit_iff not_le)
qed

lemma decode_short_encode:
  assumes "0 < sint d" "sint d < 0xFE"
  shows "ucast (ucast (d :: i32) :: u8) = d"
proof (rule bit_word_eqI)
  fix i assume "i < LENGTH(32)"
  have "bit d i \<Longrightarrow> i < 8" using small_diff_bits [of d 8 i] assms by (cases "i < 8") auto
  then show "bit (ucast (ucast d :: u8) :: i32) i \<longleftrightarrow> bit d i"
    by (auto simp: bit_simps dest: bit_imp_le_length)
qed

lemma decode_diff_encode:
  assumes "0 \<le> sint d" "sint d \<le> 0x7FFF"
  shows "push_bit 8 (ucast (ucast (signed_drop_bit 8 d) :: u8)) OR ucast (ucast d :: u8) = (d :: i32)"
    and "(ucast (signed_drop_bit 8 d) :: u8) AND 0x80 = 0"
proof -
  have hi: "bit d i \<Longrightarrow> i < 15" for i using small_diff_bits [of d 15 i] assms by (cases "i < 15") auto
  show "push_bit 8 (ucast (ucast (signed_drop_bit 8 d) :: u8)) OR ucast (ucast d :: u8) = (d :: i32)"
  proof (rule bit_word_eqI)
    fix i assume "i < LENGTH(32)"
    then show "bit (push_bit 8 (ucast (ucast (signed_drop_bit 8 d) :: u8)) OR ucast (ucast d :: u8) :: i32) i \<longleftrightarrow> bit d i"
      using hi [of i] by (cases "i < 8") (auto simp: bit_simps dest: bit_imp_le_length)
  qed
  show "(ucast (signed_drop_bit 8 d) :: u8) AND 0x80 = 0"
    by (rule bit_word_eqI) (use hi [of 15] in \<open>auto simp: bit_simps bit_128\<close>)
qed

lemma encode_ndx_diff_lead:
  "\<exists>b bs. encode_ndx_diff d n = b # bs \<and> b \<noteq> 0 \<and> b \<noteq> 0xFF"
proof (cases "0 < sint d \<and> sint d < 0xFE")
  case True
  have u: "ucast (ucast d :: u8) = d" using decode_short_encode True by blast
  have ne: "(ucast d :: u8) \<noteq> k" if "sint (ucast k :: i32) \<notin> {0<..<0xFE}" for k :: u8
  proof
    assume "(ucast d :: u8) = k"
    then have "d = ucast k" using u by simp
    then show False using that True by simp
  qed
  from ne [of 0] ne [of "0xFF"] have "(ucast d :: u8) \<noteq> 0" "(ucast d :: u8) \<noteq> 0xFF" by simp_all
  then show ?thesis using True by (simp add: encode_ndx_diff_def)
qed (auto simp: encode_ndx_diff_def)

lemma read_ndx_num_encode:
  assumes "\<not> bit n 31" "encode_ndx_diff (n - prev) n = b # bs"
  shows "read_ndx_num prev b (bs @ rest) = Inr (n, rest)"
proof -
  let ?d = "n - prev"
  consider "0 < sint ?d \<and> sint ?d < 0xFE" | "\<not> (0 < sint ?d \<and> sint ?d < 0xFE)" "\<not> (0 \<le> sint ?d \<and> sint ?d \<le> 0x7FFF)"
    | "\<not> (0 < sint ?d \<and> sint ?d < 0xFE)" "0 \<le> sint ?d \<and> sint ?d \<le> 0x7FFF" by blast
  then show ?thesis
  proof cases
    case 1
    then have b: "b = ucast ?d" "bs = []" using assms(2) by (auto simp: encode_ndx_diff_def)
    have u: "ucast (ucast ?d :: u8) = ?d" using decode_short_encode 1 by blast
    have "b \<noteq> 0xFE"
    proof
      assume "b = 0xFE"
      then have "?d = 0xFE" using u b by simp
      then show False using 1 by simp
    qed
    then show ?thesis using u b by (simp add: read_ndx_num_def decode_ndx_short_def)
  next
    case 2
    then have "b = 0xFE" "bs = [ucast (signed_drop_bit 24 n) OR 0x80, ucast n, ucast (signed_drop_bit 8 n), ucast (signed_drop_bit 16 n)]"
      using assms(2) by (auto simp: encode_ndx_diff_def simp del: signed_drop_bit_word_numeral)
    then show ?thesis
      using decode_full_encode [OF assms(1)] set_high by (simp add: read_ndx_num_def read_exact_def Let_def)
  next
    case 3
    then have "b = 0xFE" "bs = [ucast (signed_drop_bit 8 ?d), ucast ?d]" using assms(2) by (auto simp: encode_ndx_diff_def)
    then show ?thesis
      using decode_diff_encode [of ?d] 3(2) by (simp add: read_ndx_num_def read_exact_def decode_ndx_extended_diff_def)
  qed
qed

lemma neg_ndx_high:
  assumes "\<not> 0 \<le> sint (ndx :: i32)" "ndx \<noteq> 0x80000000"
  shows "\<not> bit (- ndx) 31"
proof -
  have r: "- (2 ^ 31) \<le> sint ndx" using sint_ge [of ndx] by simp
  have "sint ndx \<noteq> - (2 ^ 31)"
  proof
    assume "sint ndx = - (2 ^ 31)"
    moreover have "ndx = word_of_int (sint ndx)" by (simp flip: scast_eq)
    ultimately have "ndx = word_of_int (- (2 ^ 31))" by simp
    then show False using assms(2) by simp
  qed
  then have "- sint ndx < 2 ^ 31" "0 < - sint ndx" using r assms(1) by auto
  then have "sint (- ndx) = - sint ndx" by (simp add: sint_word_ariths signed_take_bit_int_eq_self)
  then show ?thesis using assms(1) sint_nonneg_bit [of "- ndx"] by simp
qed

lemma modern_round_trip:
  assumes "ndx \<noteq> 0x80000000" "modern_write_ndx c ndx = (bs, c')"
  shows "modern_read_ndx c (bs @ rest) = Inr ((ndx, c'), rest)"
proof -
  consider "0 \<le> sint ndx" | "\<not> 0 \<le> sint ndx" "ndx = NDX_DONE" | "\<not> 0 \<le> sint ndx" "ndx \<noteq> NDX_DONE" by blast
  then show ?thesis
  proof cases
    case 1
    obtain b bs' where e: "encode_ndx_diff (ndx - prev_positive c) ndx = b # bs'" "b \<noteq> 0" "b \<noteq> 0xFF"
      using encode_ndx_diff_lead by blast
    have "read_ndx_num (prev_positive c) b (bs' @ rest) = Inr (ndx, rest)"
      using read_ndx_num_encode [OF _ e(1)] 1 by (simp add: sint_nonneg_bit)
    moreover have "bs = b # bs'" "c' = c\<lparr>prev_positive := ndx\<rparr>"
      using assms(2) 1 e(1) by (auto simp: modern_write_ndx_def)
    ultimately show ?thesis
      using e(2,3) by (simp add: modern_read_ndx_def classify_ndx_lead_def prev_val_def commit_ndx_def)
  next
    case 2
    then show ?thesis
      using assms(2) by (auto simp: modern_write_ndx_def modern_read_ndx_def classify_ndx_lead_def)
  next
    case 3
    obtain b bs' where e: "encode_ndx_diff (- ndx - prev_negative c) (- ndx) = b # bs'" using encode_ndx_diff_lead by blast
    have "read_ndx_num (prev_negative c) b (bs' @ rest) = Inr (- ndx, rest)"
      using read_ndx_num_encode [OF neg_ndx_high [OF 3(1) assms(1)] e] .
    moreover have "bs = 0xFF # b # bs'" "c' = c\<lparr>prev_negative := - ndx\<rparr>"
      using assms(2) 3 e by (auto simp: modern_write_ndx_def Let_def)
    ultimately show ?thesis
      by (simp add: modern_read_ndx_def classify_ndx_lead_def prev_val_def commit_ndx_def)
  qed
qed

lemma legacy_round_trip: "legacy_read_ndx (legacy_write_ndx ndx @ rest) = Inr (ndx, rest)"
  by (simp add: legacy_read_ndx_def legacy_write_ndx_def)

interpretation ndx: stateful_codec write_ndx read_ndx "\<lambda>ndx. ndx \<noteq> 0x80000000"
proof
  fix v s bs s' rest
  assume "v \<noteq> (0x80000000 :: i32)" "write_ndx s v = (bs, s')"
  then show "read_ndx s (bs @ rest) = Inr ((v, s'), rest)"
    by (cases s) (auto simp: write_ndx_def read_ndx_def legacy_round_trip modern_round_trip split: prod.splits)
qed

section \<open>Retried reads\<close>

lemma prefix_decided_case_lead [prefix_decided_intros]:
  "(x = Done \<Longrightarrow> prefix_decided f) \<Longrightarrow> (x = Negative \<Longrightarrow> prefix_decided g) \<Longrightarrow> (x = Positive \<Longrightarrow> prefix_decided h) \<Longrightarrow>
    prefix_decided (\<lambda>s. case x of Done \<Rightarrow> f s | Negative \<Rightarrow> g s | Positive \<Rightarrow> h s)"
  by (cases x) simp_all

lemma prefix_decided_map [prefix_decided_intros]:
  "prefix_decided m \<Longrightarrow> prefix_decided (\<lambda>s. bindE (m s) (\<lambda>(x, s). Inr (f x, s)))"
  by (fastforce simp: prefix_decided_def bindE_eq_Inr)

lemma prefix_decided_read_ndx: "prefix_decided (read_ndx c)"
proof -
  have "prefix_decided (read_ndx_num p b)" for p b
    unfolding read_ndx_num_def Let_def by (intro prefix_decided_intros)
  then have modern: "prefix_decided (modern_read_ndx m)" for m
    unfolding modern_read_ndx_def by (intro prefix_decided_intros) auto
  have pair: "(\<lambda>s. bindE (modern_read_ndx m s) (\<lambda>((n, m), s). Inr ((n, Modern m), s))) =
      (\<lambda>s. bindE (modern_read_ndx m s) (\<lambda>(x, s). Inr ((fst x, Modern (snd x)), s)))" for m
    by (auto simp: fun_eq_iff bindE_def split: sum.splits)
  show ?thesis
  proof (cases c)
    case (Legacy v)
    have "prefix_decided legacy_read_ndx" unfolding legacy_read_ndx_def by (intro prefix_decided_intros)
    then show ?thesis unfolding read_ndx_def Legacy by (auto intro: prefix_decided_map [of legacy_read_ndx "\<lambda>n. (n, Legacy v)"])
  next
    case (Modern m)
    then show ?thesis unfolding read_ndx_def by (simp add: pair prefix_decided_map [OF modern])
  qed
qed

lemma read_ndx_eof: "read_ndx c s = Inl e \<Longrightarrow> e = UnexpectedEof"
  by (auto simp: read_ndx_def legacy_read_ndx_def modern_read_ndx_def read_ndx_num_def read_exact_def Let_def
      split: NdxCodecEnum.splits if_splits NdxLead.splits prod.splits)

lemma read_ndx_Nil: "read_ndx c [] = Inl UnexpectedEof"
  by (simp add: read_ndx_def legacy_read_ndx_def modern_read_ndx_def read_exact_def split: NdxCodecEnum.splits)

section \<open>The guarded writer\<close>

definition last_opt :: "'a list \<Rightarrow> 'a option" where
  "last_opt xs = (if xs = [] then None else Some (last xs))"

definition guarded :: "MonotonicNdxWriter \<Rightarrow> i32 \<Rightarrow> MonotonicNdxWriter" where
  "guarded w n =
    (if sint n < 0 then w
     else if redo_seen w \<or> (\<exists>prev. last_positive w = Some prev \<and> sint n \<le> sint prev) then w\<lparr>redo_seen := True\<rparr>
     else w\<lparr>last_positive := Some n\<rparr>)"

lemma monotonic_guard_passes: "monotonic_guard w n = Inr (guarded w n)"
  by (cases w) (auto simp: monotonic_guard_def guarded_def Let_def split: option.splits)

lemma mw_inner_guarded [simp]: "mw_inner (guarded w n) = mw_inner w"
  by (simp add: guarded_def)

lemma monotonic_writes_Cons:
  assumes "w1 = (guarded w n)\<lparr>mw_inner := snd (write_ndx (mw_inner w) n)\<rparr>"
    "\<exists>w'. monotonic_writes w1 ns = Inr (fst (enc_seq write_ndx (mw_inner w1) ns), w') \<and>
      mw_inner w' = snd (enc_seq write_ndx (mw_inner w1) ns) \<and> P w'"
  shows "\<exists>w'. monotonic_writes w (n # ns) = Inr (fst (enc_seq write_ndx (mw_inner w) (n # ns)), w') \<and>
    mw_inner w' = snd (enc_seq write_ndx (mw_inner w) (n # ns)) \<and> P w'"
  using assms by (auto simp: monotonic_write_ndx_def monotonic_guard_passes split: prod.splits)

lemma monotonic_writes_latched:
  assumes "redo_seen w"
  shows "\<exists>w'. monotonic_writes w ns = Inr (fst (enc_seq write_ndx (mw_inner w) ns), w') \<and>
    mw_inner w' = snd (enc_seq write_ndx (mw_inner w) ns) \<and> redo_seen w'"
  using assms
proof (induction ns arbitrary: w)
  case (Cons n ns)
  show ?case by (rule monotonic_writes_Cons [OF refl Cons.IH]) (simp add: guarded_def Cons.prems)
qed simp

lemma sint_sorted_last:
  assumes "sorted_wrt (\<lambda>a b. sint a < sint b) xs" "x \<in> set xs"
  shows "sint x \<le> sint (last xs)"
proof -
  from assms(2) obtain ys y where "xs = ys @ [y]" by (cases xs rule: rev_cases) auto
  then show ?thesis using assms by (auto simp: sorted_wrt_append intro: less_imp_le)
qed

text \<open>\<open>ps\<close>: the non-negative indices written so far, which increased strictly.\<close>

lemma monotonic_writes_run:
  fixes ps :: "i32 list"
  defines "up \<equiv> sorted_wrt (\<lambda>a b :: i32. sint a < sint b)" and "pos \<equiv> filter (\<lambda>n :: i32. 0 \<le> sint n)"
  assumes "\<not> redo_seen w" "last_positive w = last_opt ps" "up ps"
  shows "\<exists>w'. monotonic_writes w ns = Inr (fst (enc_seq write_ndx (mw_inner w) ns), w') \<and>
    mw_inner w' = snd (enc_seq write_ndx (mw_inner w) ns) \<and> (redo_seen w' \<longleftrightarrow> \<not> up (ps @ pos ns)) \<and>
    (redo_seen w' \<or> last_positive w' = last_opt (ps @ pos ns))"
  using assms(3-5)
proof (induction ns arbitrary: w ps)
  case (Cons n ns)
  consider (neg) "sint n < 0" | (redo) "0 \<le> sint n" "ps \<noteq> []" "sint n \<le> sint (last ps)"
    | (forward) "0 \<le> sint n" "ps = [] \<or> sint (last ps) < sint n" by linarith
  then show ?case
  proof cases
    case neg
    then have e: "pos (n # ns) = pos ns" "guarded w n = w" by (simp_all add: pos_def guarded_def)
    show ?thesis unfolding e(1)
      by (rule monotonic_writes_Cons [OF refl Cons.IH]) (simp_all only: e(2), simp_all add: Cons.prems)
  next
    case redo
    have "last ps \<in> set ps" using redo(2) by simp
    then have e: "\<not> up (ps @ pos (n # ns))"
      using redo(1,3) unfolding up_def by (auto simp: pos_def sorted_wrt_append intro!: bexI [of _ "last ps"])
    have "redo_seen (guarded w n)" using redo Cons.prems(2) by (auto simp: guarded_def last_opt_def)
    then show ?thesis
      using monotonic_writes_Cons [OF refl monotonic_writes_latched, of w n ns] e by auto
  next
    case forward
    have up: "up (ps @ [n])" using forward(2) Cons.prems(3) sint_sorted_last [of ps]
      unfolding up_def by (fastforce simp: sorted_wrt_append)
    have e: "ps @ pos (n # ns) = (ps @ [n]) @ pos ns" "guarded w n = w\<lparr>last_positive := Some n\<rparr>"
      using forward Cons.prems(1,2) by (auto simp: pos_def guarded_def last_opt_def)
    show ?thesis unfolding e(1)
      by (rule monotonic_writes_Cons [OF refl Cons.IH]) (simp_all only: e(2), simp_all add: Cons.prems up last_opt_def)
  qed
qed (simp add: pos_def)

section \<open>Properties\<close>

text \<open>C36: file indices survive the wire under every protocol version.  Any sequence of indices and
  sentinels other than the smallest 32-bit integer, written by one codec and read by another that starts in the
  same state, comes back unchanged, and the two delta states stay equal.\<close>

theorem ndx_stream_roundtrip:
  assumes "0x80000000 \<notin> set ns" "enc_seq write_ndx (ndx_codec_new v) ns = (bs, c)"
  shows "dec_seq read_ndx (length ns) (ndx_codec_new v) (bs @ rest) = Inr ((ns, c), rest)"
  using assms by (intro ndx.dec_seq_enc_seq) (auto simp: list_all_iff)

theorem ndx_stream_roundtrip_witness:
  "dec_seq read_ndx 4 (ndx_codec_new 32)
     (fst (enc_seq write_ndx (ndx_codec_new 32) [5, 70000, NDX_FLIST_EOF, NDX_DONE]))
   = Inr (([5, 70000, NDX_FLIST_EOF, NDX_DONE], snd (enc_seq write_ndx (ndx_codec_new 32) [5, 70000, NDX_FLIST_EOF, NDX_DONE])), [])"
proof -
  let ?ns = "[5, 70000, NDX_FLIST_EOF, NDX_DONE]"
  have len: "length ?ns = 4" by simp
  have "0x80000000 \<notin> set ?ns" by (simp add: NDX_FLIST_EOF_def NDX_DONE_def)
  moreover obtain bs c where e: "enc_seq write_ndx (ndx_codec_new 32) ?ns = (bs, c)" by fastforce
  ultimately have "dec_seq read_ndx (length ?ns) (ndx_codec_new 32) (bs @ []) = Inr ((?ns, c), [])"
    by (rule ndx_stream_roundtrip)
  then show ?thesis unfolding len e by simp
qed

text \<open>C37: reading an index through a carry-over buffer, with retries whenever the bytes at hand run short,
  is the same as reading it from the whole stream at once: same value, same codec state, and the bytes not
  consumed are the rest of the stream.\<close>

theorem carry_read_equals_direct:
  assumes "[] \<notin> set reads"
  shows "case read_ndx c (carry @ concat reads) of
      Inl e \<Rightarrow> read_ndx_from_carry c reads carry = Inl e
    | Inr ((ndx, c'), rest) \<Rightarrow> (\<exists>carry' reads'.
        read_ndx_from_carry c reads carry = Inr (ndx, c', carry', reads') \<and> carry' @ concat reads' = rest)"
  using assms
proof (induction reads arbitrary: carry)
  case Nil
  show ?case
    using read_ndx_eof [of c carry] read_ndx_Nil [of c]
    by (subst (1 2) read_ndx_from_carry.simps) (cases "carry = []", auto split: sum.splits prod.splits)
next
  case (Cons r reads)
  show ?case
  proof (cases "if carry \<noteq> [] then read_ndx c carry else Inl UnexpectedEof")
    case (Inl e)
    then have "e = UnexpectedEof" using read_ndx_eof [of c carry] by (auto split: if_splits)
    then have step: "read_ndx_from_carry c (r # reads) carry = read_ndx_from_carry c reads (carry @ r)"
      using Inl Cons.prems by (subst read_ndx_from_carry.simps) (auto split: if_splits)
    show ?thesis using Cons.IH [of "carry @ r"] Cons.prems unfolding step append_assoc concat.simps by simp
  next
    case (Inr x)
    obtain n c' rest where x: "x = ((n, c'), rest)" by (metis surj_pair)
    have "read_ndx c carry = Inr ((n, c'), rest)" using Inr x by (auto split: if_splits)
    then have "read_ndx c (carry @ concat (r # reads)) = Inr ((n, c'), rest @ concat (r # reads))"
      by (rule prefix_decidedD [OF prefix_decided_read_ndx])
    moreover have "read_ndx_from_carry c (r # reads) carry = Inr (n, c', rest, r # reads)"
      using Inr x by (subst read_ndx_from_carry.simps) simp
    ultimately show ?thesis by simp
  qed
qed

theorem carry_read_equals_direct_witness:
  "\<exists>c' carry' reads'. read_ndx_from_carry (ndx_codec_new 32) [[0x80, 0x70], [0x11, 0x01, 9]] [0xFE] = Inr (70000, c', carry', reads') \<and>
    carry' @ concat reads' = [9]"
proof -
  let ?c = "ndx_codec_new 32" and ?w = "[0xFE, 0x80, 0x70, 0x11, 0x01] :: bytes"
  have "write_ndx ?c 70000 = (?w, snd (write_ndx ?c 70000))" by code_simp
  then have "read_ndx ?c (?w @ [9]) = Inr ((70000, snd (write_ndx ?c 70000)), [9])" by (intro ndx.dec_enc) simp_all
  then show ?thesis
    using carry_read_equals_direct [of "[[0x80, 0x70], [0x11, 0x01, 9]]" ?c "[0xFE]"] by auto
qed

text \<open>C38: what the guarded writer does with the order of the indices.  Whatever sequence of indices it is
  given, decreasing ones included, it accepts all of them and emits the bytes of the wrapped codec: the
  assertion on the order cannot fail, because a non-increasing index sets the redo flag before the check.
  The flag ends up set exactly when the non-negative indices were not strictly increasing, and as long
  as it is clear the writer remembers the last of them.\<close>

theorem monotonic_writer_accepts_every_order:
  "\<exists>w'. monotonic_writes (monotonic_new p) ns = Inr (fst (enc_seq write_ndx (ndx_codec_new p) ns), w') \<and>
    mw_inner w' = snd (enc_seq write_ndx (ndx_codec_new p) ns) \<and>
    (redo_seen w' \<longleftrightarrow> \<not> sorted_wrt (\<lambda>a b. sint a < sint b) (filter (\<lambda>n. 0 \<le> sint n) ns)) \<and>
    (redo_seen w' \<or> last_positive w' = last_opt (filter (\<lambda>n. 0 \<le> sint n) ns))"
  using monotonic_writes_run [of "monotonic_new p" "[]" ns] by (auto simp: monotonic_new_def last_opt_def)

text \<open>The standalone delta state writes and reads exactly as the modern codec, on every input,
  malformed ones included.\<close>

theorem ndx_state_agrees:
  fixes c :: ModernNdxCodec
  defines "st \<equiv> \<lambda>c :: ModernNdxCodec. \<lparr>ns_prev_positive = prev_positive c, ns_prev_negative = prev_negative c\<rparr>"
  shows "state_write_ndx (st c) ndx = (fst (modern_write_ndx c ndx), st (snd (modern_write_ndx c ndx))) \<and>
    state_read_ndx (st c) s = bindE (modern_read_ndx c s) (\<lambda>((n, c), s). Inr ((n, st c), s))"
proof
  have num: "state_read_num p b t = read_ndx_num p b t" for p b t
    unfolding state_read_num_def read_ndx_num_def decode_ndx_extended_full_def decode_ndx_extended_diff_def
      decode_ndx_short_def Let_def by (rule refl)
  show "state_write_ndx (st c) ndx = (fst (modern_write_ndx c ndx), st (snd (modern_write_ndx c ndx)))"
    by (simp add: state_write_ndx_def modern_write_ndx_def st_def Let_def)
  show "state_read_ndx (st c) s = bindE (modern_read_ndx c s) (\<lambda>((n, c), s). Inr ((n, st c), s))"
    by (auto simp: state_read_ndx_def modern_read_ndx_def num classify_ndx_lead_def prev_val_def commit_ndx_def st_def bindE_def
        split: sum.splits)
qed

text \<open>The goodbye handshake accepts exactly the goodbye of its protocol version, which is also the
  encoding of the done sentinel by that version's index codec.\<close>

theorem goodbye_exact:
  "(read_goodbye v s = Inr ((), rest) \<longleftrightarrow> s = write_goodbye v @ rest) \<and>
    write_goodbye v = fst (write_ndx (ndx_codec_new v) NDX_DONE) \<and> write_goodbye v = write_ndx_done (ndx_codec_new v)"
proof (intro conjI)
  have le: "le_bytes 4 NDX_DONE = NDX_DONE_LEGACY_BYTES" "le_bytes 4 (-1 :: i32) = NDX_DONE_LEGACY_BYTES" by code_simp+
  show "write_goodbye v = write_ndx_done (ndx_codec_new v)" "write_goodbye v = fst (write_ndx (ndx_codec_new v) NDX_DONE)"
    by (simp_all add: write_goodbye_def write_ndx_done_def write_ndx_def ndx_codec_new_def legacy_write_ndx_def le
        legacy_write_ndx_done_def modern_write_ndx_def modern_write_ndx_done_def NDX_DONE_def NDX_DONE_MODERN_BYTE_def)
  have legacy: "from_le (take 4 s) = NDX_DONE \<longleftrightarrow> take 4 s = NDX_DONE_LEGACY_BYTES" if "4 \<le> length s"
  proof -
    have "le_bytes 4 (from_le (take 4 s) :: i32) = take 4 s" using that by simp
    moreover have "from_le NDX_DONE_LEGACY_BYTES = NDX_DONE" unfolding le(1) [symmetric] by simp
    ultimately show ?thesis using le(1) by fastforce
  qed
  show "read_goodbye v s = Inr ((), rest) \<longleftrightarrow> s = write_goodbye v @ rest"
  proof (cases "v < 30")
    case True
    have "length NDX_DONE_LEGACY_BYTES = 4" by (simp add: NDX_DONE_LEGACY_BYTES_def)
    then show ?thesis
      using True legacy by (auto simp: read_goodbye_def write_goodbye_def read_exact_def)
        (metis append_take_drop_id)
  qed (cases s, auto simp: read_goodbye_def write_goodbye_def read_exact_def)
qed

end
