(* ===== verification/Token_Wire.thy ===== *)
theory Token_Wire
  imports Varint
begin

text \<open>
  The delta operations on the wire, \<open>crates/protocol/src/wire/delta\<close>: the token stream of the rsync
  protocol (\<open>token.rs\<close>), the counted opcode format of earlier versions of the program (\<open>internal.rs\<close>), and the
  reader of a token stream in a batch file (\<open>crates/batch/src/reader/delta.rs\<close>).  The token stream does not
  carry copy lengths and cuts literals into pieces, so its round trip is up to \<open>wire_form\<close>.
\<close>

section \<open>Operations and integers\<close>

definition WIRE_CHUNK_SIZE :: nat where
  "WIRE_CHUNK_SIZE = 32 * 1024"

datatype DeltaOp = OpLiteral bytes | OpCopy (op_block_index: u32) (op_length: u32)

definition delta_write_int :: "i32 \<Rightarrow> bytes" where
  "delta_write_int value = le_bytes 4 value"

definition delta_read_int :: "bytes \<Rightarrow> i32 read_result" where
  "delta_read_int s = bindE (read_exact 4 s) (\<lambda>(buf, s). Inr (from_le buf, s))"

section \<open>The token stream\<close>

function write_token_literal :: "bytes \<Rightarrow> bytes" where
  "write_token_literal data =
    (if data = [] then []
     else let chunk_len = min (length data) WIRE_CHUNK_SIZE
          in delta_write_int (of_nat chunk_len) @ take chunk_len data @ write_token_literal (drop chunk_len data))"
  by pat_completeness auto
termination
  by (relation "measure length") (auto simp: WIRE_CHUNK_SIZE_def)

declare write_token_literal.simps [simp del]

text \<open>The \<open>debug_assert!\<close> that the index fits is left to the callers; the arithmetic wraps.\<close>

definition write_token_block_match :: "u32 \<Rightarrow> bytes" where
  "write_token_block_match block_index = delta_write_int (- (block_index + 1))"

definition write_token_end :: bytes where
  "write_token_end = delta_write_int 0"

definition write_whole_file_delta :: "bytes \<Rightarrow> bytes" where
  "write_whole_file_delta data = write_token_literal data @ write_token_end"

definition write_token_op :: "DeltaOp \<Rightarrow> bytes" where
  "write_token_op op = (case op of OpLiteral data \<Rightarrow> write_token_literal data | OpCopy i _ \<Rightarrow> write_token_block_match i)"

definition write_token_stream :: "DeltaOp list \<Rightarrow> bytes" where
  "write_token_stream ops = concat (map write_token_op ops) @ write_token_end"

definition read_token :: "bytes \<Rightarrow> i32 option read_result" where
  "read_token s = bindE (delta_read_int s) (\<lambda>(token, s). if token = 0 then Inr (None, s) else Inr (Some token, s))"

definition check_literal_token_len :: "i32 \<Rightarrow> unit io_result" where
  "check_literal_token_len len = (if int WIRE_CHUNK_SIZE < sint len then Inl ProtocolViolation else Inr ())"

text \<open>The loop of \<open>BatchReader::read_file_delta_tokens\<close>.\<close>

lemma read_token_shrinks: "read_token s = Inr (t, s') \<Longrightarrow> length s' < length s"
  by (auto simp: read_token_def delta_read_int_def read_exact_def split: if_splits)

function read_tokens_loop :: "DeltaOp list \<Rightarrow> bytes \<Rightarrow> DeltaOp list read_result" where
  "read_tokens_loop ops s =
    (case read_token s of
       Inl e \<Rightarrow> Inl e
     | Inr (None, s1) \<Rightarrow> Inr (ops, s1)
     | Inr (Some n, s1) \<Rightarrow>
         if 0 < sint n
         then (case check_literal_token_len n of
                 Inl e \<Rightarrow> Inl e
               | Inr _ \<Rightarrow>
                   (case read_exact (nat (sint n)) s1 of
                      Inl e \<Rightarrow> Inl e
                    | Inr (data, s2) \<Rightarrow> read_tokens_loop (ops @ [OpLiteral data]) s2))
         else read_tokens_loop (ops @ [OpCopy (- (n + 1)) 0]) s1)"
  by pat_completeness auto
termination
  by (relation "measure (length \<circ> snd)")
    (auto simp: read_exact_def dest!: read_token_shrinks split: if_splits)

declare read_tokens_loop.simps [simp del]

definition read_file_delta_tokens :: "bytes \<Rightarrow> DeltaOp list read_result" where
  "read_file_delta_tokens s = read_tokens_loop [] s"

section \<open>The opcode format\<close>

definition write_delta_op :: "DeltaOp \<Rightarrow> bytes" where
  "write_delta_op op =
    (case op of
       OpLiteral data \<Rightarrow> [0x00] @ write_varint (of_nat (length data)) @ data
     | OpCopy block_index len \<Rightarrow> [0x01] @ write_varint block_index @ write_varint len)"

definition read_delta_op :: "bytes \<Rightarrow> DeltaOp read_result" where
  "read_delta_op s =
    bindE (read_exact 1 s) (\<lambda>(opcode, s).
      if hd opcode = 0x00
      then bindE (read_varint s) (\<lambda>(raw_length, s).
             if sint raw_length < 0 then Inl InvalidData
             else bindE (read_exact (nat (sint raw_length)) s) (\<lambda>(data, s). Inr (OpLiteral data, s)))
      else if hd opcode = 0x01
      then bindE (read_varint s) (\<lambda>(block_index, s).
             bindE (read_varint s) (\<lambda>(len, s). Inr (OpCopy block_index len, s)))
      else Inl InvalidData)"

definition write_delta :: "DeltaOp list \<Rightarrow> bytes" where
  "write_delta ops = write_varint (of_nat (length ops)) @ concat (map write_delta_op ops)"

definition read_delta :: "bytes \<Rightarrow> DeltaOp list read_result" where
  "read_delta s =
    bindE (read_varint s) (\<lambda>(raw_count, s).
      if sint raw_count < 0 then Inl InvalidData
      else read_many read_delta_op (nat (sint raw_count)) s)"

section \<open>The round trip of a token stream\<close>

lemma delta_read_write_int [simp]: "delta_read_int (delta_write_int v @ rest) = Inr (v, rest)"
  by (simp add: delta_read_int_def delta_write_int_def)

lemma read_token_write [simp]:
  "read_token (delta_write_int v @ rest) = Inr (if v = 0 then None else Some v, rest)"
  by (simp add: read_token_def)

text \<open>The pieces of a literal, and what remains of an operation on the wire.\<close>

function literal_pieces :: "bytes \<Rightarrow> bytes list" where
  "literal_pieces data =
    (if data = [] then [] else take WIRE_CHUNK_SIZE data # literal_pieces (drop WIRE_CHUNK_SIZE data))"
  by pat_completeness auto
termination
  by (relation "measure length") (auto simp: WIRE_CHUNK_SIZE_def)

declare literal_pieces.simps [simp del]

definition wire_form :: "DeltaOp \<Rightarrow> DeltaOp list" where
  "wire_form op = (case op of OpLiteral data \<Rightarrow> map OpLiteral (literal_pieces data) | OpCopy i _ \<Rightarrow> [OpCopy i 0])"

lemma concat_literal_pieces: "concat (literal_pieces data) = data"
proof (induction data rule: literal_pieces.induct)
  case (1 data)
  then show ?case by (subst literal_pieces.simps) auto
qed

lemma write_token_literal_pieces:
  "write_token_literal data = concat (map (\<lambda>p. delta_write_int (of_nat (length p)) @ p) (literal_pieces data))"
proof (induction data rule: write_token_literal.induct)
  case (1 data)
  show ?case
  proof (cases "data = []")
    case False
    have "take (min (length data) WIRE_CHUNK_SIZE) data = take WIRE_CHUNK_SIZE data"
      "drop (min (length data) WIRE_CHUNK_SIZE) data = drop WIRE_CHUNK_SIZE data" by (auto simp: min_def)
    then show ?thesis
      using 1 False by (subst write_token_literal.simps, subst literal_pieces.simps) (simp add: Let_def)
  qed (simp add: write_token_literal.simps literal_pieces.simps)
qed

lemma literal_pieces_bounds: "p \<in> set (literal_pieces data) \<Longrightarrow> p \<noteq> [] \<and> length p \<le> WIRE_CHUNK_SIZE"
proof (induction data rule: literal_pieces.induct)
  case (1 data)
  show ?case
  proof (cases "data = []")
    case True
    then show ?thesis using 1(2) by (simp add: literal_pieces.simps)
  next
    case False
    then have "p = take WIRE_CHUNK_SIZE data \<or> p \<in> set (literal_pieces (drop WIRE_CHUNK_SIZE data))"
      using 1(2) by (subst (asm) literal_pieces.simps) simp
    then show ?thesis using 1(1) False by (auto simp: WIRE_CHUNK_SIZE_def)
  qed
qed

lemma read_piece:
  assumes "p \<noteq> []" "length p \<le> WIRE_CHUNK_SIZE"
  shows "read_tokens_loop ops ((delta_write_int (of_nat (length p)) @ p) @ s) = read_tokens_loop (ops @ [OpLiteral p]) s"
proof -
  let ?n = "of_nat (length p) :: i32"
  have n: "sint ?n = int (length p)" using assms(2) by (intro sint_of_nat_small) (simp add: WIRE_CHUNK_SIZE_def)
  then have "?n \<noteq> 0" using assms(1) by (metis length_0_conv of_nat_eq_0_iff signed_0)
  then show ?thesis
    using assms n by (subst read_tokens_loop.simps) (simp add: check_literal_token_len_def)
qed

lemma read_pieces:
  "\<forall>p \<in> set ps. p \<noteq> [] \<and> length p \<le> WIRE_CHUNK_SIZE \<Longrightarrow>
    read_tokens_loop ops (concat (map (\<lambda>p. delta_write_int (of_nat (length p)) @ p) ps) @ s) =
    read_tokens_loop (ops @ map OpLiteral ps) s"
  using read_piece by (induction ps arbitrary: ops) simp_all

lemma block_match_negative:
  assumes "unat i < 2 ^ 31 - 1"
  shows "sint (- (i + 1) :: i32) = - int (unat i) - 1"
proof -
  have "- (i + 1) = (word_of_int (- int (unat i) - 1) :: i32)" by (simp add: uint_nat [symmetric])
  moreover have "signed_take_bit 31 (- int n - 1) = - int n - 1" if "n < 2 ^ 31 - 1" for n
    using that by (intro signed_take_bit_int_eq_self) auto
  note this [OF assms]
  ultimately show ?thesis by (simp only: signed_of_int) simp
qed

lemma read_block_match:
  assumes "unat i < 2 ^ 31 - 1"
  shows "read_tokens_loop ops (write_token_block_match i @ s) = read_tokens_loop (ops @ [OpCopy i 0]) s"
proof -
  have neg: "sint (- (i + 1) :: i32) < 0" unfolding block_match_negative [OF assms] by linarith
  then have "- (i + 1) \<noteq> (0 :: i32)" by (metis less_irrefl signed_0)
  moreover have "- (- (i + 1) + 1) = i" by simp
  ultimately show ?thesis
    using neg by (subst read_tokens_loop.simps) (simp add: write_token_block_match_def del: minus_add_distrib)
qed

definition op_valid :: "DeltaOp \<Rightarrow> bool" where
  "op_valid op = (case op of OpLiteral _ \<Rightarrow> True | OpCopy i _ \<Rightarrow> unat i < 2 ^ 31 - 1)"

lemma read_token_op:
  "op_valid op \<Longrightarrow> read_tokens_loop ops (write_token_op op @ s) = read_tokens_loop (ops @ wire_form op) s"
  using literal_pieces_bounds read_pieces
  by (auto simp: op_valid_def write_token_op_def wire_form_def write_token_literal_pieces read_block_match split: DeltaOp.splits)

lemma read_token_ops:
  "list_all op_valid ops' \<Longrightarrow>
    read_tokens_loop ops (concat (map write_token_op ops') @ s) = read_tokens_loop (ops @ concat (map wire_form ops')) s"
  by (induction ops' arbitrary: ops) (simp_all add: read_token_op)

lemma read_tokens_end: "read_tokens_loop ops (write_token_end @ s) = Inr (ops, s)"
  by (subst read_tokens_loop.simps) (simp add: write_token_end_def)

text \<open>A hostile literal length is rejected before anything is read for it.\<close>

lemma oversized_literal_rejected:
  assumes "int WIRE_CHUNK_SIZE < sint n"
  shows "read_tokens_loop ops (delta_write_int n @ rest) = Inl ProtocolViolation"
proof -
  have "n \<noteq> 0" "0 < sint n" using assms by auto
  then show ?thesis using assms by (subst read_tokens_loop.simps) (simp add: check_literal_token_len_def)
qed

section \<open>The opcode format as a codec\<close>

lemma prefix_decided_read_delta_op [prefix_decided_intros]: "prefix_decided read_delta_op"
  unfolding read_delta_op_def by (intro prefix_decided_intros)

interpretation delta_op: stream_codec write_delta_op read_delta_op
  "\<lambda>op. case op of OpLiteral data \<Rightarrow> length data < 2 ^ 31 | OpCopy _ _ \<Rightarrow> True"
proof unfold_locales
  fix op rest assume "case op of OpLiteral data \<Rightarrow> length data < 2 ^ 31 | OpCopy _ _ \<Rightarrow> True"
  then show "read_delta_op (write_delta_op op @ rest) = Inr (op, rest)"
    by (auto simp: read_delta_op_def write_delta_op_def sint_of_nat_small split: DeltaOp.splits)
qed (rule prefix_decided_read_delta_op)

section \<open>Properties\<close>

text \<open>C24: a token stream read back is the written operations with literals cut into pieces of at most
  32 KiB and copy lengths dropped, for all block indices the format can carry; the rest of the stream is left
  unread.\<close>

theorem token_stream_roundtrip:
  assumes "list_all op_valid ops"
  shows "read_file_delta_tokens (write_token_stream ops @ rest) = Inr (concat (map wire_form ops), rest)"
  unfolding read_file_delta_tokens_def write_token_stream_def append_assoc read_token_ops [OF assms]
  by (simp add: read_tokens_end)

theorem token_stream_roundtrip_witness:
  "read_file_delta_tokens (write_token_stream [OpLiteral [7, 8], OpCopy 3 700] @ [1]) = Inr ([OpLiteral [7, 8], OpCopy 3 0], [1])"
proof -
  have "list_all op_valid [OpLiteral [7, 8], OpCopy 3 700]" by (simp add: op_valid_def)
  moreover have "literal_pieces [7, 8] = [[7, 8]]"
    by (subst literal_pieces.simps, subst literal_pieces.simps) (simp add: WIRE_CHUNK_SIZE_def)
  ultimately show ?thesis using token_stream_roundtrip [of "[OpLiteral [7, 8], OpCopy 3 700]" "[1]"] by (simp add: wire_form_def)
qed

text \<open>The opcode format round-trips every list of operations below the 31-bit limits.\<close>

theorem delta_ops_roundtrip:
  assumes "length ops < 2 ^ 31" "\<forall>data. OpLiteral data \<in> set ops \<longrightarrow> length data < 2 ^ 31"
  shows "read_delta (write_delta ops @ rest) = Inr (ops, rest)"
proof -
  have "list_all (\<lambda>op. case op of OpLiteral data \<Rightarrow> length data < 2 ^ 31 | OpCopy _ _ \<Rightarrow> True) ops"
    using assms(2) by (auto simp: list_all_iff split: DeltaOp.splits)
  then show ?thesis
    using assms(1) delta_op.read_many_enc by (simp add: read_delta_def write_delta_def sint_of_nat_small)
qed

theorem delta_ops_roundtrip_witness:
  "read_delta (write_delta [OpLiteral [1], OpCopy 2 3] @ [4]) = Inr ([OpLiteral [1], OpCopy 2 3], [4])"
  by (rule delta_ops_roundtrip) auto

end
