(* ===== verification/Wire_Signature.thy ===== *)
theory Wire_Signature
  imports Varint Signature
begin

text \<open>
  Signatures on the wire: the header \<open>SumHead\<close> and the block list that the receiver sends and the sender
  reads (\<open>crates/transfer/src/receiver/wire.rs\<close>, \<open>crates/transfer/src/generator/protocol_io.rs\<close>), and the
  self-describing format of \<open>crates/protocol/src/wire/signature.rs\<close>.
\<close>

section \<open>The header\<close>

record SumHead =
  sh_count :: u32
  sh_blength :: u32
  sh_s2length :: u32
  sh_remainder :: u32

definition sum_head_new :: "u32 \<Rightarrow> u32 \<Rightarrow> u32 \<Rightarrow> u32 \<Rightarrow> SumHead" where
  "sum_head_new count blength s2length remainder =
    \<lparr>sh_count = count, sh_blength = blength, sh_s2length = s2length, sh_remainder = remainder\<rparr>"

definition sum_head_empty :: SumHead where
  "sum_head_empty = \<lparr>sh_count = 0, sh_blength = 0, sh_s2length = 0, sh_remainder = 0\<rparr>"

definition flength :: "SumHead \<Rightarrow> u64" where
  "flength h =
    (if sh_count h = 0 then 0
     else let total = ucast (sh_count h) * ucast (sh_blength h)
          in if 0 < sh_remainder h then total - ucast (sh_blength h) + ucast (sh_remainder h) else total)"

definition sum_head_from_signature :: "FileSignature \<Rightarrow> SumHead" where
  "sum_head_from_signature sig =
    (let layout = fs_layout sig
     in \<lparr>sh_count = ucast (sl_block_count layout), sh_blength = sl_block_length layout,
         sh_s2length = of_nat (sl_strong_sum_length layout), sh_remainder = sl_remainder layout\<rparr>)"

definition sum_head_is_empty :: "SumHead \<Rightarrow> bool" where
  "sum_head_is_empty h = (sh_count h = 0)"

definition sum_head_write :: "SumHead \<Rightarrow> bytes" where
  "sum_head_write h =
    le_bytes 4 (sh_count h) @ le_bytes 4 (sh_blength h) @ le_bytes 4 (sh_s2length h) @ le_bytes 4 (sh_remainder h)"

definition MAX_STRONG_SUM_LEN :: nat where
  "MAX_STRONG_SUM_LEN = 20"

definition from_wire_bytes :: "bytes \<Rightarrow> SumHead io_result" where
  "from_wire_bytes buf =
    (let count = from_le (take 4 buf) :: i32;
         blength = from_le (take 4 (drop 4 buf)) :: i32;
         s2length = from_le (take 4 (drop 8 buf)) :: i32;
         remainder = from_le (take 4 (drop 12 buf)) :: i32;
         per_entry = 4 + MAX_STRONG_SUM_LEN
     in if sint count < 0 then Inl ProtocolViolation
        else if USIZE_MAX < nat (sint count) * per_entry then Inl ProtocolViolation
        else if sint blength < 0 \<or> OLD_MAX_BLOCK_SIZE < blength \<or> (0 < sint count \<and> blength = 0)
        then Inl ProtocolViolation
        else if sint s2length < 0 \<or> MAX_STRONG_SUM_LEN < nat (sint s2length) then Inl ProtocolViolation
        else if sint remainder < 0 \<or> sint blength < sint remainder then Inl ProtocolViolation
        else Inr \<lparr>sh_count = count, sh_blength = blength, sh_s2length = s2length, sh_remainder = remainder\<rparr>)"

definition sum_head_read :: "bytes \<Rightarrow> SumHead read_result" where
  "sum_head_read s = bindE (read_exact 16 s) (\<lambda>(buf, s). bindE (from_wire_bytes buf) (\<lambda>h. Inr (h, s)))"

section \<open>The blocks\<close>

record WireBlock =
  wb_index :: u32
  wb_rolling_sum :: u32
  wb_strong_sum :: bytes

text \<open>A strong sum truncated or padded to \<open>s2length\<close>.\<close>

definition pad_sum :: "nat \<Rightarrow> bytes \<Rightarrow> bytes" where
  "pad_sum s2length strong_bytes =
    (let copy_len = min (length strong_bytes) s2length
     in take copy_len strong_bytes @ replicate (s2length - copy_len) 0)"

definition write_signature_blocks :: "FileSignature \<Rightarrow> u32 \<Rightarrow> bytes" where
  "write_signature_blocks sig s2length =
    concat (map (\<lambda>b. le_bytes 4 (rd_value (sb_rolling b)) @ pad_sum (unat s2length) (as_slice_db (sb_strong b)))
      (fs_blocks sig))"

text \<open>The loop over the blocks: \<open>on_lull\<close> is the caller's keepalive, with its state.\<close>

fun read_blocks_loop ::
  "nat \<Rightarrow> u32 \<Rightarrow> ('k \<Rightarrow> 'k io_result) \<Rightarrow> 'k \<Rightarrow> u32 \<Rightarrow> nat \<Rightarrow> bytes \<Rightarrow> (WireBlock list \<times> 'k) read_result" where
  "read_blocks_loop s2length lull_mod on_lull k i 0 s = Inr (([], k), s)"
| "read_blocks_loop s2length lull_mod on_lull k i (Suc n) s =
    bindE (read_exact 4 s) (\<lambda>(rolling_bytes, s).
    bindE (read_exact s2length s) (\<lambda>(strong_sum, s).
    bindE (if lull_mod \<noteq> 0 \<and> i mod lull_mod = 0 then on_lull k else Inr k) (\<lambda>k.
    bindE (read_blocks_loop s2length lull_mod on_lull k (i + 1) n s) (\<lambda>((blocks, k), s).
      Inr ((\<lparr>wb_index = i, wb_rolling_sum = from_le rolling_bytes, wb_strong_sum = strong_sum\<rparr> # blocks, k), s)))))"

definition read_signature_blocks_keepalive ::
  "SumHead \<Rightarrow> u32 \<Rightarrow> ('k \<Rightarrow> 'k io_result) \<Rightarrow> 'k \<Rightarrow> bytes \<Rightarrow> (WireBlock list \<times> 'k) read_result" where
  "read_signature_blocks_keepalive h lull_mod on_lull k s =
    (if sum_head_is_empty h then Inr (([], k), s)
     else read_blocks_loop (unat (sh_s2length h)) lull_mod on_lull k 0 (unat (sh_count h)) s)"

definition read_signature_blocks :: "SumHead \<Rightarrow> bytes \<Rightarrow> WireBlock list read_result" where
  "read_signature_blocks h s =
    bindE (read_signature_blocks_keepalive h 0 (\<lambda>_. Inr ()) () s) (\<lambda>((blocks, _), s). Inr (blocks, s))"

text \<open>\<open>allowed_lull\<close> is the lull in whole seconds.\<close>

definition signature_read_lull_mod :: "nat \<Rightarrow> nat option \<Rightarrow> u32" where
  "signature_read_lull_mod protocol allowed_lull =
    (if 31 \<le> protocol then 0
     else case allowed_lull of
            Some secs \<Rightarrow> of_nat (min (min secs (2 ^ 32 - 1) * 5) (2 ^ 32 - 1))
          | None \<Rightarrow> 0)"

section \<open>The self-describing format\<close>

fun write_sig_blocks :: "nat \<Rightarrow> WireBlock list \<Rightarrow> bytes io_result" where
  "write_sig_blocks len [] = Inr []"
| "write_sig_blocks len (b # bs) =
    (if length (wb_strong_sum b) \<noteq> len then Inl InvalidInput
     else bindE (write_sig_blocks len bs) (\<lambda>rest. Inr (le_bytes 4 (wb_rolling_sum b) @ wb_strong_sum b @ rest)))"

definition write_signature :: "u32 \<Rightarrow> u32 \<Rightarrow> u8 \<Rightarrow> WireBlock list \<Rightarrow> bytes io_result" where
  "write_signature block_count block_length strong_sum_length blocks =
    bindE (write_sig_blocks (unat strong_sum_length) blocks) (\<lambda>bs.
      Inr (write_varint block_count @ write_varint block_length @ write_varint (ucast strong_sum_length) @ bs))"

fun read_sig_blocks :: "nat \<Rightarrow> u32 \<Rightarrow> nat \<Rightarrow> bytes \<Rightarrow> WireBlock list read_result" where
  "read_sig_blocks len i 0 s = Inr ([], s)"
| "read_sig_blocks len i (Suc n) s =
    bindE (read_exact 4 s) (\<lambda>(rolling_sum_bytes, s).
    bindE (read_exact len s) (\<lambda>(strong_sum, s).
    bindE (read_sig_blocks len (i + 1) n s) (\<lambda>(blocks, s).
      Inr (\<lparr>wb_index = i, wb_rolling_sum = from_le rolling_sum_bytes, wb_strong_sum = strong_sum\<rparr> # blocks, s))))"

definition read_signature :: "bytes \<Rightarrow> (u32 \<times> u32 \<times> u8 \<times> WireBlock list) read_result" where
  "read_signature s =
    bindE (read_varint s) (\<lambda>(block_count, s).
    bindE (read_varint s) (\<lambda>(block_length, s).
    bindE (read_varint s) (\<lambda>(strong_sum_length, s).
    bindE (read_sig_blocks (unat (ucast strong_sum_length :: u8)) 0 (unat block_count) s) (\<lambda>(blocks, s).
      Inr ((block_length, block_count, ucast strong_sum_length, blocks), s)))))"

section \<open>What the header reader accepts\<close>

definition sum_head_valid :: "SumHead \<Rightarrow> bool" where
  "sum_head_valid h =
    (unat (sh_count h) < 2 ^ 31 \<and> unat (sh_blength h) \<le> 2 ^ 29 \<and> (0 < unat (sh_count h) \<longrightarrow> 0 < unat (sh_blength h)) \<and>
     unat (sh_s2length h) \<le> 20 \<and> unat (sh_remainder h) \<le> unat (sh_blength h))"

lemma from_wire_bytes_fields:
  assumes "count = from_le (take 4 buf)" "blength = from_le (take 4 (drop 4 buf))"
    "s2length = from_le (take 4 (drop 8 buf))" "remainder = from_le (take 4 (drop 12 buf))"
  shows "from_wire_bytes buf =
    (let h = \<lparr>sh_count = count, sh_blength = blength, sh_s2length = s2length, sh_remainder = remainder\<rparr>
     in if sum_head_valid h then Inr h else Inl ProtocolViolation)"
proof (cases "sint count < 0 \<or> sint blength < 0 \<or> sint s2length < 0 \<or> sint remainder < 0")
  case True
  then have "\<not> sum_head_valid \<lparr>sh_count = count, sh_blength = blength, sh_s2length = s2length, sh_remainder = remainder\<rparr>"
    by (auto simp: sum_head_valid_def sint_neg_iff)
  then show ?thesis using True unfolding from_wire_bytes_def assms [symmetric] Let_def by auto
next
  case False
  define c b k r where v: "c = unat count" "b = unat blength" "k = unat s2length" "r = unat remainder"
  have sint: "sint count = int c" "sint blength = int b" "sint s2length = int k" "sint remainder = int r"
    unfolding v by (rule sint_nonneg_unat, use False in blast)+
  have "unat OLD_MAX_BLOCK_SIZE = 2 ^ 29" by (simp add: OLD_MAX_BLOCK_SIZE_def push_bit_eq_mult)
  then have old: "OLD_MAX_BLOCK_SIZE < blength \<longleftrightarrow> 2 ^ 29 < b" by (simp add: word_less_nat_alt v)
  have small: "c < 2 ^ 31" using False unfolding v by (auto simp: sint_neg_iff)
  then have "\<not> USIZE_MAX < c * (4 + MAX_STRONG_SUM_LEN)" by (simp add: USIZE_MAX_def MAX_STRONG_SUM_LEN_def)
  moreover have zero: "blength = 0 \<longleftrightarrow> b = 0" by (simp add: v unat_eq_0)
  ultimately show ?thesis
    unfolding from_wire_bytes_def assms [symmetric] Let_def sint old zero sum_head_valid_def SumHead.simps v [symmetric]
    using small by (auto simp: MAX_STRONG_SUM_LEN_def)
qed

lemma sum_head_read_write:
  "sum_head_valid h \<Longrightarrow> sum_head_read (sum_head_write h @ rest) = Inr (h, rest)"
  using read_exact_append [of "sum_head_write h" 16 rest]
  by (cases h) (simp add: sum_head_read_def sum_head_write_def from_wire_bytes_fields [OF refl refl refl refl] Let_def)

lemma sum_head_read_only:
  assumes "sum_head_read s = Inr (h, rest)"
  shows "sum_head_valid h \<and> s = sum_head_write h @ rest"
proof -
  have s: "16 \<le> length s" "rest = drop 16 s" "from_wire_bytes (take 16 s) = Inr h"
    using assms by (auto simp: sum_head_read_def read_exact_def bindE_eq_Inr split: if_splits)
  have t: "take 4 (drop k (take 16 s)) = take 4 (drop k s)" if "k \<le> 12" for k
    using that by (simp add: drop_take min_def)
  let ?h = "\<lparr>sh_count = from_le (take 4 (drop 0 s)), sh_blength = from_le (take 4 (drop 4 s)),
      sh_s2length = from_le (take 4 (drop 8 s)), sh_remainder = from_le (take 4 (drop 12 s))\<rparr>"
  have "from_wire_bytes (take 16 s) = (if sum_head_valid ?h then Inr ?h else Inl ProtocolViolation)"
    using from_wire_bytes_fields [OF refl refl refl refl, of "take 16 s"] t [of 0] t [of 4] t [of 8] t [of 12]
    unfolding Let_def drop_0 by simp
  then have h: "sum_head_valid h" "h = ?h" using s(3) by (auto split: if_splits)
  have "sum_head_write h = take 4 s @ take 4 (drop 4 s) @ take 4 (drop 8 s) @ take 4 (drop 12 s)"
    unfolding h(2) sum_head_write_def using s(1) by simp
  also have "\<dots> = take 16 s"
    using take_add [of 4 4 s] take_add [of 8 4 s] take_add [of 12 4 s] by simp
  finally show ?thesis using h(1) s(2) by simp
qed

section \<open>Round trips\<close>

lemma length_pad_sum [simp]: "length (pad_sum n bs) = n"
  by (simp add: pad_sum_def Let_def)

lemma pad_sum_exact: "length bs = n \<Longrightarrow> pad_sum n bs = bs"
  by (simp add: pad_sum_def Let_def)

text \<open>What the sender holds after reading the blocks of a signature.\<close>

definition wire_block :: "nat \<Rightarrow> nat \<Rightarrow> SignatureBlock \<Rightarrow> WireBlock" where
  "wire_block s2length i b =
    \<lparr>wb_index = of_nat i, wb_rolling_sum = rd_value (sb_rolling b),
     wb_strong_sum = pad_sum s2length (as_slice_db (sb_strong b))\<rparr>"

lemma read_blocks_loop_write:
  "read_blocks_loop n 0 on_lull k (of_nat i) (length bs)
     (concat (map (\<lambda>b. le_bytes 4 (rd_value (sb_rolling b)) @ pad_sum n (as_slice_db (sb_strong b))) bs) @ rest) =
   Inr ((map (\<lambda>(i, b). wire_block n i b) (enumerate i bs), k), rest)"
proof (induction bs arbitrary: i)
  case (Cons b bs)
  have "read_blocks_loop n 0 on_lull k (of_nat (Suc i)) (length bs)
     (concat (map (\<lambda>b. le_bytes 4 (rd_value (sb_rolling b)) @ pad_sum n (as_slice_db (sb_strong b))) bs) @ rest) =
   Inr ((map (\<lambda>(i, b). wire_block n i b) (enumerate (Suc i) bs), k), rest)" by (rule Cons.IH)
  then show ?case by (simp add: wire_block_def add.commute)
qed simp

lemma read_sig_blocks_write:
  assumes "write_sig_blocks n bs = Inr w" "map wb_index bs = map of_nat [i..<i + length bs]"
  shows "read_sig_blocks n (of_nat i) (length bs) (w @ rest) = Inr (bs, rest)"
  using assms
proof (induction bs arbitrary: i w)
  case (Cons b bs)
  then obtain w' where w: "length (wb_strong_sum b) = n" "write_sig_blocks n bs = Inr w'"
    "w = le_bytes 4 (wb_rolling_sum b) @ wb_strong_sum b @ w'"
    by (auto simp: bindE_eq_Inr split: if_splits)
  have ix: "wb_index b = of_nat i" "map wb_index bs = map of_nat [Suc i..<Suc i + length bs]"
    using Cons.prems(2) by (simp_all add: upt_conv_Cons del: upt_Suc)
  then show ?case using Cons.IH [OF w(2) ix(2)] w by (simp add: add.commute)
qed simp

text \<open>The length a header describes is the length of the file it was computed from.\<close>

lemma flength_is_file_length:
  assumes "layout_fits (fs_layout sig) n" "unat (sl_block_count (fs_layout sig)) < 2 ^ 31"
  shows "unat (flength (sum_head_from_signature sig)) = n"
proof -
  let ?h = "sum_head_from_signature sig"
  define c b r where v: "c = unat (sl_block_count (fs_layout sig))" "b = unat (sl_block_length (fs_layout sig))"
    "r = unat (sl_remainder (fs_layout sig))"
  have h: "unat (sh_count ?h) = c" "unat (sh_blength ?h) = b" "unat (sh_remainder ?h) = r"
    using assms(2) by (simp_all add: sum_head_from_signature_def Let_def v unat_ucast_small)
  have l: "0 < b" "r < b" "c = 0 \<Longrightarrow> r = 0" "n = (if r = 0 then c * b else (c - 1) * b + r)"
    using assms(1) by (auto simp: layout_fits_def Let_def v)
  have b: "b < 2 ^ 32" unfolding v using unat_lt2p [of "sl_block_length (fs_layout sig)"] by simp
  have "c * b \<le> 2 ^ 31 * 2 ^ 32" using assms(2) b unfolding v by (intro mult_le_mono) simp_all
  then have total: "unat (ucast (sh_count ?h) * ucast (sh_blength ?h) :: u64) = c * b"
    using h by (simp add: unat_word_ariths unat_ucast_up)
  show ?thesis
  proof (cases "r = 0")
    case True
    then have "sh_remainder ?h = 0" using h(3) by (simp add: unat_eq_0)
    moreover have "sh_count ?h = 0 \<longleftrightarrow> c = 0" using h(1) by (simp add: unat_eq_0 [symmetric])
    ultimately show ?thesis using True l(4) total by (simp add: flength_def Let_def)
  next
    case False
    then have r: "0 < sh_remainder ?h" "0 < c" using h(3) l(3) by (auto simp: word_less_nat_alt)
    then have "b \<le> c * b" by simp
    then have "unat (ucast (sh_count ?h) * ucast (sh_blength ?h) - ucast (sh_blength ?h) :: u64) = c * b - b"
      using total h(2) by (subst unat_sub) (simp_all add: word_le_nat_alt unat_ucast_up)
    moreover have "c * b - b + r < 2 ^ 64" using \<open>c * b \<le> 2 ^ 31 * 2 ^ 32\<close> l(2) b by simp
    ultimately have "unat (ucast (sh_count ?h) * ucast (sh_blength ?h) - ucast (sh_blength ?h) + ucast (sh_remainder ?h) :: u64) = c * b - b + r"
      using h(3) by (simp add: unat_word_ariths unat_ucast_up)
    moreover have "sh_count ?h \<noteq> 0" using h(1) r(2) by auto
    ultimately show ?thesis using False r l(4) by (simp add: flength_def Let_def diff_mult_distrib)
  qed
qed

text \<open>The sender reads the block list the receiver wrote: the same count and order, each block with its
  rolling checksum and its strong checksum cut or padded to the announced length.\<close>

lemma signature_blocks_transfer:
  assumes "unat (sl_block_count (fs_layout sig)) = length (fs_blocks sig)" "length (fs_blocks sig) < 2 ^ 31"
    "sl_strong_sum_length (fs_layout sig) < 2 ^ 32"
  shows "read_signature_blocks (sum_head_from_signature sig)
      (write_signature_blocks sig (sh_s2length (sum_head_from_signature sig)) @ rest) =
    Inr (map (\<lambda>(i, b). wire_block (sl_strong_sum_length (fs_layout sig)) i b) (enumerate 0 (fs_blocks sig)), rest)"
proof -
  let ?h = "sum_head_from_signature sig" and ?n = "sl_strong_sum_length (fs_layout sig)"
  have h: "unat (sh_count ?h) = length (fs_blocks sig)" "unat (sh_s2length ?h) = ?n"
    using assms by (simp_all add: sum_head_from_signature_def Let_def unat_ucast_small unat_of_nat take_bit_nat_eq_self)
  show ?thesis
    using read_blocks_loop_write [of ?n "\<lambda>_. Inr ()" "()" 0 "fs_blocks sig" rest] h
    by (auto simp: read_signature_blocks_def read_signature_blocks_keepalive_def write_signature_blocks_def
        sum_head_is_empty_def unat_eq_0 [symmetric])
qed

section \<open>Properties\<close>

text \<open>C39: the signature header is read exactly: a header comes out of the stream if and only if its
  encoding is there and every field is within the protocol's limits, so no accepted header can make the sender
  reserve more than the limits allow.\<close>

theorem sum_head_exact:
  "sum_head_read s = Inr (h, rest) \<longleftrightarrow> sum_head_valid h \<and> s = sum_head_write h @ rest"
  using sum_head_read_only sum_head_read_write by blast

text \<open>C25: the self-describing format, which does not transmit the block numbers, round-trips every signature whose
  blocks are numbered in order and whose strong sums have the announced length, and refuses to write sums of
  another length.\<close>

theorem wire_signature_roundtrip:
  assumes "map wb_index blocks = map of_nat [0..<length blocks]" "length blocks < 2 ^ 32"
  shows "if list_all (\<lambda>b. length (wb_strong_sum b) = unat n) blocks
    then \<exists>w. write_signature (of_nat (length blocks)) bl n blocks = Inr w \<and>
      read_signature (w @ rest) = Inr ((bl, of_nat (length blocks), n, blocks), rest)
    else write_signature (of_nat (length blocks)) bl n blocks = Inl InvalidInput"
proof (cases "list_all (\<lambda>b. length (wb_strong_sum b) = unat n) blocks")
  case True
  have "\<exists>w. write_sig_blocks (unat n) bs = Inr w" if "list_all (\<lambda>b. length (wb_strong_sum b) = unat n) bs" for bs
    using that by (induction bs) auto
  then obtain w where w: "write_sig_blocks (unat n) blocks = Inr w" using True by blast
  have "unat (of_nat (length blocks) :: u32) = length blocks" using assms(2) by (simp add: unat_of_nat take_bit_nat_eq_self)
  moreover have "(ucast (ucast n :: i32) :: u8) = n" by (rule bit_word_eqI) (simp add: bit_simps)
  ultimately show ?thesis
    using True w read_sig_blocks_write [OF w, of 0 rest] assms(1) by (simp add: write_signature_def read_signature_def)
next
  case False
  have "write_sig_blocks (unat n) bs = Inl InvalidInput" if "\<not> list_all (\<lambda>b. length (wb_strong_sum b) = unat n) bs" for bs
    using that by (induction bs) auto
  then show ?thesis using False by (simp add: write_signature_def)
qed

theorem wire_signature_roundtrip_witness:
  "let b = \<lparr>wb_index = 0, wb_rolling_sum = 7, wb_strong_sum = [1, 2]\<rparr>
   in \<exists>w. write_signature 1 700 2 [b] = Inr w \<and> read_signature (w @ [9]) = Inr ((700, 1, 2, [b]), [9])"
  using wire_signature_roundtrip [of "[\<lparr>wb_index = 0, wb_rolling_sum = 7, wb_strong_sum = [1, 2]\<rparr>]" 2 700 "[9]"]
  by simp

end
