(* ===== verification/Basis_Map.thy ===== *)
theory Basis_Map
  imports Ring_Buffer
begin

text \<open>
  Access to the basis file during delta application, \<open>crates/transfer/src/map_file\<close>: the sliding window
  of \<open>buffered.rs\<close>, the memory map of \<open>mmap.rs\<close> and the choice between them of \<open>adaptive.rs\<close>, with the
  alignment helpers of \<open>constants.rs\<close>.  A file is its bytes, which do not change while it is mapped; file
  offsets are natural numbers below \<open>2^64\<close>.  The locale \<open>basis_map\<close> is what delta application relies on:
  requests it may make are answered with the bytes of the file, whatever was requested before.

  An operation that fails may have changed the window, so it returns its new state beside its result.
\<close>

section \<open>Alignment\<close>

definition ALIGN_BOUNDARY :: nat where "ALIGN_BOUNDARY = 1024"
definition MAX_MAP_SIZE :: nat where "MAX_MAP_SIZE = 256 * 1024"
definition MMAP_THRESHOLD :: nat where "MMAP_THRESHOLD = 1024 * 1024"

definition align_down :: "u64 \<Rightarrow> u64" where
  "align_down offset = offset AND NOT (of_nat ALIGN_BOUNDARY - 1)"

section \<open>The sliding window\<close>

record BufferedMap =
  bm_file :: bytes
  bm_size :: nat
  bm_buffer :: bytes
  bm_window_start :: nat
  bm_window_len :: nat
  bm_max_window :: nat

definition bm_from_file_with_window :: "bytes \<Rightarrow> nat \<Rightarrow> BufferedMap" where
  "bm_from_file_with_window file window_size =
    \<lparr>bm_file = file, bm_size = length file, bm_buffer = [], bm_window_start = 0, bm_window_len = 0,
     bm_max_window = window_size\<rparr>"

definition bm_open :: "bytes \<Rightarrow> BufferedMap" where
  "bm_open file = bm_from_file_with_window file MAX_MAP_SIZE"

definition is_in_window :: "BufferedMap \<Rightarrow> nat \<Rightarrow> nat \<Rightarrow> bool" where
  "is_in_window m offset len \<longleftrightarrow>
    bm_window_start m \<le> offset \<and> sat_add offset len \<le> bm_window_start m + bm_window_len m"

text \<open>The end of \<open>load_window\<close>: read what the old window did not provide and record the new window.\<close>

definition fill_window :: "nat \<Rightarrow> nat \<Rightarrow> nat \<Rightarrow> nat \<Rightarrow> BufferedMap \<Rightarrow> BufferedMap \<times> unit io_result" where
  "fill_window aligned_start window_size read_start read_offset m =
    (let read_size = window_size - read_offset
     in if 0 < read_size \<and> length (bm_file m) < read_start + read_size then (m, Inl UnexpectedEof)
        else let m = (if 0 < read_size
                      then m\<lparr>bm_buffer := copy_at read_offset (take read_size (drop read_start (bm_file m))) (bm_buffer m)\<rparr>
                      else m)
             in (m\<lparr>bm_window_start := aligned_start,
                   bm_window_len := min window_size (min (bm_size m - aligned_start) USIZE_MAX)\<rparr>, Inr ()))"

definition load_window :: "BufferedMap \<Rightarrow> nat \<Rightarrow> nat \<Rightarrow> BufferedMap \<times> unit io_result" where
  "load_window m offset min_len =
    (let aligned_start = unat (align_down (of_nat offset));
         remaining = bm_size m - aligned_start;
         window_size = min (bm_max_window m) remaining;
         offset_in_window = offset - aligned_start;
         required_size = offset_in_window + min_len
     in if window_size < required_size then (m, Inl UnexpectedEof)
        else
          let old_end = bm_window_start m + bm_window_len m;
              target_len = max window_size (length (bm_buffer m));
              buffer = bm_buffer m @ replicate (target_len - length (bm_buffer m)) 0
          in if 0 < bm_window_len m \<and> bm_window_start m \<le> aligned_start \<and> aligned_start < old_end \<and>
                old_end \<le> aligned_start + window_size
             then let reuse_len = old_end - aligned_start;
                      src_offset = aligned_start - bm_window_start m;
                      src_end = src_offset + reuse_len
                  in if USIZE_MAX < src_end \<or> length buffer < src_end \<or> length buffer < reuse_len
                     then (m\<lparr>bm_buffer := buffer\<rparr>, Inl InvalidData)
                     else fill_window aligned_start window_size old_end reuse_len
                            (m\<lparr>bm_buffer := copy_at 0 (slice src_offset src_end buffer) buffer\<rparr>)
             else fill_window aligned_start window_size aligned_start 0 (m\<lparr>bm_buffer := buffer\<rparr>))"

definition map_ptr :: "BufferedMap \<Rightarrow> nat \<Rightarrow> nat \<Rightarrow> BufferedMap \<times> bytes io_result" where
  "map_ptr m offset len =
    (if len = 0 then (m, Inr [])
     else if bm_size m < sat_add offset len then (m, Inl UnexpectedEof)
     else case (if is_in_window m offset len then (m, Inr ()) else load_window m offset len) of
            (m, Inl e) \<Rightarrow> (m, Inl e)
          | (m, Inr _) \<Rightarrow>
              let start = offset - bm_window_start m; end = start + len
              in if USIZE_MAX < end \<or> length (bm_buffer m) < end then (m, Inl InvalidData)
                 else (m, Inr (slice start end (bm_buffer m))))"

section \<open>The memory map and the choice\<close>

record MmapStrategy =
  mm_data :: bytes

definition mmap_map_ptr :: "MmapStrategy \<Rightarrow> nat \<Rightarrow> nat \<Rightarrow> MmapStrategy \<times> bytes io_result" where
  "mmap_map_ptr m offset len =
    (if len = 0 then (m, Inr [])
     else if length (mm_data m) < sat_add offset len then (m, Inl UnexpectedEof)
     else let start = offset; end = start + len in (m, Inr (slice start end (mm_data m))))"

datatype AdaptiveMapStrategy = Buffered BufferedMap | Mmap MmapStrategy

definition adaptive_open_with_threshold :: "bytes \<Rightarrow> nat \<Rightarrow> AdaptiveMapStrategy" where
  "adaptive_open_with_threshold file threshold =
    (if threshold \<le> length file then Mmap \<lparr>mm_data = file\<rparr> else Buffered (bm_open file))"

definition adaptive_open :: "bytes \<Rightarrow> AdaptiveMapStrategy" where
  "adaptive_open file = adaptive_open_with_threshold file MMAP_THRESHOLD"

definition adaptive_open_buffered :: "bytes \<Rightarrow> AdaptiveMapStrategy" where
  "adaptive_open_buffered file = Buffered (bm_open file)"

definition adaptive_map_ptr :: "AdaptiveMapStrategy \<Rightarrow> nat \<Rightarrow> nat \<Rightarrow> AdaptiveMapStrategy \<times> bytes io_result" where
  "adaptive_map_ptr s offset len =
    (case s of
       Buffered b \<Rightarrow> (case map_ptr b offset len of (b, r) \<Rightarrow> (Buffered b, r))
     | Mmap m \<Rightarrow> (case mmap_map_ptr m offset len of (m, r) \<Rightarrow> (Mmap m, r)))"

definition window_size :: "AdaptiveMapStrategy \<Rightarrow> nat" where
  "window_size s = (case s of Buffered b \<Rightarrow> bm_max_window b | Mmap m \<Rightarrow> length (mm_data m))"

definition file_size_map :: "AdaptiveMapStrategy \<Rightarrow> nat" where
  "file_size_map s = (case s of Buffered b \<Rightarrow> bm_size b | Mmap m \<Rightarrow> length (mm_data m))"

section \<open>The contract\<close>

text \<open>A sequence of requests.\<close>

fun serve :: "('s \<Rightarrow> nat \<Rightarrow> nat \<Rightarrow> 's \<times> 'r) \<Rightarrow> 's \<Rightarrow> (nat \<times> nat) list \<Rightarrow> 's \<times> 'r list" where
  "serve ptr s [] = (s, [])"
| "serve ptr s ((offset, len) # rs) =
    (let (s, r) = ptr s offset len; (s, out) = serve ptr s rs in (s, r # out))"

text \<open>\<open>inv file s\<close>: \<open>s\<close> maps \<open>file\<close>; \<open>servable\<close>: the requests the strategy is made for.\<close>

locale basis_map =
  fixes ptr :: "'s \<Rightarrow> nat \<Rightarrow> nat \<Rightarrow> 's \<times> bytes io_result"
    and inv :: "bytes \<Rightarrow> 's \<Rightarrow> bool"
    and servable :: "nat \<Rightarrow> nat \<Rightarrow> bool"
  assumes inv_ptr: "inv file s \<Longrightarrow> ptr s offset len = (s', r) \<Longrightarrow> inv file s'"
    and serves: "inv file s \<Longrightarrow> servable offset len \<Longrightarrow> offset + len \<le> length file \<Longrightarrow>
      \<exists>s'. ptr s offset len = (s', Inr (take len (drop offset file)))"
    and refuses: "inv file s \<Longrightarrow> 0 < len \<Longrightarrow> length file < offset + len \<Longrightarrow> \<exists>s'. ptr s offset len = (s', Inl UnexpectedEof)"
    and sound: "inv file s \<Longrightarrow> ptr s offset len = (s', Inr bs) \<Longrightarrow> bs = take len (drop offset file)"
begin

lemma serve_all:
  assumes "inv file s" "\<forall>(offset, len) \<in> set rs. servable offset len \<and> offset + len \<le> length file"
  shows "\<exists>s'. serve ptr s rs = (s', map (\<lambda>(offset, len). Inr (take len (drop offset file))) rs) \<and> inv file s'"
  using assms
proof (induction rs arbitrary: s)
  case (Cons r rs)
  obtain offset len where r: "r = (offset, len)" by (cases r)
  obtain s1 where s1: "ptr s offset len = (s1, Inr (take len (drop offset file)))"
    using serves [OF Cons.prems(1), of offset len] Cons.prems(2) r by auto
  then have "inv file s1" by (rule inv_ptr [OF Cons.prems(1)])
  then obtain s2 where "serve ptr s1 rs = (s2, map (\<lambda>(offset, len). Inr (take len (drop offset file))) rs)" "inv file s2"
    using Cons.IH Cons.prems(2) by auto
  then show ?case using s1 by (simp add: r)
qed simp

lemma inv_serve: "inv file s \<Longrightarrow> inv file (fst (serve ptr s rs))"
proof (induction rs arbitrary: s)
  case (Cons r rs)
  obtain offset len where r: "r = (offset, len)" by (cases r)
  show ?case using Cons.IH [OF inv_ptr [OF Cons.prems, of offset len]]
    by (auto simp: r split: prod.splits)
qed simp

end

section \<open>The window invariant\<close>

definition bm_inv :: "bytes \<Rightarrow> BufferedMap \<Rightarrow> bool" where
  "bm_inv file m =
    (bm_file m = file \<and> bm_size m = length file \<and> length file < 2 ^ 63 \<and>
     bm_window_start m + bm_window_len m \<le> length file \<and> bm_window_len m \<le> length (bm_buffer m) \<and>
     take (bm_window_len m) (bm_buffer m) = take (bm_window_len m) (drop (bm_window_start m) file) \<and>
     1024 dvd bm_window_start m \<and> bm_window_len m \<le> bm_max_window m)"

lemma align_down_unat: "unat (align_down w) = unat w - unat w mod 1024"
proof -
  have m: "(of_nat ALIGN_BOUNDARY - 1 :: u64) = mask 10" by (simp add: ALIGN_BOUNDARY_def mask_eq_exp_minus_1)
  have "w - take_bit 10 w = w AND NOT (take_bit 10 w)" by (rule disjunctive_diff) (simp add: bit_take_bit_iff)
  also have "\<dots> = align_down w" unfolding align_down_def m by (rule bit_word_eqI) (auto simp: bit_simps)
  finally have "align_down w = w - take_bit 10 w" ..
  moreover have t: "unat (take_bit 10 w) = unat w mod 1024" 
    by (simp only: unsigned_take_bit_eq) (simp add: take_bit_eq_mod)
  moreover have "take_bit 10 w \<le> w" unfolding word_le_nat_alt t by simp
  ultimately show ?thesis by (simp add: unat_sub)
qed

lemma bm_open_inv: "length file < 2 ^ 63 \<Longrightarrow> bm_inv file (bm_from_file_with_window file w)"
  by (simp add: bm_inv_def bm_from_file_with_window_def)

lemma fill_window_inv:
  assumes "bm_file m = file" "bm_size m = length file" "length file < 2 ^ 63"
    "aligned + n \<le> length file" "n \<le> length (bm_buffer m)" "k \<le> n" "read_start = aligned + k"
    "take k (bm_buffer m) = take k (drop aligned file)" "1024 dvd aligned" "n \<le> bm_max_window m"
  shows "\<exists>m'. fill_window aligned n read_start k m = (m', Inr ()) \<and> bm_inv file m' \<and>
    bm_window_start m' = aligned \<and> bm_window_len m' = n \<and> bm_max_window m' = bm_max_window m"
proof -
  have w: "min n (min (length file - aligned) USIZE_MAX) = n" using assms(3,4) by (simp add: USIZE_MAX_def)
  show ?thesis
  proof (cases "k < n")
    case True
    let ?b = "copy_at k (take (n - k) (drop (aligned + k) file)) (bm_buffer m)"
    have [simp]: "length (take (n - k) (drop (aligned + k) file)) = n - k" "min (length file - (aligned + k)) (n - k) = n - k"
      "min (length (bm_buffer m)) k = k"
      using assms(4-6) by auto
    have "take n ?b = take k (drop aligned file) @ take (n - k) (drop (aligned + k) file)"
      using assms(4,5,8) True by (simp add: copy_at_def)
    also have "\<dots> = take n (drop aligned file)"
      using take_add [of k "n - k" "drop aligned file"] assms(6) by (simp add: add.commute)
    finally have "take n ?b = take n (drop aligned file)" .
    moreover have "n \<le> length ?b" using assms(4-6) by (simp add: copy_at_def)
    ultimately show ?thesis using assms True w by (simp add: fill_window_def bm_inv_def)
  next
    case False
    then have "k = n" using assms(6) by simp
    then show ?thesis using assms w by (simp add: fill_window_def bm_inv_def)
  qed
qed

lemma load_window_inv:
  assumes inv: "bm_inv file m" and off: "offset + len \<le> length file"
  shows "if offset mod 1024 + len \<le> bm_max_window m
    then \<exists>m'. load_window m offset len = (m', Inr ()) \<and> bm_inv file m' \<and> bm_max_window m' = bm_max_window m \<and>
      bm_window_start m' \<le> offset \<and> offset + len \<le> bm_window_start m' + bm_window_len m'
    else load_window m offset len = (m, Inl UnexpectedEof)"
proof -
  define a where "a = offset - offset mod 1024"
  have m: "bm_file m = file" "bm_size m = length file" "length file < 2 ^ 63"
    "bm_window_start m + bm_window_len m \<le> length file" "bm_window_len m \<le> length (bm_buffer m)"
    "take (bm_window_len m) (bm_buffer m) = take (bm_window_len m) (drop (bm_window_start m) file)"
    using inv by (auto simp: bm_inv_def)
  have "unat (of_nat offset :: u64) = offset" using off m(3) by (simp add: unat_of_nat take_bit_nat_eq_self)
  then have a: "unat (align_down (of_nat offset)) = a" by (simp add: align_down_unat a_def)
  have al: "a \<le> offset" "offset - a = offset mod 1024" by (simp_all add: a_def)
  define n where "n = min (bm_max_window m) (length file - a)"
  have win: "1024 dvd a" "n \<le> bm_max_window m" by (simp_all add: a_def n_def)
  have req: "n < offset mod 1024 + len \<longleftrightarrow> \<not> offset mod 1024 + len \<le> bm_max_window m"
    using off al by (auto simp: n_def)
  show ?thesis
  proof (cases "offset mod 1024 + len \<le> bm_max_window m")
    case False
    then show ?thesis using req by (simp add: load_window_def a al(2) m(2) n_def)
  next
    case True
    have n: "a + n \<le> length file" "offset + len \<le> a + n" using True req off al by (auto simp: n_def)
    let ?b = "bm_buffer m @ replicate (max n (length (bm_buffer m)) - length (bm_buffer m)) 0"
    let ?s = "bm_window_start m" and ?l = "bm_window_len m"
    have b: "n \<le> length ?b" "take ?l ?b = take ?l (drop ?s file)" using m(5,6) by simp_all
    show ?thesis
    proof (cases "0 < ?l \<and> ?s \<le> a \<and> a < ?s + ?l \<and> ?s + ?l \<le> a + n")
      case True
      have lens: "\<not> USIZE_MAX < ?l" "\<not> length ?b < ?l" "\<not> length ?b < ?s + ?l - a"
        using True m(3-5) by (auto simp: USIZE_MAX_def)
      let ?k = "?s + ?l - a"
      have src: "a - ?s + ?k = ?l" using True by simp
      let ?c = "copy_at 0 (slice (a - ?s) ?l ?b) ?b"
      have "slice (a - ?s) ?l ?b = drop (a - ?s) (take ?l (drop ?s file))" by (simp only: slice_def b(2))
      also have "\<dots> = take ?k (drop a file)" using True by (simp add: drop_take add.commute)
      finally have sl: "slice (a - ?s) ?l ?b = take ?k (drop a file)" .
      have c: "take ?k ?c = take ?k (drop a file)" "length ?c = length ?b"
        using True m(4,5) unfolding sl copy_at_def by auto
      have "\<exists>m'. fill_window a n (?s + ?l) ?k (m\<lparr>bm_buffer := ?c\<rparr>) = (m', Inr ()) \<and> bm_inv file m' \<and>
          bm_window_start m' = a \<and> bm_window_len m' = n \<and> bm_max_window m' = bm_max_window (m\<lparr>bm_buffer := ?c\<rparr>)"
        using True m n(1) b(1) c win by (intro fill_window_inv) auto
      moreover have "load_window m offset len = fill_window a n (?s + ?l) ?k (m\<lparr>bm_buffer := ?c\<rparr>)"
        using True lens req src \<open>offset mod 1024 + len \<le> bm_max_window m\<close>
        by (simp only: load_window_def a al(2) m(2) n_def [symmetric] Let_def) auto
      ultimately show ?thesis using n(2) al(1) \<open>offset mod 1024 + len \<le> bm_max_window m\<close> by auto
    next
      case False
      have "\<exists>m'. fill_window a n a 0 (m\<lparr>bm_buffer := ?b\<rparr>) = (m', Inr ()) \<and> bm_inv file m' \<and>
          bm_window_start m' = a \<and> bm_window_len m' = n \<and> bm_max_window m' = bm_max_window (m\<lparr>bm_buffer := ?b\<rparr>)"
        using m n(1) b(1) win by (intro fill_window_inv) auto
      moreover have "load_window m offset len = fill_window a n a 0 (m\<lparr>bm_buffer := ?b\<rparr>)"
        using False req \<open>offset mod 1024 + len \<le> bm_max_window m\<close>
        by (simp only: load_window_def a al(2) m(2) n_def [symmetric] Let_def) auto
      ultimately show ?thesis using n(2) al(1) \<open>offset mod 1024 + len \<le> bm_max_window m\<close> by auto
    qed
  qed
qed

lemma window_slice:
  assumes "bm_inv file m" "bm_window_start m \<le> offset" "offset + len \<le> bm_window_start m + bm_window_len m"
  shows "slice (offset - bm_window_start m) (offset - bm_window_start m + len) (bm_buffer m) = take len (drop offset file)"
    and "offset - bm_window_start m + len \<le> length (bm_buffer m)"
proof -
  let ?s = "bm_window_start m" and ?l = "bm_window_len m"
  have w: "?l \<le> length (bm_buffer m)" "take ?l (bm_buffer m) = take ?l (drop ?s file)" using assms(1) by (auto simp: bm_inv_def)
  have le: "offset - ?s + len \<le> ?l" using assms(2,3) by simp
  then show "offset - ?s + len \<le> length (bm_buffer m)" using w(1) by simp
  have "take (offset - ?s + len) (bm_buffer m) = take (offset - ?s + len) (take ?l (bm_buffer m))" using le by (simp add: min_def)
  also have "\<dots> = take (offset - ?s + len) (drop ?s file)" unfolding w(2) using le by (simp add: min_def)
  finally show "slice (offset - ?s) (offset - ?s + len) (bm_buffer m) = take len (drop offset file)"
    using assms(2) by (simp add: slice_def drop_take)
qed

text \<open>A request that is inside the window would also fit a window loaded for it, so the window that
  earlier requests left behind does not decide whether a request is served.\<close>

lemma aligned_window_fits:
  assumes "bm_inv file m" "bm_window_start m \<le> offset" "offset + len \<le> bm_window_start m + bm_window_len m"
  shows "offset mod 1024 + len \<le> bm_max_window m"
proof -
  obtain q where q: "bm_window_start m = 1024 * q" using assms(1) by (auto simp: bm_inv_def)
  then have "offset mod 1024 = (offset - bm_window_start m) mod 1024"
    using assms(2) by (metis le_add_diff_inverse mod_mult_self2 add.commute)
  then have "offset mod 1024 \<le> offset - bm_window_start m" by simp
  moreover have "bm_window_len m \<le> bm_max_window m" using assms(1) by (simp add: bm_inv_def)
  ultimately show ?thesis using assms(2,3) by linarith
qed

text \<open>One request: the answer is decided by the size of the file and of the window alone.\<close>

lemma map_ptr_cases:
  assumes inv: "bm_inv file m"
  shows "\<exists>m' r. map_ptr m offset len = (m', r) \<and> bm_inv file m' \<and> bm_max_window m' = bm_max_window m \<and>
    (r = (if len = 0 then Inr [] else if length file < offset + len then Inl UnexpectedEof
          else if offset mod 1024 + len \<le> bm_max_window m
          then Inr (take len (drop offset file)) else Inl UnexpectedEof))"
proof -
  have size: "bm_size m = length file" "length file < 2 ^ 63" using inv by (auto simp: bm_inv_def)
  have sat: "length file < sat_add offset len \<longleftrightarrow> length file < offset + len"
    using size(2) by (auto simp: sat_add_def USIZE_MAX_def min_def)
  show ?thesis
  proof (cases "len = 0 \<or> length file < offset + len")
    case True
    then show ?thesis using inv size sat by (auto simp: map_ptr_def)
  next
    case False
    have serve: "(case (m', Inr () :: unit io_result) of (m, Inl e) \<Rightarrow> (m, Inl e)
          | (m, Inr _) \<Rightarrow> let start = offset - bm_window_start m; end = start + len
              in if USIZE_MAX < end \<or> length (bm_buffer m) < end then (m, Inl InvalidData)
                 else (m, Inr (slice start end (bm_buffer m)))) = (m', Inr (take len (drop offset file)))"
      if "bm_inv file m'" "bm_window_start m' \<le> offset" "offset + len \<le> bm_window_start m' + bm_window_len m'" for m'
      using window_slice [OF that] that(3) size(2) False by (auto simp: Let_def USIZE_MAX_def)
    show ?thesis
    proof (cases "is_in_window m offset len")
      case True
      then have w: "bm_window_start m \<le> offset" "offset + len \<le> bm_window_start m + bm_window_len m"
        using False size(2) inv by (auto simp: is_in_window_def sat_add_def USIZE_MAX_def min_def bm_inv_def split: if_splits)
      then show ?thesis using serve [OF inv] aligned_window_fits [OF inv w] True False inv size sat
        by (auto simp: map_ptr_def)
    next
      case out: False
      show ?thesis
        using load_window_inv [OF inv, of offset len] serve False out inv size sat
        by (auto simp: map_ptr_def split: if_splits)
    qed
  qed
qed

section \<open>The strategies meet the contract\<close>

interpretation buffered: basis_map map_ptr "\<lambda>fl m. bm_inv fl m \<and> bm_max_window m = w"
  "\<lambda>offset len. offset mod 1024 + len \<le> w"
proof
  fix fl m offset len m' r
  assume "bm_inv fl m \<and> bm_max_window m = w" "map_ptr m offset len = (m', r)"
  then show "bm_inv fl m' \<and> bm_max_window m' = w" using map_ptr_cases [of fl m offset len] by auto
next
  fix fl m offset len
  assume "bm_inv fl m \<and> bm_max_window m = w" "offset mod 1024 + len \<le> w" "offset + len \<le> length fl"
  then show "\<exists>m'. map_ptr m offset len = (m', Inr (take len (drop offset fl)))"
    using map_ptr_cases [of fl m offset len] by auto
next
  fix fl m offset and len :: nat
  assume "bm_inv fl m \<and> bm_max_window m = w" "0 < len" "length fl < offset + len"
  then show "\<exists>m'. map_ptr m offset len = (m', Inl UnexpectedEof)" using map_ptr_cases [of fl m offset len] by auto
next
  fix fl m offset len m' bs
  assume "bm_inv fl m \<and> bm_max_window m = w" "map_ptr m offset len = (m', Inr bs)"
  then show "bs = take len (drop offset fl)" using map_ptr_cases [of fl m offset len] by (auto split: if_splits)
qed

lemma mmap_sat_add: "length fl < 2 ^ 63 \<Longrightarrow> length fl < sat_add offset len \<longleftrightarrow> length fl < offset + len"
  by (auto simp: sat_add_def USIZE_MAX_def min_def)

interpretation mmap: basis_map mmap_map_ptr "\<lambda>fl m. mm_data m = fl \<and> length fl < 2 ^ 63" "\<lambda>_ _. True"
  by unfold_locales
    (auto simp: mmap_map_ptr_def mmap_sat_add Let_def slice_def drop_take split: if_splits)

definition adaptive_inv :: "bytes \<Rightarrow> AdaptiveMapStrategy \<Rightarrow> bool" where
  "adaptive_inv fl s =
    (case s of Buffered b \<Rightarrow> bm_inv fl b \<and> bm_max_window b = MAX_MAP_SIZE
     | Mmap m \<Rightarrow> mm_data m = fl \<and> length fl < 2 ^ 63)"

lemma adaptive_map_ptr_simps [simp]:
  "adaptive_map_ptr (Buffered b) offset len = (case map_ptr b offset len of (b, r) \<Rightarrow> (Buffered b, r))"
  "adaptive_map_ptr (Mmap m) offset len = (case mmap_map_ptr m offset len of (m, r) \<Rightarrow> (Mmap m, r))"
  "adaptive_inv fl (Buffered b) \<longleftrightarrow> bm_inv fl b \<and> bm_max_window b = MAX_MAP_SIZE"
  "adaptive_inv fl (Mmap m) \<longleftrightarrow> mm_data m = fl \<and> length fl < 2 ^ 63"
  by (simp_all add: adaptive_map_ptr_def adaptive_inv_def)

interpretation adaptive: basis_map adaptive_map_ptr adaptive_inv "\<lambda>offset len. offset mod 1024 + len \<le> MAX_MAP_SIZE"
proof
  fix fl s offset len s' r
  assume "adaptive_inv fl s" "adaptive_map_ptr s offset len = (s', r)"
  then show "adaptive_inv fl s'"
    by (cases s) (auto simp: mmap_map_ptr_def split: prod.splits if_splits dest: buffered.inv_ptr [OF conjI])
next
  fix fl s offset len
  assume "adaptive_inv fl s" "offset mod 1024 + len \<le> MAX_MAP_SIZE" "offset + len \<le> length fl"
  then show "\<exists>s'. adaptive_map_ptr s offset len = (s', Inr (take len (drop offset fl)))"
    using buffered.serves [of fl _ MAX_MAP_SIZE offset len] mmap.serves [of _ fl offset len] by (cases s) force+
next
  fix fl s offset and len :: nat
  assume "adaptive_inv fl s" "0 < len" "length fl < offset + len"
  then show "\<exists>s'. adaptive_map_ptr s offset len = (s', Inl UnexpectedEof)"
    using buffered.refuses [of fl _ MAX_MAP_SIZE len offset] mmap.refuses [of _ fl len offset] by (cases s) force+
next
  fix fl s offset len s' bs
  assume "adaptive_inv fl s" "adaptive_map_ptr s offset len = (s', Inr bs)"
  then show "bs = take len (drop offset fl)"
    by (cases s) (auto simp: mmap_map_ptr_def slice_def drop_take split: prod.splits if_splits dest: buffered.sound [OF conjI])
qed

lemma adaptive_open_inv:
  assumes "length fl < 2 ^ 63"
  shows "adaptive_inv fl (adaptive_open_with_threshold fl threshold)" "adaptive_inv fl (adaptive_open_buffered fl)"
  using assms bm_open_inv [OF assms, of MAX_MAP_SIZE]
  by (simp_all add: adaptive_inv_def adaptive_open_with_threshold_def adaptive_open_buffered_def bm_open_def
      bm_from_file_with_window_def)

section \<open>Properties\<close>

text \<open>C18: the basis map returns the bytes of the file.  Whatever the mapping strategy and the order of the
  requests, a sequence of requests inside the file that fit the window is answered with exactly the
  requested bytes, although the window slides, reuses its overlap and never shrinks its buffer.\<close>

theorem basis_requests_served:
  assumes "length fl < 2 ^ 63" "\<forall>(offset, len) \<in> set rs. offset mod 1024 + len \<le> 2 ^ 18 \<and> offset + len \<le> length fl"
    "s = adaptive_open_with_threshold fl threshold \<or> s = adaptive_open_buffered fl"
  shows "snd (serve adaptive_map_ptr s rs) = map (\<lambda>(offset, len). Inr (take len (drop offset fl))) rs"
proof -
  have "adaptive_inv fl s" using adaptive_open_inv [OF assms(1)] assms(3) by auto
  then show ?thesis using adaptive.serve_all [of fl s rs] assms(2) by (auto simp: MAX_MAP_SIZE_def)
qed

theorem basis_requests_served_witness:
  "snd (serve adaptive_map_ptr (adaptive_open [1, 2, 3, 4, 5]) [(3, 2), (0, 2), (1, 3)]) = [Inr [4, 5], Inr [1, 2], Inr [2, 3, 4]]"
  using basis_requests_served [of "[1, 2, 3, 4, 5]" "[(3, 2), (0, 2), (1, 3)]" _ MMAP_THRESHOLD]
  by (simp add: adaptive_open_def)

lemma adaptive_map_ptr_buffered:
  "\<exists>b'. fst (adaptive_map_ptr (Buffered b) offset len) = Buffered b'"
  "\<exists>m'. fst (adaptive_map_ptr (Mmap m) offset len) = Mmap m'"
  by (simp_all split: prod.splits)

lemma serve_keeps_strategy:
  "\<exists>b'. fst (serve adaptive_map_ptr (Buffered b) rs) = Buffered b'"
  "\<exists>m'. fst (serve adaptive_map_ptr (Mmap m) rs) = Mmap m'"
proof -
  show "\<exists>b'. fst (serve adaptive_map_ptr (Buffered b) rs) = Buffered b'"
  proof (induction rs arbitrary: b)
    case (Cons r rs)
    then show ?case by (cases r) (auto split: prod.splits, metis fst_conv)
  qed simp
  show "\<exists>m'. fst (serve adaptive_map_ptr (Mmap m) rs) = Mmap m'"
  proof (induction rs arbitrary: m)
    case (Cons r rs)
    then show ?case by (cases r) (auto split: prod.splits, metis fst_conv)
  qed simp
qed

text \<open>C40: which requests are refused, exactly.  After any sequence of earlier requests, served or refused, a
  non-empty request is refused with an unexpected end of file when it reaches beyond the file, and under
  the sliding window also when the request and its distance from the preceding 1 KiB boundary exceed the
  256 KiB of the window, even inside the file.  Every other request is answered with the bytes of the
  file.  What the window holds from earlier requests never changes an answer.\<close>

theorem basis_request_refused:
  assumes "length fl < 2 ^ 63" "s = adaptive_open_with_threshold fl threshold \<or> s = adaptive_open_buffered fl"
  shows "snd (adaptive_map_ptr (fst (serve adaptive_map_ptr s rs)) offset len) =
    (if 0 < len \<and> (length fl < offset + len \<or> (\<exists>b. s = Buffered b) \<and> 2 ^ 18 < offset mod 1024 + len)
     then Inl UnexpectedEof else Inr (take len (drop offset fl)))"
proof (cases s)
  case (Buffered b)
  obtain b' where b': "fst (serve adaptive_map_ptr s rs) = Buffered b'"
    using serve_keeps_strategy(1) Buffered by blast
  have "adaptive_inv fl (Buffered b')"
    using adaptive.inv_serve [of fl s rs] adaptive_open_inv [OF assms(1)] assms(2) b' by auto
  then show ?thesis using map_ptr_cases [of fl b' offset len] Buffered b' by (auto simp: MAX_MAP_SIZE_def)
next
  case (Mmap m)
  obtain m' where m': "fst (serve adaptive_map_ptr s rs) = Mmap m'"
    using serve_keeps_strategy(2) Mmap by blast
  have "adaptive_inv fl (Mmap m')"
    using adaptive.inv_serve [of fl s rs] adaptive_open_inv [OF assms(1)] assms(2) m' by auto
  then show ?thesis using Mmap m'
    by (auto simp: mmap_map_ptr_def mmap_sat_add Let_def slice_def drop_take)
qed

theorem basis_request_refused_witness:
  "snd (adaptive_map_ptr (fst (serve adaptive_map_ptr (adaptive_open_buffered (replicate 300000 0)) [(0, 1000), (299000, 5000), (5000, 7)])) 0 270000)
     = Inl UnexpectedEof \<and>
   snd (adaptive_map_ptr (fst (serve adaptive_map_ptr (adaptive_open_buffered (replicate 300000 0)) [(0, 1000), (299000, 5000), (5000, 7)])) 299999 1)
     = Inr [0]"
proof -
  define f where "f = replicate 300000 (0 :: u8)"
  then have f: "length f = 300000" "take 1 (drop 299999 f) = [0]" by (simp_all only: length_replicate drop_replicate take_replicate) simp_all
  show ?thesis unfolding f_def [symmetric]
    using f basis_request_refused [of f "adaptive_open_buffered f" 0 "[(0, 1000), (299000, 5000), (5000, 7)]" 0 270000]
      basis_request_refused [of f "adaptive_open_buffered f" 0 "[(0, 1000), (299000, 5000), (5000, 7)]" 299999 1]
    by (simp add: adaptive_open_buffered_def del: serve.simps)
qed

end
