(* ===== verification/Sparse.thy ===== *)
theory Sparse
  imports Ring_Buffer
begin

text \<open>
  Sparse writing, \<open>crates/transfer/src/delta_apply/sparse.rs\<close>, with the zero scans of
  \<open>crates/transfer/src/constants.rs\<close> and the hole punching of \<open>crates/fast_io/src/punch_hole.rs\<close>.  An output
  file is its bytes and its position; a write past the end fills the gap with zeros, a seek past the end
  changes only the position and fails beyond the largest signed offset, and disk errors are not modelled.
  Counters are natural numbers that saturate at \<open>USIZE_MAX\<close> as the code's 64-bit ones do.
  Whether \<open>fallocate\<close> serves a range, in each of its two modes, is a parameter.  The main result: the holes are invisible, the file
  reads back as if every byte had been written.
\<close>

section \<open>Output files\<close>

record out_file =
  of_bytes :: bytes
  of_pos :: nat

definition I64_MAX :: nat where "I64_MAX = 2 ^ 63 - 1"

definition of_write :: "bytes \<Rightarrow> out_file \<Rightarrow> out_file" where
  "of_write bs f =
    (if bs = [] then f
     else \<lparr>of_bytes = take (of_pos f) (of_bytes f) @ replicate (of_pos f - length (of_bytes f)) 0 @ bs @
             drop (of_pos f + length bs) (of_bytes f),
           of_pos = of_pos f + length bs\<rparr>)"

definition of_seek_current :: "nat \<Rightarrow> out_file \<Rightarrow> out_file io_result" where
  "of_seek_current step f =
    (if I64_MAX < of_pos f + step then Inl InvalidInput else Inr (f\<lparr>of_pos := of_pos f + step\<rparr>))"

definition of_set_len :: "nat \<Rightarrow> out_file \<Rightarrow> out_file" where
  "of_set_len n f = f\<lparr>of_bytes := take n (of_bytes f) @ replicate (n - length (of_bytes f)) 0\<rparr>"

section \<open>Zero scans\<close>

function leading_zero_count :: "bytes \<Rightarrow> nat" where
  "leading_zero_count bytes =
    (if 16 \<le> length bytes
     then let chunk = take 16 bytes
          in if (from_le chunk :: 128 word) = 0 then 16 + leading_zero_count (drop 16 bytes)
             else length (takeWhile (\<lambda>b. b = 0) chunk)
     else length (takeWhile (\<lambda>b. b = 0) bytes))"
  by auto
termination by (relation "measure length") auto

function trailing_zero_count :: "bytes \<Rightarrow> nat" where
  "trailing_zero_count bytes =
    (if 16 \<le> length bytes
     then let chunk = drop (length bytes - 16) bytes
          in if (from_le chunk :: 128 word) = 0 then 16 + trailing_zero_count (take (length bytes - 16) bytes)
             else length (takeWhile (\<lambda>b. b = 0) (rev chunk))
     else length (takeWhile (\<lambda>b. b = 0) (rev bytes)))"
  by auto
termination by (relation "measure length") auto

declare leading_zero_count.simps [simp del] trailing_zero_count.simps [simp del]

section \<open>The sparse writer\<close>

definition SPARSE_WRITE_SIZE :: nat where "SPARSE_WRITE_SIZE = 1024"

record SparseWriteState =
  pending_zeros :: nat
  preallocated_len :: nat
  holes :: "(nat \<times> nat) list"
  stream_offset :: nat
  offset_primed :: bool

definition sparse_new :: SparseWriteState where
  "sparse_new = \<lparr>pending_zeros = 0, preallocated_len = 0, holes = [], stream_offset = 0, offset_primed = False\<rparr>"

definition ensure_offset :: "SparseWriteState \<Rightarrow> out_file \<Rightarrow> SparseWriteState \<times> nat" where
  "ensure_offset st f =
    (let st = (if offset_primed st then st else st\<lparr>stream_offset := of_pos f, offset_primed := True\<rparr>)
     in (st, stream_offset st))"

definition set_preallocated_len :: "nat \<Rightarrow> SparseWriteState \<Rightarrow> SparseWriteState" where
  "set_preallocated_len n st = st\<lparr>preallocated_len := n\<rparr>"

definition accumulate :: "nat \<Rightarrow> SparseWriteState \<Rightarrow> SparseWriteState" where
  "accumulate count st = st\<lparr>pending_zeros := sat_add (pending_zeros st) count\<rparr>"

definition pending :: "SparseWriteState \<Rightarrow> nat" where
  "pending st = pending_zeros st"

definition take_holes :: "SparseWriteState \<Rightarrow> SparseWriteState \<times> (nat \<times> nat) list" where
  "take_holes st = (st\<lparr>holes := []\<rparr>, holes st)"

function seek_forward :: "nat \<Rightarrow> out_file \<Rightarrow> out_file io_result" where
  "seek_forward remaining f =
    (if remaining = 0 then Inr f
     else let step = min remaining I64_MAX
          in bindE (of_seek_current step f) (seek_forward (remaining - step)))"
  by auto
termination by (relation "measure fst") (auto simp: I64_MAX_def)

declare seek_forward.simps [simp del]

definition flush :: "SparseWriteState \<Rightarrow> out_file \<Rightarrow> (SparseWriteState \<times> out_file) io_result" where
  "flush st f =
    (if pending_zeros st = 0 then Inr (st, f)
     else let (st, start) = ensure_offset st f;
              st = (if start < preallocated_len st then st\<lparr>holes := holes st @ [(start, pending_zeros st)]\<rparr> else st)
          in bindE (seek_forward (pending_zeros st) f) (\<lambda>f.
               Inr (st\<lparr>stream_offset := sat_add start (pending_zeros st), pending_zeros := 0\<rparr>, f)))"

function sparse_loop :: "bytes \<Rightarrow> nat \<Rightarrow> SparseWriteState \<Rightarrow> out_file \<Rightarrow> (SparseWriteState \<times> out_file) io_result" where
  "sparse_loop data offset st f =
    (if offset < length data
     then let end = min (offset + SPARSE_WRITE_SIZE) (length data);
              chunk = slice offset end data;
              leading_zeros = leading_zero_count chunk;
              st = accumulate leading_zeros st
          in if leading_zeros = length chunk then sparse_loop data end st f
             else let tail = drop leading_zeros chunk;
                      trailing_zeros = trailing_zero_count tail;
                      data_start = offset + leading_zeros;
                      data_end = end - trailing_zeros
                  in bindE (if data_start < data_end
                            then bindE (flush st f) (\<lambda>(st, f).
                                   let chunk = slice data_start data_end data
                                   in Inr (st\<lparr>stream_offset := sat_add (stream_offset st) (length chunk)\<rparr>, of_write chunk f))
                            else Inr (st, f))
                       (\<lambda>(st, f). sparse_loop data end (st\<lparr>pending_zeros := trailing_zeros\<rparr>) f)
     else Inr (st, f))"
  by auto
termination by (relation "measure (\<lambda>(data, offset, st, f). length data - offset)") (auto simp: SPARSE_WRITE_SIZE_def)

declare sparse_loop.simps [simp del]

definition sparse_write :: "bytes \<Rightarrow> SparseWriteState \<Rightarrow> out_file \<Rightarrow> (SparseWriteState \<times> out_file \<times> nat) io_result" where
  "sparse_write data st f =
    (if data = [] then Inr (st, f, 0)
     else let (st, _) = ensure_offset st f
          in bindE (sparse_loop data 0 st f) (\<lambda>(st, f). Inr (st, f, length data)))"

definition sparse_finish :: "SparseWriteState \<Rightarrow> out_file \<Rightarrow> (SparseWriteState \<times> out_file \<times> nat) io_result" where
  "sparse_finish st f =
    (let (st, position) = ensure_offset st f;
         logical_end = sat_add position (pending_zeros st)
     in bindE (flush st f) (\<lambda>(st, f). Inr (st, f, logical_end)))"

section \<open>Punching holes\<close>

definition ZERO_WRITE_BUFFER_SIZE :: nat where "ZERO_WRITE_BUFFER_SIZE = 32 * 1024"

function write_zeros_loop :: "nat \<Rightarrow> out_file \<Rightarrow> out_file" where
  "write_zeros_loop len f =
    (if len = 0 then f
     else let chunk = min len ZERO_WRITE_BUFFER_SIZE in write_zeros_loop (len - chunk) (of_write (replicate chunk 0) f))"
  by auto
termination by (relation "measure fst") (auto simp: ZERO_WRITE_BUFFER_SIZE_def)

declare write_zeros_loop.simps [simp del]

definition write_zeros_fallback :: "nat \<Rightarrow> nat \<Rightarrow> out_file \<Rightarrow> out_file" where
  "write_zeros_fallback pos len f = write_zeros_loop len (f\<lparr>of_pos := pos\<rparr>)"

text \<open>The effect of a served \<open>fallocate\<close> on the contents: the range reads as zeros, the length is kept.\<close>

definition zero_range :: "nat \<Rightarrow> nat \<Rightarrow> bytes \<Rightarrow> bytes" where
  "zero_range pos len b = take pos b @ replicate (min len (length b - pos)) 0 @ drop (pos + len) b"

text \<open>\<open>PUNCH_HOLE\<close> comes with \<open>KEEP_SIZE\<close>; \<open>ZERO_RANGE\<close> without it extends the file.\<close>

datatype fallocate_mode = PUNCH_HOLE | ZERO_RANGE

definition punch_hole :: "(fallocate_mode \<Rightarrow> nat \<Rightarrow> nat \<Rightarrow> bool) \<Rightarrow> nat \<Rightarrow> nat \<Rightarrow> out_file \<Rightarrow> out_file" where
  "punch_hole fallocates pos len f =
    (if len = 0 then f
     else if pos \<le> I64_MAX \<and> len \<le> I64_MAX \<and> fallocates PUNCH_HOLE pos len
     then f\<lparr>of_bytes := zero_range pos len (of_bytes f)\<rparr>
     else if pos \<le> I64_MAX \<and> len \<le> I64_MAX \<and> fallocates ZERO_RANGE pos len
     then f\<lparr>of_bytes := zero_range pos len (of_bytes f @ replicate (pos + len - length (of_bytes f)) 0)\<rparr>
     else write_zeros_fallback pos len f)"

section \<open>The zero scans count zeros\<close>

lemma from_le_eq_0:
  assumes "8 * length bs \<le> LENGTH('a)"
  shows "(from_le bs :: 'a::len word) = 0 \<longleftrightarrow> bs = replicate (length bs) 0"
proof
  assume z: "(from_le bs :: 'a word) = 0"
  have "bs = le_bytes (length bs) (from_le bs :: 'a word)" using assms by simp
  also have "\<dots> = replicate (length bs) 0" unfolding z by (simp add: le_bytes_def map_replicate_const)
  finally show "bs = replicate (length bs) 0" .
next
  assume "bs = replicate (length bs) 0"
  then show "(from_le bs :: 'a word) = 0" by (metis from_le_replicate_0)
qed

lemma from_le_rev_eq_0:
  "8 * length bs \<le> LENGTH('a) \<Longrightarrow> (from_le (rev bs) :: 'a::len word) = 0 \<longleftrightarrow> (from_le bs :: 'a word) = 0"
  using from_le_eq_0 [of bs, where 'a = 'a] from_le_eq_0 [of "rev bs", where 'a = 'a]
  by (metis length_rev rev_replicate rev_rev_ident)

lemma leading_zero_count_eq: "leading_zero_count bs = length (takeWhile (\<lambda>b. b = 0) bs)"
proof (induction bs rule: leading_zero_count.induct)
  case (1 bs)
  show ?case
  proof (cases "16 \<le> length bs")
    case True
    let ?c = "take 16 bs"
    have split: "takeWhile (\<lambda>b. b = 0) bs = takeWhile (\<lambda>b. b = 0) (?c @ drop 16 bs)" by simp
    have len: "length ?c = 16" using True by simp
    then have chunk_bits: "8 * length ?c \<le> LENGTH(128)" by simp
    show ?thesis
    proof (cases "(from_le ?c :: 128 word) = 0")
      case z: True
      then have "\<forall>b \<in> set ?c. b = 0" using from_le_eq_0 [of ?c, where 'a = 128] len
        by (metis chunk_bits in_set_replicate)
      then have "takeWhile (\<lambda>b. b = 0) bs = ?c @ takeWhile (\<lambda>b. b = 0) (drop 16 bs)"
        unfolding split by (intro takeWhile_append2) simp
      then show ?thesis using 1 True z len by (simp only: leading_zero_count.simps [of bs] Let_def simp_thms if_True length_append)
    next
      case False
      then have "?c \<noteq> replicate (length ?c) 0" using from_le_eq_0 [OF chunk_bits] by simp
      then obtain b where b: "b \<in> set ?c" "b \<noteq> 0" using replicate_eqI [OF refl, of ?c 0] by metis
      have "takeWhile (\<lambda>b. b = 0) (?c @ drop 16 bs) = takeWhile (\<lambda>b. b = 0) ?c" using b by (rule takeWhile_append1)
      then have "takeWhile (\<lambda>b. b = 0) bs = takeWhile (\<lambda>b. b = 0) ?c" unfolding split .
      then show ?thesis using True False by (simp only: leading_zero_count.simps [of bs] Let_def if_True if_False)
    qed
  qed (simp add: leading_zero_count.simps [of bs])
qed

lemma trailing_zero_count_rev: "trailing_zero_count bs = leading_zero_count (rev bs)"
proof (induction bs rule: trailing_zero_count.induct)
  case (1 bs)
  let ?c = "drop (length bs - 16) bs"
  have c: "take 16 (rev bs) = rev ?c" "drop 16 (rev bs) = rev (take (length bs - 16) bs)"
    by (simp_all add: take_rev drop_rev)
  have z: "(from_le (rev ?c) :: 128 word) = 0 \<longleftrightarrow> (from_le ?c :: 128 word) = 0" if "16 \<le> length bs"
    using that by (intro from_le_rev_eq_0) simp
  show ?case
    using 1 z by (simp add: trailing_zero_count.simps [of bs] leading_zero_count.simps [of "rev bs"] c Let_def)
qed

lemma takeWhile_zeros: "bs = replicate (length (takeWhile (\<lambda>b. b = 0) bs)) 0 @ dropWhile (\<lambda>b. b = 0) bs"
  by (metis (mono_tags, lifting) replicate_eqI set_takeWhileD takeWhile_dropWhile_id)

lemma all_zeros: "leading_zero_count bs = length bs \<Longrightarrow> bs = replicate (length bs) 0"
  using takeWhile_zeros [of bs] unfolding leading_zero_count_eq
  by (metis append_Nil2 append_eq_conv_conj drop_all length_replicate order_refl)

text \<open>A piece that is not all zeros is zeros, data, zeros.\<close>

lemma chunk_split:
  assumes "leading_zero_count c \<noteq> length c" "t = drop (leading_zero_count c) c"
  shows "\<exists>mid. mid \<noteq> [] \<and> t = mid @ replicate (trailing_zero_count t) 0 \<and> c = replicate (leading_zero_count c) 0 @ t"
proof -
  let ?z = "\<lambda>b :: u8. b = 0"
  have c: "c = replicate (leading_zero_count c) 0 @ dropWhile ?z c"
    unfolding leading_zero_count_eq by (rule takeWhile_zeros)
  then have t: "t = dropWhile ?z c" using assms(2) by (metis append_eq_conv_conj length_replicate)
  then have ne: "t \<noteq> []" using assms(1) c by (metis append_Nil2 length_replicate)
  have r: "rev t = replicate (trailing_zero_count t) 0 @ dropWhile ?z (rev t)"
    unfolding trailing_zero_count_rev leading_zero_count_eq by (rule takeWhile_zeros)
  then have "t = rev (dropWhile ?z (rev t)) @ replicate (trailing_zero_count t) 0"
    by (metis rev_append rev_replicate rev_rev_ident)
  moreover have "hd t \<noteq> 0" using ne t hd_dropWhile by (metis (mono_tags))
  then have "dropWhile ?z (rev t) \<noteq> []" using ne by (auto simp: dropWhile_eq_Nil_conv)
  ultimately show ?thesis using c t by (intro exI [of _ "rev (dropWhile ?z (rev t))"]) simp
qed

section \<open>The file under the holes\<close>

definition cell :: "out_file \<Rightarrow> nat \<Rightarrow> u8" where
  "cell f i = (if i < length (of_bytes f) then of_bytes f ! i else 0)"

definition in_holes :: "(nat \<times> nat) list \<Rightarrow> nat \<Rightarrow> bool" where
  "in_holes hs i = list_ex (\<lambda>(start, len). start \<le> i \<and> i < start + len) hs"

lemma in_holes_simps [simp]:
  "\<not> in_holes [] i"
  "in_holes (h # hs) i \<longleftrightarrow> fst h \<le> i \<and> i < fst h + snd h \<or> in_holes hs i"
  "in_holes (hs @ hs') i \<longleftrightarrow> in_holes hs i \<or> in_holes hs' i"
  by (auto simp: in_holes_def)

lemma length_of_write:
  "length (of_bytes (of_write bs f)) = (if bs = [] then length (of_bytes f) else max (length (of_bytes f)) (of_pos f + length bs))"
  by (auto simp: of_write_def)

lemma of_pos_write [simp]: "of_pos (of_write bs f) = of_pos f + length bs"
  by (simp add: of_write_def)

lemma cell_write:
  "cell (of_write bs f) i = (if of_pos f \<le> i \<and> i < of_pos f + length bs then bs ! (i - of_pos f) else cell f i)"
  by (auto simp: cell_def of_write_def nth_append not_less min_def)

text \<open>\<open>d\<close> is what has been written; below the position the file reads as \<open>d\<close> once the holes are punched,
  above it \<open>d\<close> is the pending zeros.\<close>

definition sparse_inv :: "nat \<Rightarrow> nat \<Rightarrow> bytes \<Rightarrow> SparseWriteState \<Rightarrow> out_file \<Rightarrow> bool" where
  "sparse_inv p n0 d st f =
    (preallocated_len st = p \<and> n0 \<le> p \<and> (offset_primed st \<longrightarrow> stream_offset st = of_pos f) \<and>
     of_pos f + pending_zeros st = length d \<and> length (of_bytes f) \<le> max (of_pos f) n0 \<and>
     (\<forall>i. of_pos f \<le> i \<and> i < length d \<longrightarrow> d ! i = 0) \<and>
     (\<forall>(start, len) \<in> set (holes st). start + len \<le> of_pos f) \<and>
     (\<forall>i < of_pos f. (if in_holes (holes st) i then 0 else cell f i) = d ! i))"

lemma in_holes_bound: "\<forall>(start, len) \<in> set hs. start + len \<le> n \<Longrightarrow> in_holes hs i \<Longrightarrow> i < n"
  by (fastforce simp: in_holes_def list_ex_iff)

lemma sparse_inv_zeros:
  "sparse_inv p n0 d st f \<Longrightarrow> length d + k \<le> USIZE_MAX \<Longrightarrow> sparse_inv p n0 (d @ replicate k 0) (accumulate k st) f"
  by (auto simp: sparse_inv_def accumulate_def sat_add_def nth_append)

lemma sparse_inv_pending:
  "sparse_inv p n0 d st f \<Longrightarrow> pending_zeros st = 0 \<Longrightarrow> sparse_inv p n0 (d @ replicate k 0) (st\<lparr>pending_zeros := k\<rparr>) f"
  by (auto simp: sparse_inv_def nth_append)

lemma sparse_inv_data:
  assumes "sparse_inv p n0 d st f" "pending_zeros st = 0" "offset_primed st" "length d + length bs \<le> USIZE_MAX"
  shows "sparse_inv p n0 (d @ bs) (st\<lparr>stream_offset := sat_add (stream_offset st) (length bs)\<rparr>) (of_write bs f)"
proof -
  have inv: "of_pos f = length d" "stream_offset st = length d" "\<forall>(start, len) \<in> set (holes st). start + len \<le> length d"
    using assms(1-3) by (auto simp: sparse_inv_def)
  have "\<not> in_holes (holes st) i" if "length d \<le> i" for i using in_holes_bound [OF inv(3)] that by fastforce
  then show ?thesis using assms inv
    by (fastforce simp: sparse_inv_def sat_add_def cell_write nth_append length_of_write)
qed

lemma seek_forward_ok: "of_pos f + n \<le> I64_MAX \<Longrightarrow> seek_forward n f = Inr (f\<lparr>of_pos := of_pos f + n\<rparr>)"
  by (simp add: seek_forward.simps [of n] seek_forward.simps [of 0] of_seek_current_def)

lemma ensure_offset_inv:
  assumes "sparse_inv p n0 d st f" "ensure_offset st f = (st', pos)"
  shows "sparse_inv p n0 d st' f \<and> offset_primed st' \<and> pos = of_pos f \<and> stream_offset st' = pos \<and>
    pending_zeros st' = pending_zeros st \<and> holes st' = holes st"
  using assms by (auto simp: sparse_inv_def ensure_offset_def Let_def split: if_splits)

lemma flush_inv:
  assumes inv: "sparse_inv p n0 d st f" and n: "length d \<le> I64_MAX"
  shows "\<exists>st' f'. flush st f = Inr (st', f') \<and> sparse_inv p n0 d st' f' \<and> pending_zeros st' = 0 \<and>
    (offset_primed st \<longrightarrow> offset_primed st')"
proof (cases "pending_zeros st = 0")
  case False
  obtain st1 pos where e: "ensure_offset st f = (st1, pos)" by (cases "ensure_offset st f")
  note st1 = ensure_offset_inv [OF inv e]
  let ?k = "pending_zeros st" and ?f = "f\<lparr>of_pos := length d\<rparr>"
  define hs where "hs = (if of_pos f < p then holes st @ [(of_pos f, ?k)] else holes st)"
  have d: "of_pos f + ?k = length d" using inv by (simp add: sparse_inv_def)
  then have seek: "seek_forward ?k f = Inr ?f" using n seek_forward_ok [of f ?k] by simp
  have "sat_add (of_pos f) ?k = length d" using d n by (simp add: sat_add_def I64_MAX_def USIZE_MAX_def)
  then have fl: "\<exists>st'. flush st f = Inr (st', ?f) \<and> pending_zeros st' = 0 \<and> offset_primed st' \<and> holes st' = hs \<and>
      stream_offset st' = length d \<and> preallocated_len st' = p"
    using False e seek st1 by (simp add: flush_def sparse_inv_def hs_def)
  then obtain st' where st': "flush st f = Inr (st', ?f)" "pending_zeros st' = 0" "offset_primed st'" "holes st' = hs"
    "stream_offset st' = length d" "preallocated_len st' = p" by blast
  have "sparse_inv p n0 d st' ?f"
  proof -
    have c: "(if in_holes hs i then 0 else cell ?f i) = d ! i" if "i < length d" for i
    proof (cases "i < of_pos f")
      case True
      then have "in_holes hs i \<longleftrightarrow> in_holes (holes st) i" "cell ?f i = cell f i" by (auto simp: cell_def hs_def)
      moreover have "(if in_holes (holes st) i then 0 else cell f i) = d ! i" using inv True unfolding sparse_inv_def by blast
      ultimately show ?thesis by presburger
    next
      case False
      then have "d ! i = 0" using inv that by (simp add: sparse_inv_def)
      moreover have "in_holes hs i \<or> length (of_bytes f) \<le> i"
        using False that d inv by (auto simp: sparse_inv_def hs_def)
      ultimately show ?thesis by (auto simp: cell_def)
    qed
    moreover have "\<forall>(start, len) \<in> set hs. start + len \<le> length d" using inv d by (auto simp: sparse_inv_def hs_def)
    moreover have "n0 \<le> p" "length (of_bytes f) \<le> max (length d) n0" using inv d by (auto simp: sparse_inv_def)
    ultimately show ?thesis unfolding sparse_inv_def st'(2-6) by auto
  qed
  then show ?thesis using st' by blast
qed (use inv in \<open>simp add: flush_def\<close>)

lemma slice_shift: "slice (a + k) b xs = drop k (take (b - a) (drop a xs))"
  by (simp add: slice_def drop_take add.commute)

lemma sparse_loop_inv:
  assumes "sparse_inv p n0 d st f" "offset_primed st" "length d + (length data - offset) \<le> I64_MAX"
  shows "\<exists>st' f'. sparse_loop data offset st f = Inr (st', f') \<and> sparse_inv p n0 (d @ drop offset data) st' f' \<and> offset_primed st'"
  using assms
proof (induction "length data - offset" arbitrary: offset d st f rule: less_induct)
  case (less offset d st f)
  show ?case
  proof (cases "offset < length data")
    case True
    define e where "e = min (offset + SPARSE_WRITE_SIZE) (length data)"
    define c where "c = slice offset e data"
    define lz where "lz = leading_zero_count c"
    have e: "offset < e" "e \<le> length data" using True by (auto simp: e_def SPARSE_WRITE_SIZE_def)
    have c: "length c = e - offset" "drop offset data = c @ drop e data"
      using e append_take_drop_id [of "e - offset" "drop offset data"] by (simp_all add: c_def slice_def drop_take)
    have big: "length d + length c \<le> USIZE_MAX" "length d + length c \<le> I64_MAX"
      using less.prems(3) e c(1) by (simp_all add: I64_MAX_def USIZE_MAX_def)
    have rest: "\<exists>st' f'. sparse_loop data e st1 f1 = Inr (st', f') \<and> sparse_inv p n0 (d @ drop offset data) st' f' \<and> offset_primed st'"
      if "sparse_inv p n0 (d @ c) st1 f1" "offset_primed st1" for st1 f1
      using less.hyps [of e "d @ c" st1 f1] that less.prems(3) e c by simp
    note unfold_loop = sparse_loop.simps [of data offset st f, folded e_def, unfolded Let_def, folded c_def, folded lz_def]
    show ?thesis
    proof (cases "lz = length c")
      case z: True
      then have zeros: "c = replicate lz 0" using all_zeros [of c] by (simp only: lz_def)
      have "sparse_inv p n0 (d @ replicate lz 0) (accumulate lz st) f"
        by (rule sparse_inv_zeros [OF less.prems(1)]) (use big(1) z in simp)
      then have inv: "sparse_inv p n0 (d @ c) (accumulate lz st) f" by (subst zeros)
      have primed: "offset_primed (accumulate lz st)" using less.prems(2) by (simp add: accumulate_def)
      have "sparse_loop data offset st f = sparse_loop data e (accumulate lz st) f"
        by (subst unfold_loop) (simp only: True z refl if_True)
      then show ?thesis using rest [OF inv primed] by metis
    next
      case False
      define t where "t = drop lz c"
      define tz where "tz = trailing_zero_count t"
      obtain mid where mid: "mid \<noteq> []" "t = mid @ replicate tz 0" "c = replicate lz 0 @ t"
        using chunk_split [of c t, folded lz_def tz_def, OF False t_def] by blast
      have lens: "length c = lz + length mid + tz" using mid by simp
      have ends: "offset + lz < e - tz" using lens mid(1) c(1) by (cases mid) simp_all
      have sl: "slice (offset + lz) (e - tz) data = mid"
      proof -
        have n: "e - tz - offset = length (replicate lz (0 :: u8) @ mid)" using lens c(1) by simp
        have "take (e - tz - offset) (drop offset data) = replicate lz 0 @ mid"
          unfolding n c(2) mid(3,2) by simp
        then show ?thesis unfolding slice_shift by simp
      qed
      have "sparse_inv p n0 (d @ replicate lz 0) (accumulate lz st) f"
        using sparse_inv_zeros [OF less.prems(1), of lz] big(1) lens by simp
      then obtain st1 f1 where fl: "flush (accumulate lz st) f = Inr (st1, f1)" "sparse_inv p n0 (d @ replicate lz 0) st1 f1"
        "pending_zeros st1 = 0" "offset_primed st1"
        using flush_inv [of p n0 "d @ replicate lz 0" "accumulate lz st" f] big(2) lens less.prems(2) by (auto simp: accumulate_def)
      let ?st2 = "st1\<lparr>stream_offset := sat_add (stream_offset st1) (length mid)\<rparr>"
      have "sparse_inv p n0 ((d @ replicate lz 0) @ mid) ?st2 (of_write mid f1)"
        using sparse_inv_data [OF fl(2,3,4), of mid] big(1) lens by simp
      then have "sparse_inv p n0 (((d @ replicate lz 0) @ mid) @ replicate tz 0) (?st2\<lparr>pending_zeros := tz\<rparr>) (of_write mid f1)"
        by (rule sparse_inv_pending) (simp add: fl(3))
      then have inv: "sparse_inv p n0 (d @ c) (?st2\<lparr>pending_zeros := tz\<rparr>) (of_write mid f1)" using mid by simp
      have "sparse_loop data offset st f = sparse_loop data e (?st2\<lparr>pending_zeros := tz\<rparr>) (of_write mid f1)"
        using fl(1) False True sl ends by (subst unfold_loop) (simp add: t_def [symmetric] tz_def [symmetric])
      moreover have "offset_primed (?st2\<lparr>pending_zeros := tz\<rparr>)" using fl(4) by simp
      ultimately show ?thesis using rest [OF inv] by metis
    qed
  qed (use less.prems in \<open>simp add: sparse_loop.simps [of data offset st f]\<close>)
qed

lemma sparse_write_inv:
  assumes "sparse_inv p n0 d st f" "length d + length data \<le> I64_MAX"
  shows "\<exists>st' f'. sparse_write data st f = Inr (st', f', length data) \<and> sparse_inv p n0 (d @ data) st' f'"
proof (cases "data = []")
  case False
  obtain st1 pos where e: "ensure_offset st f = (st1, pos)" by (cases "ensure_offset st f")
  note st1 = ensure_offset_inv [OF assms(1) e]
  then obtain st' f' where "sparse_loop data 0 st1 f = Inr (st', f')" "sparse_inv p n0 (d @ data) st' f'"
    using sparse_loop_inv [of p n0 d st1 f data 0] assms(2) by auto
  then show ?thesis using False e by (simp add: sparse_write_def)
qed (use assms in \<open>simp add: sparse_write_def\<close>)

lemma sparse_finish_inv:
  assumes inv: "sparse_inv p n0 d st f" and "length d \<le> I64_MAX"
  shows "\<exists>st' f'. sparse_finish st f = Inr (st', f', length d) \<and> sparse_inv p n0 d st' f' \<and> of_pos f' = length d"
proof -
  obtain st1 pos where e: "ensure_offset st f = (st1, pos)" by (cases "ensure_offset st f")
  note st1 = ensure_offset_inv [OF inv e]
  then obtain st' f' where fl: "flush st1 f = Inr (st', f')" "sparse_inv p n0 d st' f'" "pending_zeros st' = 0"
    using flush_inv [of p n0 d st1 f] assms(2) by auto
  then have "of_pos f' = length d" by (simp add: sparse_inv_def)
  moreover have "sat_add pos (pending_zeros st1) = length d"
    using st1 inv assms(2) by (simp add: sparse_inv_def sat_add_def I64_MAX_def USIZE_MAX_def)
  ultimately show ?thesis using fl e by (simp add: sparse_finish_def)
qed

section \<open>Punching\<close>

lemma write_zeros_loop_cell:
  "cell (write_zeros_loop len f) i = (if of_pos f \<le> i \<and> i < of_pos f + len then 0 else cell f i) \<and>
   length (of_bytes (write_zeros_loop len f)) = (if len = 0 then length (of_bytes f) else max (length (of_bytes f)) (of_pos f + len))"
proof (induction len f rule: write_zeros_loop.induct)
  case (1 len f)
  show ?case
  proof (cases "len = 0")
    case False
    define k where "k = min len ZERO_WRITE_BUFFER_SIZE"
    have k: "0 < k" "k \<le> len" using False by (auto simp: k_def ZERO_WRITE_BUFFER_SIZE_def)
    have "write_zeros_loop len f = write_zeros_loop (len - k) (of_write (replicate k 0) f)"
      using False by (simp add: write_zeros_loop.simps [of len f] k_def Let_def)
    then show ?thesis using 1 [OF False k_def] k by (auto simp: cell_write length_of_write)
  qed (auto simp: write_zeros_loop.simps [of 0 f])
qed

lemma nth_zero_range:
  "pos + len \<le> length b \<Longrightarrow> i < length b \<Longrightarrow> zero_range pos len b ! i = (if pos \<le> i \<and> i < pos + len then 0 else b ! i)"
  by (auto simp: zero_range_def nth_append min_def)

lemma length_zero_range [simp]: "pos + len \<le> length b \<Longrightarrow> length (zero_range pos len b) = length b"
  by (auto simp: zero_range_def min_def)

text \<open>Both ways of punching inside the file zero the range and change nothing else.\<close>

lemma punch_hole_cell:
  assumes "pos + len \<le> length (of_bytes f)"
  shows "cell (punch_hole fallocates pos len f) i = (if pos \<le> i \<and> i < pos + len then 0 else cell f i)"
    and "length (of_bytes (punch_hole fallocates pos len f)) = length (of_bytes f)"
proof -
  have c: "cell (f\<lparr>of_pos := pos\<rparr>) i = cell f i" by (simp add: cell_def)
  show "cell (punch_hole fallocates pos len f) i = (if pos \<le> i \<and> i < pos + len then 0 else cell f i)"
    using assms write_zeros_loop_cell [of len "f\<lparr>of_pos := pos\<rparr>" i] nth_zero_range [OF assms, of i] c
    by (auto simp: punch_hole_def write_zeros_fallback_def cell_def [of "f\<lparr>of_bytes := _\<rparr>"]) (simp_all add: cell_def)
  show "length (of_bytes (punch_hole fallocates pos len f)) = length (of_bytes f)"
    using assms write_zeros_loop_cell [of len "f\<lparr>of_pos := pos\<rparr>" i]
    by (auto simp: punch_hole_def write_zeros_fallback_def)
qed

lemma punch_all:
  assumes "\<forall>(pos, len) \<in> set hs. pos + len \<le> length (of_bytes f)"
  shows "length (of_bytes (fold (\<lambda>(pos, len). punch_hole fallocates pos len) hs f)) = length (of_bytes f) \<and>
    cell (fold (\<lambda>(pos, len). punch_hole fallocates pos len) hs f) i = (if in_holes hs i then 0 else cell f i)"
  using assms
proof (induction hs arbitrary: f)
  case (Cons h hs)
  obtain pos len where h: "h = (pos, len)" by (cases h)
  then have "pos + len \<le> length (of_bytes f)" using Cons.prems by simp
  note p = punch_hole_cell [OF this, of fallocates]
  show ?case using Cons.IH [of "punch_hole fallocates pos len f"] Cons.prems p by (auto simp: h)
qed simp

text \<open>The end of a sparse transfer, as the delta applicator runs it: finish, set the length, punch.\<close>

definition sparse_end :: "(fallocate_mode \<Rightarrow> nat \<Rightarrow> nat \<Rightarrow> bool) \<Rightarrow> SparseWriteState \<Rightarrow> out_file \<Rightarrow> (out_file \<times> nat) io_result" where
  "sparse_end fallocates st f =
    bindE (sparse_finish st f) (\<lambda>(st, f, final_pos).
      Inr (fold (\<lambda>(pos, len). punch_hole fallocates pos len) (snd (take_holes st)) (of_set_len final_pos f), final_pos))"

lemma sparse_end_bytes:
  assumes "sparse_inv p n0 d st f" "length d \<le> I64_MAX"
  shows "\<exists>f'. sparse_end fallocates st f = Inr (f', length d) \<and> of_bytes f' = d"
proof -
  obtain st' f1 where f1: "sparse_finish st f = Inr (st', f1, length d)" "sparse_inv p n0 d st' f1" "of_pos f1 = length d"
    using sparse_finish_inv [OF assms] by blast
  let ?f2 = "of_set_len (length d) f1"
  let ?f3 = "fold (\<lambda>(pos, len). punch_hole fallocates pos len) (holes st') ?f2"
  have len: "length (of_bytes ?f2) = length d" by (simp add: of_set_len_def)
  have "\<forall>(pos, len) \<in> set (holes st'). pos + len \<le> length (of_bytes ?f2)" using f1(2,3) unfolding len by (auto simp: sparse_inv_def)
  note pu = punch_all [OF this, of fallocates]
  have "of_bytes ?f3 ! i = d ! i" if "i < length d" for i
  proof -
    have "cell ?f3 i = (if in_holes (holes st') i then 0 else cell ?f2 i)" using pu by blast
    also have "cell ?f2 i = cell f1 i" using that by (auto simp: cell_def of_set_len_def nth_append)
    also have "(if in_holes (holes st') i then 0 else cell f1 i) = d ! i" using f1(2,3) that unfolding sparse_inv_def by simp
    finally show ?thesis using that pu len by (simp add: cell_def)
  qed
  then have "of_bytes ?f3 = d" using pu len by (intro nth_equalityI) simp_all
  then show ?thesis using f1(1) by (simp add: sparse_end_def take_holes_def)
qed

lemma sparse_inv_start:
  "length b \<le> p \<Longrightarrow> sparse_inv p (length b) [] (set_preallocated_len p sparse_new) \<lparr>of_bytes = b, of_pos = 0\<rparr>"
  by (simp add: sparse_inv_def set_preallocated_len_def sparse_new_def)

fun sparse_writes :: "bytes list \<Rightarrow> SparseWriteState \<Rightarrow> out_file \<Rightarrow> (SparseWriteState \<times> out_file) io_result" where
  "sparse_writes [] st f = Inr (st, f)"
| "sparse_writes (d # ds) st f = bindE (sparse_write d st f) (\<lambda>(st, f, _). sparse_writes ds st f)"

lemma sparse_writes_inv:
  assumes "sparse_inv p n0 d st f" "length d + length (concat ds) \<le> I64_MAX"
  shows "\<exists>st' f'. sparse_writes ds st f = Inr (st', f') \<and> sparse_inv p n0 (d @ concat ds) st' f'"
  using assms
proof (induction ds arbitrary: d st f)
  case (Cons x ds)
  obtain st1 f1 where "sparse_write x st f = Inr (st1, f1, length x)" "sparse_inv p n0 (d @ x) st1 f1"
    using sparse_write_inv [OF Cons.prems(1), of x] Cons.prems(2) by auto
  then show ?case using Cons.IH [of "d @ x" st1 f1] Cons.prems(2) by auto
qed simp

section \<open>Properties\<close>

text \<open>C19: sparse writing is invisible.  Any sequence of sparse writes over an old file, fresh or in place,
  followed by the end of the transfer leaves exactly the concatenation of what was written: the zero runs
  that were skipped read back as zeros, also where the old file had other data, whichever ranges the
  kernel can punch, and what the old file had beyond the new end is gone.\<close>

theorem sparse_output_exact:
  assumes "length old \<le> p" "length (concat ds) \<le> I64_MAX"
  shows "\<exists>f'. bindE (sparse_writes ds (set_preallocated_len p sparse_new) \<lparr>of_bytes = old, of_pos = 0\<rparr>)
      (\<lambda>(st, f). sparse_end fallocates st f) = Inr (f', length (concat ds)) \<and> of_bytes f' = concat ds"
proof -
  obtain st f where w: "sparse_writes ds (set_preallocated_len p sparse_new) \<lparr>of_bytes = old, of_pos = 0\<rparr> = Inr (st, f)"
    "sparse_inv p (length old) (concat ds) st f"
    using sparse_writes_inv [OF sparse_inv_start [OF assms(1)], of ds] assms(2) by auto
  show ?thesis using sparse_end_bytes [OF w(2) assms(2), of fallocates] w(1) by simp
qed

theorem sparse_output_exact_witness:
  "\<exists>f'. bindE (sparse_writes [[0, 7, 0], [0, 0, 5], [0]] (set_preallocated_len 9 sparse_new)
        \<lparr>of_bytes = [9, 9, 9, 9, 9, 9, 9, 9, 9], of_pos = 0\<rparr>) (\<lambda>(st, f). sparse_end (\<lambda>mode pos len. mode = ZERO_RANGE \<and> pos = 2) st f) = Inr (f', length [0, 7, 0, 0, 0, 5, 0 :: u8]) \<and>
    of_bytes f' = [0, 7, 0, 0, 0, 5, 0]"
  using sparse_output_exact [of "[9, 9, 9, 9, 9, 9, 9, 9, 9]" 9 "[[0, 7, 0], [0, 0, 5], [0]]" "\<lambda>mode pos len. mode = ZERO_RANGE \<and> pos = 2"]
  by (simp add: I64_MAX_def)

end
