(* ===== verification/Applicator.thy ===== *)
theory Applicator
  imports Basis_Map Sparse Token_Wire Wire_Signature
begin

text \<open>
  The receiver's side of a delta transfer, \<open>crates/transfer/src/delta_apply\<close>: the whole-file checksum
  (\<open>checksum.rs\<close>), the plain token reader (\<open>token_reader.rs\<close>, \<open>token_buffer.rs\<close>) and the applicator
  (\<open>applicator.rs\<close>), which writes literals and basis blocks to the output, sparse or not, through the basis
  map and, when nothing is checksummed, through the kernel's copy calls.  A hasher is the bytes it was fed, as
  in \<open>Signature\<close>; what the kernel copies is a parameter.  The compressed token format is not modelled.
\<close>

section \<open>The whole-file checksum\<close>

datatype ChecksumAlgorithm = CsumNone | MD4 | MD5 | SHA1 | XXH64 | XXH3 | XXH128

datatype ChecksumVerifier =
    CvNone
  | CvMd4 bytes
  | CvMd5 bytes
  | CvSha1 bytes
  | CvXxh64 bytes
  | CvXxh3 bytes
  | CvXxh128 bytes

definition uses_varint_encoding :: "nat \<Rightarrow> bool" where
  "uses_varint_encoding protocol = (30 \<le> protocol)"

definition for_algorithm :: "ChecksumAlgorithm \<Rightarrow> ChecksumVerifier" where
  "for_algorithm algorithm =
    (case algorithm of
       CsumNone \<Rightarrow> CvNone | MD4 \<Rightarrow> CvMd4 [] | MD5 \<Rightarrow> CvMd5 [] | SHA1 \<Rightarrow> CvSha1 []
     | XXH64 \<Rightarrow> CvXxh64 [] | XXH3 \<Rightarrow> CvXxh3 [] | XXH128 \<Rightarrow> CvXxh128 [])"

definition cv_update :: "bytes \<Rightarrow> ChecksumVerifier \<Rightarrow> ChecksumVerifier" where
  "cv_update data v =
    (case v of
       CvNone \<Rightarrow> CvNone | CvMd4 h \<Rightarrow> CvMd4 (h @ data) | CvMd5 h \<Rightarrow> CvMd5 (h @ data) | CvSha1 h \<Rightarrow> CvSha1 (h @ data)
     | CvXxh64 h \<Rightarrow> CvXxh64 (h @ data) | CvXxh3 h \<Rightarrow> CvXxh3 (h @ data) | CvXxh128 h \<Rightarrow> CvXxh128 (h @ data))"

definition for_algorithm_seeded :: "ChecksumAlgorithm \<Rightarrow> i32 \<Rightarrow> nat \<Rightarrow> ChecksumVerifier" where
  "for_algorithm_seeded algorithm seed protocol =
    (let verifier = for_algorithm algorithm
     in if algorithm = MD4 \<and> \<not> uses_varint_encoding protocol then cv_update (le_bytes 4 seed) verifier else verifier)"

definition cv_new :: "ChecksumAlgorithm option \<Rightarrow> nat \<Rightarrow> i32 \<Rightarrow> ChecksumVerifier" where
  "cv_new negotiated protocol seed =
    (case negotiated of
       Some checksum \<Rightarrow> for_algorithm_seeded checksum seed protocol
     | None \<Rightarrow> if uses_varint_encoding protocol then CvMd5 [] else for_algorithm_seeded MD4 seed protocol)"

definition cv_is_noop :: "ChecksumVerifier \<Rightarrow> bool" where
  "cv_is_noop v = (v = CvNone)"

definition cv_algorithm :: "ChecksumVerifier \<Rightarrow> ChecksumAlgorithm" where
  "cv_algorithm v =
    (case v of CvNone \<Rightarrow> CsumNone | CvMd4 _ \<Rightarrow> MD4 | CvMd5 _ \<Rightarrow> MD5 | CvSha1 _ \<Rightarrow> SHA1
     | CvXxh64 _ \<Rightarrow> XXH64 | CvXxh3 _ \<Rightarrow> XXH3 | CvXxh128 _ \<Rightarrow> XXH128)"

definition cv_digest_len :: "ChecksumVerifier \<Rightarrow> nat" where
  "cv_digest_len v =
    (case v of CvNone \<Rightarrow> 1 | CvMd4 _ \<Rightarrow> 16 | CvMd5 _ \<Rightarrow> 16 | CvXxh128 _ \<Rightarrow> 16 | CvSha1 _ \<Rightarrow> 20 | CvXxh64 _ \<Rightarrow> 8 | CvXxh3 _ \<Rightarrow> 8)"

definition finalize_into :: "hash_crates \<Rightarrow> ChecksumVerifier \<Rightarrow> bytes" where
  "finalize_into H v =
    (case v of
       CvNone \<Rightarrow> [0]
     | CvMd4 h \<Rightarrow> md4_hash H h
     | CvMd5 h \<Rightarrow> md5_hash H h
     | CvSha1 h \<Rightarrow> sha1_hash H h
     | CvXxh64 h \<Rightarrow> le_bytes 8 (xxh64_hash H 0 h)
     | CvXxh3 h \<Rightarrow> le_bytes 8 (xxh3_64_hash H 0 h)
     | CvXxh128 h \<Rightarrow> le_bytes 16 (xxh3_128_hash H 0 h))"

section \<open>Tokens\<close>

datatype RecvToken = LiteralPending nat | BlockRef nat | EndToken

definition recv_token :: "bytes \<Rightarrow> RecvToken read_result" where
  "recv_token s =
    bindE (read_exact 4 s) (\<lambda>(buf, s).
      let token = (from_le buf :: i32)
      in if sint token = 0 then Inr (EndToken, s)
         else if 0 < sint token
         then bindE (check_literal_token_len token) (\<lambda>_. Inr (LiteralPending (nat (sint token)), s))
         else Inr (BlockRef (nat (- (sint token + 1))), s))"

record TokenBuffer =
  tb_data :: bytes
  tb_len :: nat

definition tb_new :: TokenBuffer where
  "tb_new = \<lparr>tb_data = [], tb_len = 0\<rparr>"

definition resize_for :: "nat \<Rightarrow> TokenBuffer \<Rightarrow> TokenBuffer" where
  "resize_for n b =
    \<lparr>tb_data = (if length (tb_data b) < n then tb_data b @ replicate (n - length (tb_data b)) 0 else tb_data b),
     tb_len = n\<rparr>"

definition tb_as_slice :: "TokenBuffer \<Rightarrow> bytes" where
  "tb_as_slice b = take (tb_len b) (tb_data b)"

definition tb_fill :: "bytes \<Rightarrow> TokenBuffer \<Rightarrow> TokenBuffer" where
  "tb_fill data b = b\<lparr>tb_data := copy_at 0 data (tb_data b)\<rparr>"

section \<open>The applicator\<close>

datatype SameFsCache = SameFsUnresolved | SameFs | DifferentFs
datatype ReflinkRangeCache = ReflinkUnresolved | ReflinkSupported | ReflinkDeclined
datatype BasisWriterKind = StandardWriter | IoUringWriter
datatype CowPolicy = CowAuto | CowRequired | CowDisabled

record DeltaApplyConfig =
  dac_sparse :: bool
  dac_writer_kind :: BasisWriterKind
  dac_cow_policy :: CowPolicy

record DeltaApplyResult =
  bytes_written :: nat
  literal_bytes :: nat
  matched_bytes :: nat
  literal_tokens :: nat
  block_tokens :: nat
  final_pos :: "nat option"

record DeltaApplicator =
  da_output :: out_file
  da_sparse_state :: "SparseWriteState option"
  da_checksum_verifier :: ChecksumVerifier
  da_basis_signature :: "FileSignature option"
  da_basis_map :: "AdaptiveMapStrategy option"
  da_token_buffer :: TokenBuffer
  da_same_fs :: SameFsCache
  da_reflink_range :: ReflinkRangeCache
  da_cow_policy :: CowPolicy
  da_stats :: DeltaApplyResult

definition da_new ::
  "out_file \<Rightarrow> DeltaApplyConfig \<Rightarrow> ChecksumVerifier \<Rightarrow> FileSignature option \<Rightarrow> bytes option \<Rightarrow> DeltaApplicator" where
  "da_new output config verifier sig basis =
    \<lparr>da_output = output,
     da_sparse_state = (if dac_sparse config then Some sparse_new else None),
     da_checksum_verifier = verifier,
     da_basis_signature = sig,
     da_basis_map = map_option (\<lambda>fl. if dac_writer_kind config = IoUringWriter then adaptive_open_buffered fl else adaptive_open fl) basis,
     da_token_buffer = tb_new,
     da_same_fs = SameFsUnresolved,
     da_reflink_range = ReflinkUnresolved,
     da_cow_policy = dac_cow_policy config,
     da_stats = \<lparr>bytes_written = 0, literal_bytes = 0, matched_bytes = 0, literal_tokens = 0, block_tokens = 0, final_pos = None\<rparr>\<rparr>"

text \<open>Hashing and writing one piece, common to literals and blocks.\<close>

definition emit :: "bytes \<Rightarrow> DeltaApplicator \<Rightarrow> DeltaApplicator io_result" where
  "emit data a =
    (let a = a\<lparr>da_checksum_verifier := cv_update data (da_checksum_verifier a)\<rparr>
     in case da_sparse_state a of
          Some sparse \<Rightarrow> bindE (sparse_write data sparse (da_output a)) (\<lambda>(sparse, output, _).
            Inr (a\<lparr>da_sparse_state := Some sparse, da_output := output\<rparr>))
        | None \<Rightarrow> Inr (a\<lparr>da_output := of_write data (da_output a)\<rparr>))"

definition count_literal :: "nat \<Rightarrow> DeltaApplyResult \<Rightarrow> DeltaApplyResult" where
  "count_literal n st =
    st\<lparr>bytes_written := bytes_written st + n, literal_bytes := literal_bytes st + n, literal_tokens := literal_tokens st + 1\<rparr>"

definition count_block :: "nat \<Rightarrow> DeltaApplyResult \<Rightarrow> DeltaApplyResult" where
  "count_block n st =
    st\<lparr>bytes_written := bytes_written st + n, matched_bytes := matched_bytes st + n, block_tokens := block_tokens st + 1\<rparr>"

definition apply_literal :: "bytes \<Rightarrow> DeltaApplicator \<Rightarrow> DeltaApplicator io_result" where
  "apply_literal data a =
    bindE (emit data a) (\<lambda>a. Inr (a\<lparr>da_stats := count_literal (length data) (da_stats a)\<rparr>))"

definition apply_literal_from_buffer :: "nat \<Rightarrow> DeltaApplicator \<Rightarrow> DeltaApplicator io_result" where
  "apply_literal_from_buffer len a =
    (let data = take len (tb_as_slice (da_token_buffer a))
     in bindE (emit data a) (\<lambda>a. Inr (a\<lparr>da_stats := count_literal len (da_stats a)\<rparr>)))"

text \<open>The kernel's copies: whether the two files share a device, whether a range is cloned, and how many bytes
  of a range \<open>copy_file_range\<close> copies.\<close>

record kernel_copy =
  kc_same_fs :: bool
  kc_clone :: "nat \<Rightarrow> nat \<Rightarrow> nat \<Rightarrow> bool"
  kc_copy :: "nat \<Rightarrow> nat \<Rightarrow> nat \<Rightarrow> nat"

definition COPY_BASIS_RANGE_MIN_BYTES :: nat where "COPY_BASIS_RANGE_MIN_BYTES = 4 * 1024"
definition CLONE_FILE_RANGE_MIN_BYTES :: nat where "CLONE_FILE_RANGE_MIN_BYTES = 16 * 1024"
definition REFLINK_BLOCK_ALIGNMENT :: nat where "REFLINK_BLOCK_ALIGNMENT = 4096"

definition should_try_kernel_copy :: "ChecksumVerifier \<Rightarrow> SparseWriteState option \<Rightarrow> nat \<Rightarrow> bool" where
  "should_try_kernel_copy verifier sparse bytes_to_copy =
    (if \<not> cv_is_noop verifier then False
     else if sparse \<noteq> None then False
     else COPY_BASIS_RANGE_MIN_BYTES \<le> bytes_to_copy)"

definition resolve_same_fs :: "kernel_copy \<Rightarrow> SameFsCache" where
  "resolve_same_fs K = (if kc_same_fs K then SameFs else DifferentFs)"

definition try_clone_basis_range ::
  "kernel_copy \<Rightarrow> nat \<Rightarrow> nat \<Rightarrow> nat \<Rightarrow> DeltaApplicator \<Rightarrow> DeltaApplicator \<times> bool" where
  "try_clone_basis_range K basis_off dest_off bytes_to_copy a =
    (if da_cow_policy a = CowDisabled then (a, False)
     else if da_reflink_range a = ReflinkDeclined then (a, False)
     else if bytes_to_copy < CLONE_FILE_RANGE_MIN_BYTES then (a, False)
     else if basis_off mod REFLINK_BLOCK_ALIGNMENT \<noteq> 0 \<or> dest_off mod REFLINK_BLOCK_ALIGNMENT \<noteq> 0 \<or>
             bytes_to_copy mod REFLINK_BLOCK_ALIGNMENT \<noteq> 0 then (a, False)
     else let a = (if da_same_fs a = SameFsUnresolved then a\<lparr>da_same_fs := resolve_same_fs K\<rparr> else a)
          in if da_same_fs a = DifferentFs then (a, False)
             else let cloned = kc_clone K basis_off dest_off bytes_to_copy
                  in (a\<lparr>da_reflink_range := (if cloned then ReflinkSupported else ReflinkDeclined)\<rparr>, cloned))"

definition try_copy_basis_range ::
  "kernel_copy \<Rightarrow> nat \<Rightarrow> nat \<Rightarrow> nat \<Rightarrow> DeltaApplicator \<Rightarrow> DeltaApplicator \<times> nat" where
  "try_copy_basis_range K basis_off dest_off bytes_to_copy a =
    (let a = (if da_same_fs a = SameFsUnresolved then a\<lparr>da_same_fs := resolve_same_fs K\<rparr> else a)
     in if da_same_fs a = DifferentFs then (a, 0) else (a, kc_copy K basis_off dest_off bytes_to_copy))"

text \<open>The kernel writes at an offset and leaves the position of the file alone.\<close>

definition of_write_at :: "nat \<Rightarrow> bytes \<Rightarrow> out_file \<Rightarrow> out_file" where
  "of_write_at off bs f = (of_write bs (f\<lparr>of_pos := off\<rparr>))\<lparr>of_pos := of_pos f\<rparr>"

definition buffered_basis_file :: "AdaptiveMapStrategy \<Rightarrow> bytes option" where
  "buffered_basis_file s = (case s of Buffered b \<Rightarrow> Some (bm_file b) | Mmap _ \<Rightarrow> None)"

definition kernel_block ::
  "kernel_copy \<Rightarrow> bytes \<Rightarrow> nat \<Rightarrow> nat \<Rightarrow> DeltaApplicator \<Rightarrow> DeltaApplicator \<times> bool" where
  "kernel_block K basis_file offset bytes_to_copy a =
    (let dest_off = bytes_written (da_stats a);
         done = (\<lambda>a. a\<lparr>da_output := (da_output a)\<lparr>of_pos := dest_off + bytes_to_copy\<rparr>,
                       da_stats := count_block bytes_to_copy (da_stats a)\<rparr>);
         (a, cloned) = try_clone_basis_range K offset dest_off bytes_to_copy a
     in if cloned
        then (done (a\<lparr>da_output := of_write_at dest_off (take bytes_to_copy (drop offset basis_file)) (da_output a)\<rparr>), True)
        else let (a, dispatched) = try_copy_basis_range K offset dest_off bytes_to_copy a;
                 a = a\<lparr>da_output := of_write_at dest_off (take dispatched (drop offset basis_file)) (da_output a)\<rparr>
             in if dispatched = bytes_to_copy then (done a, True) else (a, False))"

definition try_kernel_block ::
  "kernel_copy \<Rightarrow> AdaptiveMapStrategy \<Rightarrow> nat \<Rightarrow> nat \<Rightarrow> DeltaApplicator \<Rightarrow> DeltaApplicator \<times> bool" where
  "try_kernel_block K bmap offset bytes_to_copy a =
    (if should_try_kernel_copy (da_checksum_verifier a) (da_sparse_state a) bytes_to_copy
     then case buffered_basis_file bmap of
            Some basis_file \<Rightarrow> kernel_block K basis_file offset bytes_to_copy a
          | None \<Rightarrow> (a, False)
     else (a, False))"

definition block_ref_len :: "SignatureLayout \<Rightarrow> nat \<Rightarrow> nat" where
  "block_ref_len layout block_idx =
    (if block_idx = unat (sl_block_count layout) - 1
     then if 0 < sl_remainder layout then unat (sl_remainder layout) else unat (sl_block_length layout)
     else unat (sl_block_length layout))"

definition apply_block_ref :: "kernel_copy \<Rightarrow> nat \<Rightarrow> DeltaApplicator \<Rightarrow> DeltaApplicator io_result" where
  "apply_block_ref K block_idx a =
    (case (da_basis_signature a, da_basis_map a) of
       (Some sig, Some bmap) \<Rightarrow>
         let layout = fs_layout sig;
             offset = block_idx * unat (sl_block_length layout);
             bytes_to_copy = block_ref_len layout block_idx
         in if unat (sl_block_count layout) \<le> block_idx then Inl InvalidData
            else let (a, copied) = try_kernel_block K bmap offset bytes_to_copy a
                 in if copied then Inr a
                    else (case adaptive_map_ptr bmap offset bytes_to_copy of
                           (_, Inl e) \<Rightarrow> Inl e
                         | (bmap, Inr block_data) \<Rightarrow>
                             bindE (emit block_data (a\<lparr>da_basis_map := Some bmap\<rparr>)) (\<lambda>a.
                               Inr (a\<lparr>da_stats := count_block bytes_to_copy (da_stats a)\<rparr>)))
     | _ \<Rightarrow> Inl InvalidData)"

definition apply_recv_token :: "kernel_copy \<Rightarrow> bytes \<Rightarrow> DeltaApplicator \<Rightarrow> (DeltaApplicator \<times> bool) read_result" where
  "apply_recv_token K s a =
    bindE (recv_token s) (\<lambda>(token, s).
      case token of
        EndToken \<Rightarrow> Inr ((a, False), s)
      | LiteralPending len \<Rightarrow>
          let buffer = resize_for len (da_token_buffer a)
          in bindE (read_exact (tb_len buffer) s) (\<lambda>(data, s).
               let a = a\<lparr>da_token_buffer := tb_fill data buffer\<rparr>
               in bindE (apply_literal_from_buffer (tb_len (da_token_buffer a)) a) (\<lambda>a. Inr ((a, True), s)))
      | BlockRef block_idx \<Rightarrow> bindE (apply_block_ref K block_idx a) (\<lambda>a. Inr ((a, True), s)))"

lemma recv_token_shrinks: "recv_token s = Inr (t, s') \<Longrightarrow> length s' < length s"
  by (auto simp: recv_token_def read_exact_def Let_def bindE_eq_Inr split: if_splits)

lemma apply_recv_token_shrinks:
  assumes "apply_recv_token K s a = Inr ((a', again), s')"
  shows "length s' < length s"
proof -
  obtain t s1 where t: "recv_token s = Inr (t, s1)" using assms by (auto simp: apply_recv_token_def bindE_eq_Inr)
  then show ?thesis
    using assms recv_token_shrinks [OF t]
    by (cases t) (auto simp: apply_recv_token_def bindE_eq_Inr read_exact_def Let_def split: if_splits)
qed

function apply_delta_stream :: "kernel_copy \<Rightarrow> bytes \<Rightarrow> DeltaApplicator \<Rightarrow> DeltaApplicator read_result" where
  "apply_delta_stream K s a =
    (case apply_recv_token K s a of
       Inl e \<Rightarrow> Inl e
     | Inr ((a, again), s) \<Rightarrow> if again then apply_delta_stream K s a else Inr (a, s))"
  by auto
termination by (relation "measure (\<lambda>(K, s, a). length s)") (auto dest: apply_recv_token_shrinks)

declare apply_delta_stream.simps [simp del]

definition da_finish ::
  "hash_crates \<Rightarrow> (fallocate_mode \<Rightarrow> nat \<Rightarrow> nat \<Rightarrow> bool) \<Rightarrow> bytes \<Rightarrow> nat option \<Rightarrow> DeltaApplicator \<Rightarrow> (out_file \<times> DeltaApplyResult) read_result" where
  "da_finish H fallocates s expected_size a =
    bindE (case da_sparse_state a of
             Some sparse \<Rightarrow>
               bindE (sparse_end fallocates sparse (da_output a)) (\<lambda>(output, pos).
                 let a = a\<lparr>da_output := output, da_stats := (da_stats a)\<lparr>final_pos := Some pos\<rparr>\<rparr>
                 in case expected_size of
                      Some expected \<Rightarrow> if pos \<noteq> expected then Inl InvalidData else Inr a
                    | None \<Rightarrow> Inr a)
           | None \<Rightarrow> Inr a)
      (\<lambda>a. bindE (read_exact (cv_digest_len (da_checksum_verifier a)) s) (\<lambda>(expected, s).
         if finalize_into H (da_checksum_verifier a) \<noteq> expected then Inl InvalidData
         else Inr ((da_output a, da_stats a), s)))"

function discard_tokens :: "bytes \<Rightarrow> unit read_result" where
  "discard_tokens s =
    (case recv_token s of
       Inl e \<Rightarrow> Inl e
     | Inr (EndToken, s) \<Rightarrow> Inr ((), s)
     | Inr (LiteralPending len, s) \<Rightarrow>
         (case read_exact len s of Inl e \<Rightarrow> Inl e | Inr (_, s) \<Rightarrow> discard_tokens s)
     | Inr (BlockRef _, s) \<Rightarrow> discard_tokens s)"
  by pat_completeness auto
termination by (relation "measure length") (auto simp: read_exact_def dest!: recv_token_shrinks split: if_splits)

declare discard_tokens.simps [simp del]

definition discard_delta_stream :: "nat \<Rightarrow> bytes \<Rightarrow> unit read_result" where
  "discard_delta_stream checksum_len s =
    bindE (discard_tokens s) (\<lambda>(_, s). bindE (read_exact checksum_len s) (\<lambda>(_, s). Inr ((), s)))"

section \<open>What the applicator has written\<close>

lemma cv_update_simps [simp]:
  "cv_update [] v = v" "cv_update bs (cv_update as v) = cv_update (as @ bs) v"
  "cv_digest_len (cv_update bs v) = cv_digest_len v" "cv_is_noop (cv_update bs v) = cv_is_noop v"
  by (cases v; simp add: cv_update_def cv_digest_len_def cv_is_noop_def)+

text \<open>The receiver's inputs: a basis with its own signature, whose blocks fit the window; or neither.\<close>

definition recv_setup :: "(FileSignature \<times> bytes) option \<Rightarrow> bool" where
  "recv_setup sb =
    (case sb of None \<Rightarrow> True
     | Some (sig, basis) \<Rightarrow> layout_fits (fs_layout sig) (length basis) \<and> length basis < 2 ^ 63 \<and>
         unat (sl_block_length (fs_layout sig)) \<le> 2 ^ 17)"

definition kernel_ok :: "kernel_copy \<Rightarrow> bool" where
  "kernel_ok K = (\<forall>basis_off dest_off n. kc_copy K basis_off dest_off n \<le> n)"

text \<open>\<open>app_core\<close>: the applicator has written \<open>d\<close>; \<open>app_inv\<close>: and counted it.\<close>

definition app_core :: "(FileSignature \<times> bytes) option \<Rightarrow> ChecksumVerifier \<Rightarrow> bytes \<Rightarrow> DeltaApplicator \<Rightarrow> bool" where
  "app_core sb v d a =
    (da_basis_signature a = map_option fst sb \<and>
     (case sb of None \<Rightarrow> True | Some (sig, basis) \<Rightarrow> \<exists>s. da_basis_map a = Some s \<and> adaptive_inv basis s) \<and>
     da_checksum_verifier a = cv_update d v \<and>
     (case da_sparse_state a of
        None \<Rightarrow> da_output a = \<lparr>of_bytes = d, of_pos = length d\<rparr>
      | Some sparse \<Rightarrow> sparse_inv 0 0 d sparse (da_output a)))"

definition app_inv :: "(FileSignature \<times> bytes) option \<Rightarrow> ChecksumVerifier \<Rightarrow> bytes \<Rightarrow> DeltaApplicator \<Rightarrow> bool" where
  "app_inv sb v d a =
    (app_core sb v d a \<and> bytes_written (da_stats a) = length d \<and>
     literal_bytes (da_stats a) + matched_bytes (da_stats a) = length d)"

lemma app_core_update [simp]:
  "app_core sb v d (a\<lparr>da_stats := st\<rparr>) = app_core sb v d a"
  "app_core sb v d (a\<lparr>da_token_buffer := buf\<rparr>) = app_core sb v d a"
  "app_core sb v d (a\<lparr>da_same_fs := sf\<rparr>) = app_core sb v d a"
  "app_core sb v d (a\<lparr>da_reflink_range := rr\<rparr>) = app_core sb v d a"
  by (simp_all add: app_core_def split: option.splits)

lemma app_inv_update [simp]: "app_inv sb v d (a\<lparr>da_token_buffer := buf\<rparr>) = app_inv sb v d a"
  by (simp add: app_inv_def)

lemma da_new_inv:
  assumes "recv_setup sb"
  shows "app_inv sb v [] (da_new \<lparr>of_bytes = [], of_pos = 0\<rparr> config v (map_option fst sb) (map_option snd sb))"
proof -
  have "adaptive_inv basis (if dac_writer_kind config = IoUringWriter then adaptive_open_buffered basis else adaptive_open basis)"
    if "sb = Some (sig, basis)" for sig basis
    using assms that adaptive_open_inv(1) [of basis MMAP_THRESHOLD] adaptive_open_inv(2) [of basis] by (simp add: recv_setup_def adaptive_open_def)
  moreover have "sparse_inv 0 0 [] sparse_new \<lparr>of_bytes = [], of_pos = 0\<rparr>"
    using sparse_inv_start [of "[]" 0] by (simp add: set_preallocated_len_def sparse_new_def)
  ultimately show ?thesis by (auto simp: app_inv_def app_core_def da_new_def split: option.splits)
qed

lemma of_write_end [simp]: "of_write bs \<lparr>of_bytes = d, of_pos = length d\<rparr> = \<lparr>of_bytes = d @ bs, of_pos = length (d @ bs)\<rparr>"
  by (simp add: of_write_def)

lemma emit_core:
  assumes "app_core sb v d a" "length d + length bs \<le> I64_MAX"
  shows "\<exists>a'. emit bs a = Inr a' \<and> app_core sb v (d @ bs) a' \<and> da_stats a' = da_stats a"
proof (cases "da_sparse_state a")
  case None
  then show ?thesis using assms by (auto simp: emit_def app_core_def split: option.splits)
next
  case (Some sparse)
  then obtain st' f' where "sparse_write bs sparse (da_output a) = Inr (st', f', length bs)" "sparse_inv 0 0 (d @ bs) st' f'"
    using assms sparse_write_inv [of 0 0 d sparse "da_output a" bs] by (auto simp: app_core_def)
  then show ?thesis using assms Some by (auto simp: emit_def app_core_def split: option.splits)
qed

lemma literal_inv:
  assumes "app_inv sb v d a" "length d + length bs \<le> I64_MAX"
  shows "\<exists>a'. apply_literal bs a = Inr a' \<and> app_inv sb v (d @ bs) a'"
    and "length bs = n \<Longrightarrow> tb_as_slice (da_token_buffer a) = bs \<Longrightarrow>
      \<exists>a'. apply_literal_from_buffer n a = Inr a' \<and> app_inv sb v (d @ bs) a'"
proof -
  obtain a' where "emit bs a = Inr a'" "app_core sb v (d @ bs) a'" "da_stats a' = da_stats a"
    using emit_core assms unfolding app_inv_def by blast
  then show "\<exists>a'. apply_literal bs a = Inr a' \<and> app_inv sb v (d @ bs) a'"
    and "length bs = n \<Longrightarrow> tb_as_slice (da_token_buffer a) = bs \<Longrightarrow>
      \<exists>a'. apply_literal_from_buffer n a = Inr a' \<and> app_inv sb v (d @ bs) a'"
    using assms(1) by (auto simp: apply_literal_def apply_literal_from_buffer_def app_inv_def count_literal_def)
qed

text \<open>The block a reference names, also the short last one.\<close>

lemma block_ref_chunk:
  assumes "layout_fits l (length basis)" "i < unat (sl_block_count l)"
  shows "take (block_ref_len l i) (drop (i * unat (sl_block_length l)) basis) = block_chunk l basis i"
    and "i * unat (sl_block_length l) + block_ref_len l i \<le> length basis" "block_ref_len l i \<le> unat (sl_block_length l)"
    and "length (block_chunk l basis i) = block_ref_len l i"
proof -
  define b c r where v: "b = unat (sl_block_length l)" "c = unat (sl_block_count l)" "r = unat (sl_remainder l)"
  have l: "0 < b" "r < b" "length basis = (if r = 0 then c * b else (c - 1) * b + r)" "i < c"
    using assms by (auto simp: layout_fits_def Let_def v)
  have "0 < sl_remainder l \<longleftrightarrow> 0 < r" by (simp add: v word_less_nat_alt)
  then have n: "block_ref_len l i = (if i = c - 1 \<and> 0 < r then r else b)" by (simp add: block_ref_len_def v)
  have le: "i * b + b \<le> length basis" if "\<not> (i = c - 1 \<and> 0 < r)"
  proof (cases "r = 0")
    case True
    then show ?thesis using l(3,4) mult_le_mono1 [of "Suc i" c b] by simp
  next
    case False
    then have "Suc i \<le> c - 1" using that l(4) by simp
    then show ?thesis using l(3) mult_le_mono1 [of "Suc i" "c - 1" b] False by simp
  qed
  have last: "length basis = i * b + r" if "i = c - 1" "0 < r" using l(3) that by simp
  have bl: "unat (sl_block_length l) = b" by (simp add: v)
  consider "i = c - 1" "0 < r" | "\<not> (i = c - 1 \<and> 0 < r)" by blast
  then have "i * b + block_ref_len l i \<le> length basis \<and> block_ref_len l i \<le> b \<and>
    take (block_ref_len l i) (drop (i * b) basis) = take b (drop (i * b) basis) \<and>
    length (take b (drop (i * b) basis)) = block_ref_len l i"
  proof cases
    case 1
    then show ?thesis using last n l(2) by simp
  next
    case 2
    then have "block_ref_len l i = b" using n by argo
    then show ?thesis using le [OF 2] by simp
  qed
  then show "take (block_ref_len l i) (drop (i * unat (sl_block_length l)) basis) = block_chunk l basis i"
    "i * unat (sl_block_length l) + block_ref_len l i \<le> length basis" "block_ref_len l i \<le> unat (sl_block_length l)"
    "length (block_chunk l basis i) = block_ref_len l i"
    unfolding block_chunk_def bl by blast+
qed

lemma adaptive_inv_file: "adaptive_inv basis s \<Longrightarrow> buffered_basis_file s = Some bf \<Longrightarrow> bf = basis"
  by (auto simp: buffered_basis_file_def bm_inv_def split: AdaptiveMapStrategy.splits)

lemma block_servable: "n \<le> 2 ^ 17 \<Longrightarrow> offset mod 1024 + n \<le> MAX_MAP_SIZE"
  using mod_less_divisor [of 1024 offset] by (simp add: MAX_MAP_SIZE_def)

text \<open>The kernel path: the output is as if the block had been written, or a prefix of the block was
  copied and the position not moved.\<close>

lemma of_write_at_end:
  "of_write_at (length d) bs \<lparr>of_bytes = d, of_pos = length d\<rparr> = \<lparr>of_bytes = d @ bs, of_pos = length d\<rparr>"
  by (simp add: of_write_at_def of_write_def)

lemma of_write_over:
  "length xs \<le> length bs \<Longrightarrow> of_write bs \<lparr>of_bytes = d @ xs, of_pos = length d\<rparr> = \<lparr>of_bytes = d @ bs, of_pos = length (d @ bs)\<rparr>"
  by (auto simp: of_write_def)

lemma kernel_block_cases:
  assumes "kernel_block K basis offset n a = (a', copied)" "kernel_ok K" "da_output a = \<lparr>of_bytes = d, of_pos = length d\<rparr>"
    "bytes_written (da_stats a) = length d" "offset + n \<le> length basis"
  shows "da_checksum_verifier a' = da_checksum_verifier a \<and> da_sparse_state a' = da_sparse_state a \<and>
    da_basis_signature a' = da_basis_signature a \<and> da_basis_map a' = da_basis_map a \<and>
    (if copied then da_output a' = \<lparr>of_bytes = d @ take n (drop offset basis), of_pos = length d + n\<rparr> \<and>
         da_stats a' = count_block n (da_stats a)
     else \<exists>k \<le> n. da_output a' = \<lparr>of_bytes = d @ take k (drop offset basis), of_pos = length d\<rparr> \<and> da_stats a' = da_stats a)"
proof -
  obtain a1 cloned where c: "try_clone_basis_range K offset (length d) n a = (a1, cloned)" by (cases "try_clone_basis_range K offset (length d) n a")
  have a1: "da_checksum_verifier a1 = da_checksum_verifier a" "da_sparse_state a1 = da_sparse_state a" "da_stats a1 = da_stats a"
    "da_basis_signature a1 = da_basis_signature a" "da_basis_map a1 = da_basis_map a" "da_output a1 = da_output a"
    using c by (auto simp: try_clone_basis_range_def Let_def split: if_splits)
  obtain a2 k where k: "try_copy_basis_range K offset (length d) n a1 = (a2, k)" by (cases "try_copy_basis_range K offset (length d) n a1")
  have a2: "da_checksum_verifier a2 = da_checksum_verifier a" "da_sparse_state a2 = da_sparse_state a" "da_stats a2 = da_stats a"
    "da_basis_signature a2 = da_basis_signature a" "da_basis_map a2 = da_basis_map a" "da_output a2 = da_output a" "k \<le> n"
    using k a1 assms(2) by (auto simp: try_copy_basis_range_def Let_def kernel_ok_def split: if_splits)
  show ?thesis
  proof (cases cloned)
    case True
    then show ?thesis using assms(1,3,4) c a1 of_write_at_end [of d "take n (drop offset basis)"]
      by (auto simp: kernel_block_def)
  next
    case False
    then have "a' = (let a = a2\<lparr>da_output := of_write_at (length d) (take k (drop offset basis)) (da_output a2)\<rparr> in
        if k = n then a\<lparr>da_output := (da_output a)\<lparr>of_pos := length d + n\<rparr>, da_stats := count_block n (da_stats a)\<rparr> else a)"
      "copied = (k = n)"
      using assms(1,4) c k by (auto simp: kernel_block_def Let_def split: if_splits)
    then show ?thesis using a2 assms(3) of_write_at_end [of d "take k (drop offset basis)"] by (auto simp: Let_def)
  qed
qed

lemma cv_noop: "cv_is_noop v \<Longrightarrow> cv_update bs v = v"
  by (simp add: cv_is_noop_def cv_update_def)

lemma block_finish:
  assumes rs: "recv_setup (Some (sig, basis))" and i: "i < unat (sl_block_count (fs_layout sig))"
    and a: "da_basis_signature a = Some sig" "da_basis_map a = Some s" "adaptive_inv basis s"
      "da_checksum_verifier a = cv_update d v" "bytes_written (da_stats a) = length d"
      "literal_bytes (da_stats a) + matched_bytes (da_stats a) = length d"
    and out: "case da_sparse_state a of Some sparse \<Rightarrow> sparse_inv 0 0 d sparse (da_output a)
      | None \<Rightarrow> \<exists>k \<le> n. da_output a = \<lparr>of_bytes = d @ take k (drop offset basis), of_pos = length d\<rparr>"
    and n: "offset = i * unat (sl_block_length (fs_layout sig))" "n = block_ref_len (fs_layout sig) i"
    and small: "length d + 2 ^ 17 \<le> I64_MAX"
  shows "\<exists>s' a'. adaptive_map_ptr s offset n = (s', Inr (take n (drop offset basis))) \<and>
    emit (take n (drop offset basis)) (a\<lparr>da_basis_map := Some s'\<rparr>) = Inr a' \<and>
    app_inv (Some (sig, basis)) v (d @ block_chunk (fs_layout sig) basis i) (a'\<lparr>da_stats := count_block n (da_stats a')\<rparr>)"
proof -
  have l: "layout_fits (fs_layout sig) (length basis)" "unat (sl_block_length (fs_layout sig)) \<le> 2 ^ 17"
    using rs by (simp_all add: recv_setup_def)
  note c = block_ref_chunk [OF l(1) i, folded n]
  have "n \<le> 2 ^ 17" using c(3) l(2) by simp
  then obtain s' where s': "adaptive_map_ptr s offset n = (s', Inr (take n (drop offset basis)))"
    using adaptive.serves [OF a(3) block_servable c(2)] by blast
  then have inv': "adaptive_inv basis s'" by (rule adaptive.inv_ptr [OF a(3)])
  let ?bs = "take n (drop offset basis)"
  have len: "length ?bs = n" using c(1,4) by simp
  then have le: "length d + length ?bs \<le> I64_MAX" using small \<open>n \<le> 2 ^ 17\<close> by simp
  have "\<exists>a'. emit ?bs (a\<lparr>da_basis_map := Some s'\<rparr>) = Inr a' \<and> app_core (Some (sig, basis)) v (d @ ?bs) a' \<and> da_stats a' = da_stats a"
  proof (cases "da_sparse_state a")
    case None
    then obtain k where k: "k \<le> n" "da_output a = \<lparr>of_bytes = d @ take k (drop offset basis), of_pos = length d\<rparr>" using out by auto
    then have "length (take k (drop offset basis)) \<le> length ?bs" by simp
    note of_write_over [OF this, of d]
    then show ?thesis using None k(2) a inv' by (simp add: emit_def app_core_def)
  next
    case (Some sparse)
    then have "app_core (Some (sig, basis)) v d (a\<lparr>da_basis_map := Some s'\<rparr>)" using out a inv' by (simp add: app_core_def)
    then show ?thesis using emit_core [OF _ le] by fastforce
  qed
  then obtain a' where a': "emit ?bs (a\<lparr>da_basis_map := Some s'\<rparr>) = Inr a'" "app_core (Some (sig, basis)) v (d @ ?bs) a'"
    "da_stats a' = da_stats a" by blast
  have "app_inv (Some (sig, basis)) v (d @ block_chunk (fs_layout sig) basis i) (a'\<lparr>da_stats := count_block n (da_stats a')\<rparr>)"
    using a'(2,3) a(5,6) len c(1) by (simp add: app_inv_def count_block_def)
  then show ?thesis using s' a'(1) by blast
qed

lemma block_ref_inv:
  assumes inv: "app_inv (Some (sig, basis)) v d a" and rs: "recv_setup (Some (sig, basis))" and K: "kernel_ok K"
    and small: "length d + 2 ^ 17 \<le> I64_MAX"
  shows "if i < unat (sl_block_count (fs_layout sig))
    then \<exists>a'. apply_block_ref K i a = Inr a' \<and> app_inv (Some (sig, basis)) v (d @ block_chunk (fs_layout sig) basis i) a'
    else apply_block_ref K i a = Inl InvalidData"
proof (cases "i < unat (sl_block_count (fs_layout sig))")
  case i: True
  define offset n where n: "offset = i * unat (sl_block_length (fs_layout sig))" "n = block_ref_len (fs_layout sig) i"
  obtain s where a: "da_basis_signature a = Some sig" "da_basis_map a = Some s" "adaptive_inv basis s"
      "da_checksum_verifier a = cv_update d v" "bytes_written (da_stats a) = length d"
      "literal_bytes (da_stats a) + matched_bytes (da_stats a) = length d"
    using inv by (auto simp: app_inv_def app_core_def)
  have out: "case da_sparse_state a of Some sparse \<Rightarrow> sparse_inv 0 0 d sparse (da_output a)
      | None \<Rightarrow> da_output a = \<lparr>of_bytes = d, of_pos = length d\<rparr>"
    using inv by (auto simp: app_inv_def app_core_def split: option.splits)
  have l: "layout_fits (fs_layout sig) (length basis)" using rs by (simp add: recv_setup_def)
  note c = block_ref_chunk [OF l i, folded n]
  obtain a1 copied where r: "try_kernel_block K s offset n a = (a1, copied)" by fastforce
  have plain: ?thesis if h: "\<not> copied"
    "da_basis_signature a1 = Some sig" "da_basis_map a1 = Some s"
      "da_checksum_verifier a1 = cv_update d v" "da_stats a1 = da_stats a"
      "case da_sparse_state a1 of Some sparse \<Rightarrow> sparse_inv 0 0 d sparse (da_output a1)
      | None \<Rightarrow> \<exists>k \<le> n. da_output a1 = \<lparr>of_bytes = d @ take k (drop offset basis), of_pos = length d\<rparr>"
  proof -
    obtain s' a' where "adaptive_map_ptr s offset n = (s', Inr (take n (drop offset basis)))"
      "emit (take n (drop offset basis)) (a1\<lparr>da_basis_map := Some s'\<rparr>) = Inr a'"
      "app_inv (Some (sig, basis)) v (d @ block_chunk (fs_layout sig) basis i) (a'\<lparr>da_stats := count_block n (da_stats a')\<rparr>)"
      using block_finish [OF rs i h(2,3) a(3) h(4) _ _ h(6) n small] h(5) a(5,6) by auto
    then show ?thesis using i a(1,2) h(1) r by (simp add: apply_block_ref_def n [symmetric])
  qed
  show ?thesis
  proof (cases "should_try_kernel_copy (da_checksum_verifier a) (da_sparse_state a) n \<and> buffered_basis_file s \<noteq> None")
    case False
    then have a1: "a1 = a" "\<not> copied" using r by (auto simp: try_kernel_block_def split: if_splits)
    moreover have "case da_sparse_state a of Some sparse \<Rightarrow> sparse_inv 0 0 d sparse (da_output a)
      | None \<Rightarrow> \<exists>k \<le> n. da_output a = \<lparr>of_bytes = d @ take k (drop offset basis), of_pos = length d\<rparr>"
      using out by (cases "da_sparse_state a") (simp, metis append_Nil2 take0 zero_le, simp)
    ultimately show ?thesis using plain [unfolded a1(1)] a(1,2,4) by blast
  next
    case True
    then have "buffered_basis_file s = Some basis" using adaptive_inv_file [OF a(3)] by auto
    then have kb: "kernel_block K basis offset n a = (a1, copied)" using r True by (simp add: try_kernel_block_def)
    have v: "cv_is_noop v" "da_sparse_state a = None" using True a(4) by (auto simp: should_try_kernel_copy_def split: if_splits)
    then have o: "da_output a = \<lparr>of_bytes = d, of_pos = length d\<rparr>" using out by simp
    note k = kernel_block_cases [OF kb K o a(5) c(2)]
    show ?thesis
    proof (cases copied)
      case False
      then have k': "da_stats a1 = da_stats a" "\<exists>k \<le> n. da_output a1 = \<lparr>of_bytes = d @ take k (drop offset basis), of_pos = length d\<rparr>"
        "da_sparse_state a1 = None" "da_basis_signature a1 = Some sig" "da_basis_map a1 = Some s" "da_checksum_verifier a1 = cv_update d v"
        using k a v by auto
      then show ?thesis using False by (intro plain) simp_all
    next
      case copied: True
      have "app_inv (Some (sig, basis)) v (d @ block_chunk (fs_layout sig) basis i) a1"
        using k copied a v c(1,4) cv_noop [OF v(1)] by (simp add: app_inv_def app_core_def count_block_def)
      then show ?thesis using i a(1,2) r copied by (simp add: apply_block_ref_def n [symmetric])
    qed
  qed
next
  case False
  obtain s where "da_basis_signature a = Some sig" "da_basis_map a = Some s" using inv by (auto simp: app_inv_def app_core_def)
  then show ?thesis using False by (simp add: apply_block_ref_def)
qed

section \<open>The stream as a file\<close>

text \<open>What a token stream denotes, with nothing of how it is applied.\<close>

definition ref_bytes :: "(FileSignature \<times> bytes) option \<Rightarrow> nat \<Rightarrow> bytes option" where
  "ref_bytes sb i =
    (case sb of None \<Rightarrow> None
     | Some (sig, basis) \<Rightarrow> if i < unat (sl_block_count (fs_layout sig)) then Some (block_chunk (fs_layout sig) basis i) else None)"

function stream_output :: "(FileSignature \<times> bytes) option \<Rightarrow> bytes \<Rightarrow> bytes read_result" where
  "stream_output sb s =
    (case recv_token s of
       Inl e \<Rightarrow> Inl e
     | Inr (EndToken, s1) \<Rightarrow> Inr ([], s1)
     | Inr (LiteralPending n, s1) \<Rightarrow>
         (case read_exact n s1 of Inl e \<Rightarrow> Inl e
          | Inr (data, s2) \<Rightarrow> bindE (stream_output sb s2) (\<lambda>(out, s). Inr (data @ out, s)))
     | Inr (BlockRef i, s1) \<Rightarrow>
         (case ref_bytes sb i of None \<Rightarrow> Inl InvalidData
          | Some data \<Rightarrow> bindE (stream_output sb s1) (\<lambda>(out, s). Inr (data @ out, s))))"
  by pat_completeness auto
termination by (relation "measure (\<lambda>(sb, s). length s)") (auto simp: read_exact_def dest!: recv_token_shrinks split: if_splits)

declare stream_output.simps [simp del]

lemma recv_token_bounds:
  assumes "recv_token s = Inr (t, s1)"
  shows "length s = length s1 + 4" "t = LiteralPending n \<Longrightarrow> n \<le> 2 ^ 17"
  using assms
  by (auto simp: recv_token_def read_exact_def Let_def bindE_eq_Inr check_literal_token_len_def WIRE_CHUNK_SIZE_def split: if_splits)

lemma tb_fill_slice: "length data = n \<Longrightarrow> tb_as_slice (tb_fill data (resize_for n b)) = data" "tb_len (tb_fill data (resize_for n b)) = n"
  "tb_len (resize_for n b) = n"
  by (auto simp: tb_as_slice_def tb_fill_def resize_for_def copy_at_def)

text \<open>An upper bound of the file positions reached: the length of the output when the stream is well formed,
  and otherwise \<open>2^15\<close> times the length of the stream.\<close>

definition stream_bound :: "(FileSignature \<times> bytes) option \<Rightarrow> bytes \<Rightarrow> nat" where
  "stream_bound sb s = (case stream_output sb s of Inr (out, _) \<Rightarrow> length out | Inl _ \<Rightarrow> length s * 2 ^ 15) + 2 ^ 17"

lemma stream_bound_step:
  "stream_output sb s = bindE (stream_output sb s2) (\<lambda>(out, s). Inr (data @ out, s)) \<Longrightarrow> length s2 + 4 \<le> length s \<Longrightarrow>
    length data \<le> 2 ^ 17 \<Longrightarrow> length data + stream_bound sb s2 \<le> stream_bound sb s"
  by (auto simp: stream_bound_def split: sum.splits)

lemma apply_stream_refines:
  assumes "app_inv sb v d a" "recv_setup sb" "kernel_ok K" "length d + stream_bound sb s \<le> I64_MAX"
  shows "case stream_output sb s of
      Inl e \<Rightarrow> apply_delta_stream K s a = Inl e
    | Inr (out, rest) \<Rightarrow> \<exists>a'. apply_delta_stream K s a = Inr (a', rest) \<and> app_inv sb v (d @ out) a'"
  using assms
proof (induction "length s" arbitrary: s d a rule: less_induct)
  case less
  have step: "case stream_output sb s of
        Inl e \<Rightarrow> apply_delta_stream K s a = Inl e
      | Inr (out, rest) \<Rightarrow> \<exists>a'. apply_delta_stream K s a = Inr (a', rest) \<and> app_inv sb v (d @ out) a'"
    if t: "apply_recv_token K s a = Inr ((a1, True), s2)" "app_inv sb v (d @ data) a1" "length s2 + 4 \<le> length s" "length data \<le> 2 ^ 17"
      "stream_output sb s = bindE (stream_output sb s2) (\<lambda>(out, s). Inr (data @ out, s))" for a1 s2 data
  proof -
    have "length (d @ data) + stream_bound sb s2 \<le> I64_MAX" using less.prems(4) stream_bound_step [OF t(5,3,4)] by simp
    from less.hyps [OF _ t(2) less.prems(2,3) this] t(3)
    show ?thesis using t(1) unfolding t(5) by (auto simp: apply_delta_stream.simps [of K s a] split: sum.splits)
  qed
  show ?case
  proof (cases "recv_token s")
    case (Inl e)
    then show ?thesis by (simp add: stream_output.simps [of sb s] apply_delta_stream.simps [of K s a] apply_recv_token_def)
  next
    case (Inr ts)
    obtain t s1 where r: "recv_token s = Inr (t, s1)" using Inr by (cases ts) auto
    note b = recv_token_bounds [OF r]
    have small: "length d + 2 ^ 17 \<le> I64_MAX" using less.prems(4) by (simp add: stream_bound_def)
    show ?thesis
    proof (cases t)
      case EndToken
      then show ?thesis using r less.prems(1)
        by (simp add: stream_output.simps [of sb s] apply_delta_stream.simps [of K s a] apply_recv_token_def)
    next
      case (LiteralPending n)
      show ?thesis
      proof (cases "n \<le> length s1")
        case True
        let ?data = "take n s1" and ?a = "a\<lparr>da_token_buffer := tb_fill (take n s1) (resize_for n (da_token_buffer a))\<rparr>"
        have n: "length ?data = n" "n \<le> 2 ^ 17" using True b(2) LiteralPending by auto
        obtain a1 where a1: "apply_literal_from_buffer n ?a = Inr a1" "app_inv sb v (d @ ?data) a1"
          using literal_inv(2) [of sb v d ?a ?data n] less.prems(1) small n tb_fill_slice(1) [OF n(1)] by auto
        have "apply_recv_token K s a = Inr ((a1, True), drop n s1)"
          using r LiteralPending True a1(1) tb_fill_slice(2,3)
          by (simp add: apply_recv_token_def read_exact_def)
        then show ?thesis
          by (rule step [OF _ a1(2)]) (use n b(1) r LiteralPending True in \<open>simp_all add: stream_output.simps [of sb s] read_exact_def\<close>)
      next
        case False
        then show ?thesis using r LiteralPending
          by (simp add: stream_output.simps [of sb s] apply_delta_stream.simps [of K s a] apply_recv_token_def read_exact_def tb_fill_slice)
      qed
    next
      case (BlockRef i)
      show ?thesis
      proof (cases "ref_bytes sb i")
        case None
        then have "apply_block_ref K i a = Inl InvalidData"
          using block_ref_inv [of _ _ v d a K i] less.prems(1,2,3) small
          by (auto simp: ref_bytes_def apply_block_ref_def app_inv_def app_core_def split: option.splits if_splits)
        then show ?thesis using r BlockRef None
          by (simp add: stream_output.simps [of sb s] apply_delta_stream.simps [of K s a] apply_recv_token_def)
      next
        case (Some data)
        then obtain sig basis where sb: "sb = Some (sig, basis)" "i < unat (sl_block_count (fs_layout sig))"
          "data = block_chunk (fs_layout sig) basis i" by (auto simp: ref_bytes_def split: option.splits if_splits)
        have "length data \<le> 2 ^ 17" using less.prems(2) by (auto simp: sb(1,3) block_chunk_def recv_setup_def)
        moreover obtain a1 where a1: "apply_block_ref K i a = Inr a1" "app_inv sb v (d @ data) a1"
          using block_ref_inv [of sig basis v d a K i] less.prems(1,2,3) small sb by auto
        moreover have "apply_recv_token K s a = Inr ((a1, True), s1)" using r BlockRef a1(1) by (simp add: apply_recv_token_def)
        ultimately show ?thesis
          using b(1) r BlockRef Some by (intro step [of a1 s1 data]) (simp_all add: stream_output.simps [of sb s])
      qed
    qed
  qed
qed

text \<open>The per-file part of the receive loop in \<open>receiver/transfer/sync.rs\<close>, once the temporary file is
  open: a fresh verifier and applicator, the stream, the checksum, and the length of a sparse file.  When the
  temporary file cannot be opened, the stream is discarded.\<close>

definition receive_file ::
  "hash_crates \<Rightarrow> kernel_copy \<Rightarrow> (fallocate_mode \<Rightarrow> nat \<Rightarrow> nat \<Rightarrow> bool) \<Rightarrow> ChecksumAlgorithm option \<Rightarrow> nat \<Rightarrow> i32 \<Rightarrow> bool \<Rightarrow>
   (FileSignature \<times> bytes) option \<Rightarrow> nat \<Rightarrow> bytes \<Rightarrow> (out_file \<times> DeltaApplyResult) read_result" where
  "receive_file H K fallocates negotiated protocol seed use_sparse sb file_len s =
    (let file_verifier = cv_new negotiated protocol seed;
         config = \<lparr>dac_sparse = use_sparse, dac_writer_kind = StandardWriter, dac_cow_policy = CowAuto\<rparr>;
         applicator = da_new \<lparr>of_bytes = [], of_pos = 0\<rparr> config file_verifier (map_option fst sb) (map_option snd sb)
     in bindE (apply_delta_stream K s applicator) (\<lambda>(applicator, s).
          bindE (da_finish H fallocates s None applicator) (\<lambda>((file, result), s).
            case final_pos result of
              Some pos \<Rightarrow> if pos \<noteq> file_len then Inl InvalidData else Inr ((file, result), s)
            | None \<Rightarrow> Inr ((file, result), s))))"

definition discard_file :: "ChecksumAlgorithm option \<Rightarrow> nat \<Rightarrow> i32 \<Rightarrow> bytes \<Rightarrow> unit read_result" where
  "discard_file negotiated protocol seed s = discard_delta_stream (cv_digest_len (cv_new negotiated protocol seed)) s"

lemma da_finish_exact:
  assumes "app_inv sb v d a" "length d \<le> I64_MAX" "final_pos (da_stats a) = None"
  shows "case read_exact (cv_digest_len v) s of
      Inl e \<Rightarrow> da_finish H fallocates s None a = Inl e
    | Inr (expected, rest) \<Rightarrow>
        if finalize_into H (cv_update d v) \<noteq> expected then da_finish H fallocates s None a = Inl InvalidData
        else \<exists>f st. da_finish H fallocates s None a = Inr ((f, st), rest) \<and> of_bytes f = d \<and>
          bytes_written st = length d \<and> literal_bytes st + matched_bytes st = length d \<and>
          final_pos st = (if da_sparse_state a = None then None else Some (length d))"
proof -
  have v: "da_checksum_verifier a = cv_update d v" using assms(1) by (simp add: app_inv_def app_core_def)
  have st: "bytes_written (da_stats a) = length d" "literal_bytes (da_stats a) + matched_bytes (da_stats a) = length d"
    using assms(1) by (simp_all add: app_inv_def)
  show ?thesis
  proof (cases "da_sparse_state a")
    case None
    then have "of_bytes (da_output a) = d" using assms(1) by (simp add: app_inv_def app_core_def)
    then show ?thesis using None v st assms(3) by (auto simp: da_finish_def split: sum.splits)
  next
    case (Some sparse)
    then have "sparse_inv 0 0 d sparse (da_output a)" using assms(1) by (simp add: app_inv_def app_core_def)
    then obtain f where "sparse_end fallocates sparse (da_output a) = Inr (f, length d)" "of_bytes f = d"
      using sparse_end_bytes assms(2) by blast
    then show ?thesis using Some v st by (auto simp: da_finish_def split: sum.splits)
  qed
qed

text \<open>The stream does not touch what only \<open>finish\<close> sets, nor whether the output is sparse, nor the checksum's length.\<close>

definition mode :: "DeltaApplicator \<Rightarrow> nat option \<times> bool \<times> nat" where
  "mode a = (final_pos (da_stats a), da_sparse_state a = None, cv_digest_len (da_checksum_verifier a))"

lemma emit_mode: "emit bs a = Inr a' \<Longrightarrow> mode a' = mode a"
  by (auto simp: emit_def mode_def bindE_eq_Inr Let_def split: option.splits)

lemma kernel_block_mode: "kernel_block K bf offset n a = (a', copied) \<Longrightarrow> mode a' = mode a"
  by (auto simp: kernel_block_def try_clone_basis_range_def try_copy_basis_range_def mode_def count_block_def Let_def split: if_splits)

lemma apply_block_ref_mode:
  assumes "apply_block_ref K i a = Inr a'"
  shows "mode a' = mode a"
proof -
  obtain sig s where sig: "da_basis_signature a = Some sig" "da_basis_map a = Some s"
    using assms by (auto simp: apply_block_ref_def split: option.splits)
  define offset n where n: "offset = i * unat (sl_block_length (fs_layout sig))" "n = block_ref_len (fs_layout sig) i"
  obtain a1 copied where r: "try_kernel_block K s offset n a = (a1, copied)" by fastforce
  then have a1: "mode a1 = mode a" by (auto simp: try_kernel_block_def split: if_splits option.splits dest: kernel_block_mode)
  show ?thesis
  proof (cases copied)
    case True
    then show ?thesis using assms sig r a1 by (auto simp: apply_block_ref_def n [symmetric] Let_def split: if_splits)
  next
    case False
    then obtain s' bs a2 where "emit bs (a1\<lparr>da_basis_map := Some s'\<rparr>) = Inr a2" "a' = a2\<lparr>da_stats := count_block n (da_stats a2)\<rparr>"
      using assms sig r by (auto simp: apply_block_ref_def n [symmetric] bindE_eq_Inr split: if_splits prod.splits sum.splits)
    then show ?thesis using emit_mode a1 by (fastforce simp: mode_def count_block_def)
  qed
qed

lemma apply_recv_token_mode:
  assumes "apply_recv_token K s a = Inr ((a', again), s')"
  shows "mode a' = mode a"
proof -
  obtain t s1 where t: "recv_token s = Inr (t, s1)" using assms by (auto simp: apply_recv_token_def bindE_eq_Inr)
  show ?thesis
  proof (cases t)
    case (LiteralPending n)
    then obtain data buf a2 m where "emit data (a\<lparr>da_token_buffer := buf\<rparr>) = Inr a2" "a' = a2\<lparr>da_stats := count_literal m (da_stats a2)\<rparr>"
      using assms t by (auto simp: apply_recv_token_def apply_literal_from_buffer_def bindE_eq_Inr Let_def)
    then show ?thesis using emit_mode by (fastforce simp: mode_def count_literal_def)
  qed (use assms t in \<open>auto simp: apply_recv_token_def bindE_eq_Inr dest: apply_block_ref_mode\<close>)
qed

lemma apply_delta_stream_mode: "apply_delta_stream K s a = Inr (a', rest) \<Longrightarrow> mode a' = mode a"
proof (induction K s a rule: apply_delta_stream.induct)
  case (1 K s a)
  obtain a1 again s1 where t: "apply_recv_token K s a = Inr ((a1, again), s1)"
    using "1.prems" by (auto simp: apply_delta_stream.simps [of K s a] split: sum.splits)
  note apply_recv_token_mode [OF t]
  then show ?case using "1.IH" [OF t refl refl] "1.prems" t
    by (auto simp: apply_delta_stream.simps [of K s a] split: if_splits)
qed

lemma discard_like_apply: "apply_delta_stream K s a = Inr (a', rest) \<Longrightarrow> discard_tokens s = Inr ((), rest)"
proof (induction K s a rule: apply_delta_stream.induct)
  case (1 K s a)
  obtain a1 again s1 where t: "apply_recv_token K s a = Inr ((a1, again), s1)"
    using "1.prems" by (auto simp: apply_delta_stream.simps [of K s a] split: sum.splits)
  obtain tok s0 where r: "recv_token s = Inr (tok, s0)" using t by (auto simp: apply_recv_token_def bindE_eq_Inr)
  show ?case
  proof (cases tok)
    case EndToken
    then have "\<not> again" "s0 = s1" using r t by (auto simp: apply_recv_token_def)
    then show ?thesis using "1.prems" t r EndToken
      by (simp add: apply_delta_stream.simps [of K s a] discard_tokens.simps [of s])
  next
    case (LiteralPending n)
    then have "again" "read_exact n s0 = Inr (take n s0, s1)"
      using r t by (auto simp: apply_recv_token_def bindE_eq_Inr Let_def tb_fill_slice read_exact_def split: if_splits)
    then show ?thesis using "1.IH" [OF t refl refl] "1.prems" t r LiteralPending
      by (simp add: apply_delta_stream.simps [of K s a] discard_tokens.simps [of s])
  next
    case (BlockRef i)
    then have "again" "s0 = s1" using r t by (auto simp: apply_recv_token_def bindE_eq_Inr)
    then show ?thesis using "1.IH" [OF t refl refl] "1.prems" t r BlockRef
      by (simp add: apply_delta_stream.simps [of K s a] discard_tokens.simps [of s])
  qed
qed

lemma receive_file_exact:
  fixes negotiated protocol seed
  defines "v \<equiv> cv_new negotiated protocol seed"
  assumes "recv_setup sb" "kernel_ok K" "stream_bound sb s \<le> I64_MAX"
  shows "case bindE (stream_output sb s) (\<lambda>(out, s). bindE (read_exact (cv_digest_len v) s) (\<lambda>(expected, s).
        if finalize_into H (cv_update out v) \<noteq> expected \<or> use_sparse \<and> length out \<noteq> file_len then Inl InvalidData
        else Inr (out, s))) of
      Inl e \<Rightarrow> receive_file H K fallocates negotiated protocol seed use_sparse sb file_len s = Inl e
    | Inr (out, rest) \<Rightarrow> \<exists>f st. receive_file H K fallocates negotiated protocol seed use_sparse sb file_len s = Inr ((f, st), rest) \<and>
        of_bytes f = out \<and> bytes_written st = length out \<and> literal_bytes st + matched_bytes st = length out"
proof -
  let ?a = "da_new \<lparr>of_bytes = [], of_pos = 0\<rparr> \<lparr>dac_sparse = use_sparse, dac_writer_kind = StandardWriter, dac_cow_policy = CowAuto\<rparr> v
    (map_option fst sb) (map_option snd sb)"
  have mode: "mode ?a = (None, \<not> use_sparse, cv_digest_len v)" by (simp add: mode_def da_new_def)
  have small: "length ([] :: bytes) + stream_bound sb s \<le> I64_MAX" using assms(4) by simp
  note r = apply_stream_refines [OF da_new_inv [OF assms(2), of v "\<lparr>dac_sparse = use_sparse, dac_writer_kind = StandardWriter, dac_cow_policy = CowAuto\<rparr>"]
      assms(2,3) small]
  show ?thesis
  proof (cases "stream_output sb s")
    case (Inl e)
    then show ?thesis using r by (simp add: receive_file_def v_def)
  next
    case (Inr p)
    obtain out s1 where o: "stream_output sb s = Inr (out, s1)" using Inr by (cases p) auto
    then obtain a where a: "apply_delta_stream K s ?a = Inr (a, s1)" "app_inv sb v out a" using r by fastforce
    have m: "final_pos (da_stats a) = None" "da_sparse_state a = None \<longleftrightarrow> \<not> use_sparse"
      using apply_delta_stream_mode [OF a(1)] mode by (auto simp: mode_def)
    have "length out \<le> I64_MAX" using assms(4) o by (simp add: stream_bound_def)
    note fin = da_finish_exact [OF a(2) this m(1), where s = s1 and H = H and fallocates = fallocates]
    show ?thesis using o a(1) fin m(2) unfolding v_def by (auto simp: receive_file_def split: sum.splits if_splits)
  qed
qed

section \<open>Properties\<close>

text \<open>C4: receiving a file is what its token stream denotes.  For every stream, whatever mixture of sparse
  writing, kernel copies, mapped or windowed basis access and hole punching takes place, the receiver ends with
  exactly the bytes the stream denotes over the basis if the stream is well formed and the trailing whole-file
  checksum is that of those bytes, and otherwise with the error of the first violation; no corrupt stream is
  ever accepted.  The signature is the one the receiver computed of its basis: its layout is that of the basis, with
  blocks of at most 2^17 bytes, the limit from protocol 30 on.  The bound only says that the positions reached are
  file offsets.\<close>

theorem receiver_exact:
  assumes "recv_setup sb" "kernel_ok K" "stream_bound sb s \<le> I64_MAX"
  shows "case bindE (stream_output sb s) (\<lambda>(out, s).
        bindE (read_exact (cv_digest_len (cv_new negotiated protocol seed)) s) (\<lambda>(expected, s).
          if finalize_into H (cv_update out (cv_new negotiated protocol seed)) \<noteq> expected \<or> use_sparse \<and> length out \<noteq> file_len
          then Inl InvalidData else Inr (out, s))) of
      Inl e \<Rightarrow> receive_file H K fallocates negotiated protocol seed use_sparse sb file_len s = Inl e
    | Inr (out, rest) \<Rightarrow> \<exists>f st. receive_file H K fallocates negotiated protocol seed use_sparse sb file_len s = Inr ((f, st), rest) \<and>
        of_bytes f = out \<and> bytes_written st = length out \<and> literal_bytes st + matched_bytes st = length out"
  by (rule receive_file_exact [OF assms])

lemma stream_output_end: "stream_output sb (le_bytes 4 (0 :: i32) @ rest) = Inr ([], rest)"
  by (subst stream_output.simps) (simp add: recv_token_def)

lemma stream_output_literal:
  assumes "0 < length bs" "length bs \<le> 2 ^ 15"
  shows "stream_output sb (le_bytes 4 (of_nat (length bs) :: i32) @ bs @ rest) =
    bindE (stream_output sb rest) (\<lambda>(out, s). Inr (bs @ out, s))"
proof -
  have "sint (of_nat (length bs) :: i32) = int (length bs)" using assms(2) by (intro sint_of_nat_small) simp
  then have "recv_token (le_bytes 4 (of_nat (length bs) :: i32) @ bs @ rest) = Inr (LiteralPending (length bs), bs @ rest)"
    using assms by (simp add: recv_token_def check_literal_token_len_def WIRE_CHUNK_SIZE_def)
  then show ?thesis by (subst stream_output.simps) simp
qed

lemma toy_stream:
  "stream_output None (le_bytes 4 (3 :: i32) @ [7, 0, 0] @ le_bytes 4 (0 :: i32) @ [0, 9]) = Inr ([7, 0, 0], [0, 9])"
  using stream_output_literal [of "[7, 0, 0]" None "le_bytes 4 (0 :: i32) @ [0, 9]"] by (simp add: stream_output_end numeral_3_eq_3)

theorem receiver_exact_witness:
  "\<exists>f st. receive_file toy_crates \<lparr>kc_same_fs = False, kc_clone = (\<lambda>_ _ _. False), kc_copy = (\<lambda>_ _ _. 0)\<rparr> (\<lambda>_ _ _. False)
      (Some CsumNone) 31 0 True None 3 (le_bytes 4 (3 :: i32) @ [7, 0, 0] @ le_bytes 4 (0 :: i32) @ [0, 9]) = Inr ((f, st), [9]) \<and>
    of_bytes f = [7, 0, 0]"
proof -
  let ?K = "\<lparr>kc_same_fs = False, kc_clone = (\<lambda>_ _ _. False), kc_copy = (\<lambda>_ _ _. 0)\<rparr>"
  let ?s = "le_bytes 4 (3 :: i32) @ [7, 0, 0] @ le_bytes 4 (0 :: i32) @ [0, 9]"
  have "recv_setup None" "kernel_ok ?K" "stream_bound None ?s \<le> I64_MAX"
    unfolding stream_bound_def toy_stream by (simp_all add: recv_setup_def kernel_ok_def I64_MAX_def)
  from receiver_exact [OF this, where negotiated = "Some CsumNone" and protocol = 31 and seed = 0 and H = toy_crates and use_sparse = True and
      file_len = 3 and fallocates = "\<lambda>_ _ _. False"] show ?thesis
    unfolding toy_stream by (auto simp: cv_new_def for_algorithm_seeded_def for_algorithm_def cv_digest_len_def cv_update_def finalize_into_def read_exact_def)
qed

text \<open>C17: discarding a file keeps the stream aligned.  Whenever receiving a file would have succeeded, discarding it,
  with no basis and no output, leaves the reader at the very same place, so the next file is read correctly.\<close>

theorem discard_stays_aligned:
  assumes "receive_file H K fallocates negotiated protocol seed use_sparse sb file_len s = Inr (r, rest)"
  shows "discard_file negotiated protocol seed s = Inr ((), rest)"
proof -
  let ?v = "cv_new negotiated protocol seed"
  let ?a = "da_new \<lparr>of_bytes = [], of_pos = 0\<rparr> \<lparr>dac_sparse = use_sparse, dac_writer_kind = StandardWriter, dac_cow_policy = CowAuto\<rparr> ?v
    (map_option fst sb) (map_option snd sb)"
  obtain a s1 f st s2 where a: "apply_delta_stream K s ?a = Inr (a, s1)" "da_finish H fallocates s1 None a = Inr ((f, st), s2)" "s2 = rest"
    using assms by (auto simp: receive_file_def Let_def bindE_eq_Inr split: option.splits if_splits)
  have "cv_digest_len (da_checksum_verifier a) = cv_digest_len ?v"
    using apply_delta_stream_mode [OF a(1)] by (simp add: mode_def da_new_def)
  then have "\<exists>e. read_exact (cv_digest_len ?v) s1 = Inr (e, rest)"
    using a(2,3) by (auto simp: da_finish_def bindE_eq_Inr Let_def split: option.splits if_splits)
  then show ?thesis using discard_like_apply [OF a(1)] by (auto simp: discard_file_def discard_delta_stream_def)
qed

theorem discard_stays_aligned_witness:
  "discard_file (Some CsumNone) 31 0 (le_bytes 4 (3 :: i32) @ [7, 0, 0] @ le_bytes 4 (0 :: i32) @ [0, 9]) = Inr ((), [9])"
proof -
  let ?K = "\<lparr>kc_same_fs = False, kc_clone = (\<lambda>_ _ _. False), kc_copy = (\<lambda>_ _ _. 0)\<rparr>"
  let ?s = "le_bytes 4 (3 :: i32) @ [7, 0, 0] @ le_bytes 4 (0 :: i32) @ [0, 9]"
  have "recv_setup None" "kernel_ok ?K" "stream_bound None ?s \<le> I64_MAX"
    unfolding stream_bound_def toy_stream by (simp_all add: recv_setup_def kernel_ok_def I64_MAX_def)
  from receive_file_exact [OF this, where negotiated = "Some CsumNone" and protocol = 31 and seed = 0 and H = toy_crates and use_sparse = True and
      file_len = 3 and fallocates = "\<lambda>_ _ _. False"]
  obtain r where "receive_file toy_crates ?K (\<lambda>_ _ _. False) (Some CsumNone) 31 0 True None 3 ?s = Inr (r, [9])"
    unfolding toy_stream by (auto simp: cv_new_def for_algorithm_seeded_def for_algorithm_def cv_digest_len_def cv_update_def finalize_into_def read_exact_def)
  then show ?thesis by (rule discard_stays_aligned)
qed

end
