(* ===== verification/Signature_Parallel.thy ===== *)
theory Signature_Parallel
  imports Signature
begin

text \<open>
  The parallel signature generators of \<open>crates/signature/src/parallel.rs\<close>.  A parallel iterator that
  collects in order is the map of its closure; the number of worker threads is a parameter.
\<close>

section \<open>Definitions\<close>

definition PARALLEL_THRESHOLD_BYTES :: nat where "PARALLEL_THRESHOLD_BYTES = 256 * 1024"
definition WINDOW_BYTE_BUDGET :: nat where "WINDOW_BYTE_BUDGET = 64 * 1024 * 1024"

fun read_blocks :: "SignatureLayout \<Rightarrow> nat \<Rightarrow> nat \<Rightarrow> bytes \<Rightarrow> SignatureError + bytes list \<times> bytes" where
  "read_blocks layout block_index 0 s = Inr ([], s)"
| "read_blocks layout block_index (Suc n) s =
    (let is_last = (block_index + 1 = unat (sl_block_count layout));
         target_len = (if is_last \<and> sl_remainder layout \<noteq> 0 then unat (sl_remainder layout)
                       else unat (sl_block_length layout))
     in case read_exact target_len s of
          Inl e \<Rightarrow> Inl (Sig_Io e)
        | Inr (buffer, s) \<Rightarrow>
            bindE (read_blocks layout (block_index + 1) n s) (\<lambda>(data, s). Inr (buffer # data, s)))"

function par_chunks :: "nat \<Rightarrow> 'a list \<Rightarrow> 'a list list" where
  "par_chunks n xs = (if xs = [] \<or> n = 0 then [] else take n xs # par_chunks n (drop n xs))"
  by auto
termination by (relation "measure (length \<circ> snd)") auto

declare par_chunks.simps [simp del]

definition chunk_blocks ::
  "target_arch \<Rightarrow> hash_crates \<Rightarrow> SignatureAlgorithm \<Rightarrow> nat \<Rightarrow> nat \<Rightarrow> bytes list \<Rightarrow> SignatureBlock list" where
  "chunk_blocks arch H algorithm strong_len base_index data =
    concat (map (\<lambda>(chunk_idx, chunk).
        mk_blocks (base_index + chunk_idx * BATCH_SIZE) (map (rd_from_bytes arch) chunk)
          (compute_truncated_batch H algorithm chunk strong_len))
      (enumerate 0 (par_chunks BATCH_SIZE data)))"

definition sat_total :: "nat \<Rightarrow> bytes list \<Rightarrow> nat" where
  "sat_total total_bytes data = foldl (\<lambda>t c. min (t + length c) (2 ^ 64 - 1)) total_bytes data"

definition generate_file_signature_parallel ::
  "target_arch \<Rightarrow> hash_crates \<Rightarrow> bytes \<Rightarrow> SignatureLayout \<Rightarrow> SignatureAlgorithm \<Rightarrow> SignatureError + FileSignature" where
  "generate_file_signature_parallel arch H reader layout alg =
    (let strong_len = sl_strong_sum_length layout;
         expected_blocks = unat (sl_block_count layout)
     in if digest_len alg < strong_len then Inl (DigestLengthMismatch alg strong_len)
        else if expected_blocks = 0 then Inr \<lparr>fs_layout = layout, fs_blocks = [], fs_total_bytes = 0\<rparr>
        else bindE (read_blocks layout 0 expected_blocks reader) (\<lambda>(block_data, s).
          if s \<noteq> [] then Inl (TrailingData 1)
          else Inr \<lparr>fs_layout = layout, fs_blocks = chunk_blocks arch H alg strong_len 0 block_data,
                    fs_total_bytes = sat_total 0 block_data\<rparr>))"

definition sat_mul_add :: "u64 \<Rightarrow> nat \<Rightarrow> nat \<Rightarrow> nat" where
  "sat_mul_add count block_len remainder = min (min (unat count * block_len) (2 ^ 64 - 1) + remainder) (2 ^ 64 - 1)"

definition generate_file_signature_auto ::
  "target_arch \<Rightarrow> hash_crates \<Rightarrow> bytes \<Rightarrow> SignatureLayout \<Rightarrow> SignatureAlgorithm \<Rightarrow> SignatureError + FileSignature" where
  "generate_file_signature_auto arch H reader layout alg =
    (let block_len = unat (sl_block_length layout);
         file_size = (if sl_remainder layout \<noteq> 0
                      then sat_mul_add (if sl_block_count layout = 0 then 0 else sl_block_count layout - 1) block_len (unat (sl_remainder layout))
                      else sat_mul_add (sl_block_count layout) block_len 0)
     in if PARALLEL_THRESHOLD_BYTES \<le> file_size then generate_file_signature_parallel arch H reader layout alg
        else generate_file_signature arch H reader layout alg)"

definition window_blocks :: "nat \<Rightarrow> SignatureLayout \<Rightarrow> nat" where
  "window_blocks current_num_threads layout =
    (let threads = max current_num_threads 1;
         budget_blocks = max (WINDOW_BYTE_BUDGET div max (unat (sl_block_length layout)) 1) BATCH_SIZE
     in min (min (max (min (threads * BATCH_SIZE) USIZE_MAX) BATCH_SIZE) budget_blocks) (unat (sl_block_count layout)))"

function windowed_loop ::
  "target_arch \<Rightarrow> hash_crates \<Rightarrow> SignatureAlgorithm \<Rightarrow> SignatureLayout \<Rightarrow> nat \<Rightarrow> nat \<Rightarrow>
   SignatureBlock list \<Rightarrow> nat \<Rightarrow> bytes \<Rightarrow> SignatureError + SignatureBlock list \<times> nat \<times> bytes" where
  "windowed_loop arch H alg layout window base_index blocks total_bytes s =
    (if base_index < unat (sl_block_count layout) \<and> 0 < window
     then let window_end = min (base_index + window) (unat (sl_block_count layout))
          in bindE (read_blocks layout base_index (window_end - base_index) s) (\<lambda>(window_data, s).
               windowed_loop arch H alg layout window window_end
                 (blocks @ chunk_blocks arch H alg (sl_strong_sum_length layout) base_index window_data)
                 (sat_total total_bytes window_data) s)
     else Inr (blocks, total_bytes, s))"
  by pat_completeness auto
termination
  by (relation "measure (\<lambda>(arch, H, alg, layout, w, base, blocks, total_bytes, s). unat (sl_block_count layout) - base)") auto

declare windowed_loop.simps [simp del]

definition generate_file_signature_windowed ::
  "nat \<Rightarrow> target_arch \<Rightarrow> hash_crates \<Rightarrow> bytes \<Rightarrow> SignatureLayout \<Rightarrow> SignatureAlgorithm \<Rightarrow> SignatureError + FileSignature" where
  "generate_file_signature_windowed threads arch H reader layout alg =
    (let strong_len = sl_strong_sum_length layout
     in if digest_len alg < strong_len then Inl (DigestLengthMismatch alg strong_len)
        else if sl_block_count layout = 0 then Inr \<lparr>fs_layout = layout, fs_blocks = [], fs_total_bytes = 0\<rparr>
        else bindE (windowed_loop arch H alg layout (window_blocks threads layout) 0 [] 0 reader) (\<lambda>(blocks, total_bytes, s).
          if s \<noteq> [] then Inl (TrailingData 1)
          else Inr \<lparr>fs_layout = layout, fs_blocks = blocks, fs_total_bytes = total_bytes\<rparr>))"

section \<open>One reading, however it is cut\<close>

lemma bindE_assoc3: "bindE (bindE m f) g = bindE m (\<lambda>x. bindE (f x) g)"
  by (cases m) simp_all

lemma read_batch_blocks:
  assumes "unat (sl_remainder l) \<le> unat (sl_block_length l)"
  shows "read_batch l i n s = read_blocks l i n s"
  using assms
  by (induction n arbitrary: i s) (auto simp: Let_def split: sum.splits)

lemma read_blocks_add:
  "read_blocks l i (m + n) s =
    bindE (read_blocks l i m s) (\<lambda>(ds, s). bindE (read_blocks l (i + m) n s) (\<lambda>(es, s). Inr (ds @ es, s)))"
proof (induction m arbitrary: i s)
  case 0
  then show ?case by (cases "read_blocks l i n s") auto
next
  case (Suc m)
  define T where "T = (if i + 1 = unat (sl_block_count l) \<and> sl_remainder l \<noteq> 0 then unat (sl_remainder l) else unat (sl_block_length l))"
  have step: "read_blocks l i (Suc k) s = (case read_exact T s of Inl e \<Rightarrow> Inl (Sig_Io e)
      | Inr (buffer, s) \<Rightarrow> bindE (read_blocks l (i + 1) k s) (\<lambda>(data, s). Inr (buffer # data, s)))" for k
    unfolding read_blocks.simps Let_def T_def ..
  show ?case unfolding add_Suc step using Suc by (cases "read_exact T s") (auto simp: bindE_assoc3 split_def)
qed

lemma sat_total_append: "sat_total t (ds @ es) = sat_total (sat_total t ds) es"
  by (simp add: sat_total_def)

definition blocks_of ::
  "target_arch \<Rightarrow> hash_crates \<Rightarrow> SignatureAlgorithm \<Rightarrow> nat \<Rightarrow> nat \<Rightarrow> bytes list \<Rightarrow> SignatureBlock list" where
  "blocks_of arch H alg n i data = mk_blocks i (map (rd_from_bytes arch) data) (map (\<lambda>d. compute_truncated H alg d n) data)"

lemma blocks_of_append: "blocks_of arch H alg n i (ds @ es) = blocks_of arch H alg n i ds @ blocks_of arch H alg n (i + length ds) es"
  by (induction ds arbitrary: i) (simp_all add: blocks_of_def)

lemma read_blocks_length: "read_blocks l i n s = Inr (ds, s') \<Longrightarrow> length ds = n"
  by (induction n arbitrary: i s ds s') (auto simp: Let_def bindE_eq_Inr split: sum.splits prod.splits)

lemma chunk_blocks_whole:
  assumes "batch_ok H"
  shows "chunk_blocks arch H alg n base data = blocks_of arch H alg n base data"
proof -
  have "concat (map (\<lambda>(k, c). mk_blocks (base + k * BATCH_SIZE) (map (rd_from_bytes arch) c) (compute_truncated_batch H alg c n))
      (enumerate j (par_chunks BATCH_SIZE data))) = blocks_of arch H alg n (base + j * BATCH_SIZE) data" for j
  proof (induction BATCH_SIZE data arbitrary: j rule: par_chunks.induct)
    case (1 xs)
    show ?case
    proof (cases "xs = []")
      case True
      then show ?thesis by (simp add: par_chunks.simps blocks_of_def)
    next
      case False
      have z: "BATCH_SIZE \<noteq> 0" by (simp add: BATCH_SIZE_def)
      have tail: "blocks_of arch H alg n (base + j * BATCH_SIZE + length (take BATCH_SIZE xs)) (drop BATCH_SIZE xs) =
          blocks_of arch H alg n (base + Suc j * BATCH_SIZE) (drop BATCH_SIZE xs)"
        by (cases "BATCH_SIZE \<le> length xs") (simp_all add: blocks_of_def min_def algebra_simps)
      have "blocks_of arch H alg n (base + j * BATCH_SIZE) xs = blocks_of arch H alg n (base + j * BATCH_SIZE) (take BATCH_SIZE xs) @
          blocks_of arch H alg n (base + Suc j * BATCH_SIZE) (drop BATCH_SIZE xs)"
        using blocks_of_append [of arch H alg n "base + j * BATCH_SIZE" "take BATCH_SIZE xs" "drop BATCH_SIZE xs"] tail by simp
      then show ?thesis
        using False z 1 [of "Suc j"] assms
        by (subst par_chunks.simps) (simp add: compute_truncated_batch_map blocks_of_def [of arch H alg n "base + j * BATCH_SIZE"])
    qed
  qed
  from this [of 0] show ?thesis by (simp add: chunk_blocks_def)
qed

text \<open>Every loop, whatever its batches or windows, is one reading of the remaining blocks.\<close>

definition read_rest ::
  "target_arch \<Rightarrow> hash_crates \<Rightarrow> SignatureAlgorithm \<Rightarrow> SignatureLayout \<Rightarrow> nat \<Rightarrow> SignatureBlock list \<Rightarrow> nat \<Rightarrow> bytes \<Rightarrow>
   SignatureError + SignatureBlock list \<times> nat \<times> bytes" where
  "read_rest arch H alg l i blocks t s =
    bindE (read_blocks l i (unat (sl_block_count l) - i) s) (\<lambda>(ds, s).
      Inr (blocks @ blocks_of arch H alg (sl_strong_sum_length l) i ds, sat_total t ds, s))"

lemma read_rest_step:
  assumes "i \<le> j" "j \<le> unat (sl_block_count l)"
  shows "read_rest arch H alg l i blocks t s =
    bindE (read_blocks l i (j - i) s) (\<lambda>(ds, s).
      read_rest arch H alg l j (blocks @ blocks_of arch H alg (sl_strong_sum_length l) i ds) (sat_total t ds) s)"
proof -
  have e: "unat (sl_block_count l) - i = (j - i) + (unat (sl_block_count l) - j)" "i + (j - i) = j" using assms by simp_all
  show ?thesis
    unfolding read_rest_def e(1) read_blocks_add e(2)
  proof (cases "read_blocks l i (j - i) s")
    case (Inr p)
    obtain ds s1 where p: "p = (ds, s1)" by fastforce
    have "length ds = j - i" using read_blocks_length Inr p by blast
    then show "bindE (bindE (read_blocks l i (j - i) s) (\<lambda>(ds, s). bindE (read_blocks l j (unat (sl_block_count l) - j) s) (\<lambda>(es, s). Inr (ds @ es, s))))
        (\<lambda>(ds, s). Inr (blocks @ blocks_of arch H alg (sl_strong_sum_length l) i ds, sat_total t ds, s)) =
      bindE (read_blocks l i (j - i) s) (\<lambda>(ds, s). bindE (read_blocks l j (unat (sl_block_count l) - j) s) (\<lambda>(es, s).
        Inr ((blocks @ blocks_of arch H alg (sl_strong_sum_length l) i ds) @ blocks_of arch H alg (sl_strong_sum_length l) j es, sat_total (sat_total t ds) es, s)))"
      using Inr p e(2) by (simp add: bindE_assoc3 blocks_of_append sat_total_append split_def)
  qed simp
qed

lemma read_rest_end: "unat (sl_block_count l) \<le> i \<Longrightarrow> read_rest arch H alg l i blocks t s = Inr (blocks, t, s)"
  by (simp add: read_rest_def blocks_of_def sat_total_def)

lemma sig_loop_rest:
  assumes "batch_ok H" "0 < bc" "unat (sl_remainder l) \<le> unat (sl_block_length l)"
  shows "sig_loop arch H alg l bc i blocks t s = read_rest arch H alg l i blocks t s"
proof (induction "unat (sl_block_count l) - i" arbitrary: i blocks t s rule: less_induct)
  case less
  show ?case
  proof (cases "i < unat (sl_block_count l)")
    case True
    define j where "j = min (i + bc) (unat (sl_block_count l))"
    have j: "i < j" "j \<le> unat (sl_block_count l)" using True assms(2) by (auto simp: j_def)
    then have "unat (sl_block_count l) - j < unat (sl_block_count l) - i" by simp
    note IH = less [OF this]
    show ?thesis
      unfolding sig_loop.simps [of arch H alg l bc i blocks t s] read_rest_step [OF less_imp_le [OF j(1)] j(2)]
      using True assms
      by (cases "read_blocks l i (j - i) s") (simp_all add: IH Let_def split_def j_def [symmetric] read_batch_blocks compute_truncated_batch_map blocks_of_def sat_total_def)
  next
    case False
    then show ?thesis by (simp add: sig_loop.simps read_rest_end)
  qed
qed

lemma windowed_loop_rest:
  assumes "batch_ok H" "0 < w"
  shows "windowed_loop arch H alg l w i blocks t s = read_rest arch H alg l i blocks t s"
proof (induction "unat (sl_block_count l) - i" arbitrary: i blocks t s rule: less_induct)
  case less
  show ?case
  proof (cases "i < unat (sl_block_count l)")
    case True
    define j where "j = min (i + w) (unat (sl_block_count l))"
    have j: "i < j" "j \<le> unat (sl_block_count l)" using True assms(2) by (auto simp: j_def)
    then have "unat (sl_block_count l) - j < unat (sl_block_count l) - i" by simp
    note IH = less [OF this]
    show ?thesis
      unfolding windowed_loop.simps [of arch H alg l w i blocks t s] read_rest_step [OF less_imp_le [OF j(1)] j(2)]
      using True assms
      by (cases "read_blocks l i (j - i) s") (simp_all add: IH Let_def split_def j_def [symmetric] chunk_blocks_whole)
  next
    case False
    then show ?thesis by (simp add: windowed_loop.simps read_rest_end)
  qed
qed

lemma window_blocks_pos: "sl_block_count l \<noteq> 0 \<Longrightarrow> 0 < window_blocks threads l"
  by (simp add: window_blocks_def Let_def BATCH_SIZE_def unat_gt_0 less_max_iff_disj)

lemma generators_agree:
  assumes "batch_ok H" "unat (sl_remainder l) \<le> unat (sl_block_length l)" "sl_block_count l \<noteq> 0"
  shows "generate_file_signature_parallel arch H s l alg = generate_file_signature arch H s l alg"
    "generate_file_signature_windowed threads arch H s l alg = generate_file_signature arch H s l alg"
proof -
  have c: "unat (sl_block_count l) \<noteq> 0" using assms(3) by (simp add: unat_eq_0)
  have bc: "0 < max (min BATCH_SIZE (unat (sl_block_count l))) 1" by simp
  note seq = sig_loop_rest [OF assms(1) bc assms(2)] windowed_loop_rest [OF assms(1) window_blocks_pos [OF assms(3)]]
  show "generate_file_signature_windowed threads arch H s l alg = generate_file_signature arch H s l alg"
    using assms(3) by (simp add: generate_file_signature_windowed_def generate_file_signature_def Let_def seq del: One_nat_def)
  show "generate_file_signature_parallel arch H s l alg = generate_file_signature arch H s l alg"
    using c by (cases "read_blocks l 0 (unat (sl_block_count l)) s")
      (simp_all add: generate_file_signature_parallel_def generate_file_signature_def Let_def seq read_rest_def
        chunk_blocks_whole [OF assms(1)] split_def del: One_nat_def)
qed

lemma generators_empty:
  assumes "sl_block_count l = 0" "sl_strong_sum_length l \<le> digest_len alg"
  shows "generate_file_signature_parallel arch H s l alg = Inr \<lparr>fs_layout = l, fs_blocks = [], fs_total_bytes = 0\<rparr>"
    "generate_file_signature_windowed threads arch H s l alg = Inr \<lparr>fs_layout = l, fs_blocks = [], fs_total_bytes = 0\<rparr>"
    "generate_file_signature arch H s l alg =
      (if s \<noteq> [] then Inl (TrailingData 1) else Inr \<lparr>fs_layout = l, fs_blocks = [], fs_total_bytes = 0\<rparr>)"
  using assms
  by (simp_all add: generate_file_signature_parallel_def generate_file_signature_windowed_def generate_file_signature_def sig_loop.simps)

section \<open>Properties\<close>

text \<open>C23: the parallel generators compute the sequential signature.  For every input, complete, truncated or too
  long, every number of threads and every window, the fully buffered, the windowed and the size-dispatched
  generator return exactly what the sequential one returns, the same error included, as long as the layout has
  a block and its remainder is not longer than a block.\<close>

theorem parallel_signature_equiv:
  assumes "batch_ok H" "unat (sl_remainder l) \<le> unat (sl_block_length l)" "sl_block_count l \<noteq> 0"
  shows "generate_file_signature_parallel arch H s l alg = generate_file_signature arch H s l alg \<and>
    generate_file_signature_windowed threads arch H s l alg = generate_file_signature arch H s l alg \<and>
    generate_file_signature_auto arch H s l alg = generate_file_signature arch H s l alg"
  using generators_agree [OF assms] by (simp add: generate_file_signature_auto_def Let_def)

theorem parallel_signature_equiv_witness:
  "let l = \<lparr>sl_block_length = 2, sl_remainder = 1, sl_block_count = 3, sl_strong_sum_length = 2\<rparr>
   in generate_file_signature_windowed 4 Other_arch toy_crates [1, 2, 3, 4, 5] l Md4 =
        generate_file_signature Other_arch toy_crates [1, 2, 3, 4, 5] l Md4 \<and>
      generate_file_signature_parallel Other_arch toy_crates [1, 2, 3] l Md4 = 
        generate_file_signature Other_arch toy_crates [1, 2, 3] l Md4"
  unfolding Let_def
  by (intro conjI; rule parallel_signature_equiv [THEN conjunct1] parallel_signature_equiv [THEN conjunct2, THEN conjunct1])
     (simp_all add: batch_ok_def toy_crates_def)

text \<open>On a layout without blocks the parallel generators do not look for trailing data: they accept any input
  as an empty file, where the sequential generator reports the trailing byte.\<close>

theorem parallel_skips_trailing_check:
  "let l = \<lparr>sl_block_length = bl, sl_remainder = 0, sl_block_count = 0, sl_strong_sum_length = 2\<rparr>;
       empty = Inr \<lparr>fs_layout = l, fs_blocks = [], fs_total_bytes = 0\<rparr>
   in generate_file_signature_parallel arch H (b # bs) l alg = empty \<and>
      generate_file_signature_windowed threads arch H (b # bs) l alg = empty \<and>
      generate_file_signature arch H (b # bs) l alg = Inl (TrailingData 1)"
  using generators_empty [of "\<lparr>sl_block_length = bl, sl_remainder = 0, sl_block_count = 0, sl_strong_sum_length = 2\<rparr>" alg]
  by (simp add: digest_len_def split: SignatureAlgorithm.splits)

end
