(* ===== verification/Sender.thy ===== *)
theory Sender
  imports Applicator Delta
begin

text \<open>
  The sender's side of one file: the choice of checksums (\<open>crates/transfer/src/shared/checksum.rs\<close>), the index
  rebuilt from the blocks on the wire and the delta generated against it, and the token streams of
  \<open>crates/transfer/src/generator/delta.rs\<close> for a delta, for a whole file and for an append.  Output is the bytes
  written; a source read with \<open>read_exact\<close> is its remaining bytes.  The compressed encoder is not modelled.
\<close>

section \<open>Checksum selection\<close>

definition CHECKSUM_SEED_FIX :: u32 where "CHECKSUM_SEED_FIX = push_bit 5 1"
definition CONSECUTIVE_MATCH :: u32 where "CONSECUTIVE_MATCH = 0x02000000"

definition flags_contains :: "u32 \<Rightarrow> u32 \<Rightarrow> bool" where
  "flags_contains flags other = (flags AND other = other)"

record ChecksumFactory =
  cf_algorithm :: ChecksumAlgorithm
  cf_seed :: i32
  cf_use_proper_seed_order :: bool

definition from_negotiation :: "ChecksumAlgorithm option \<Rightarrow> nat \<Rightarrow> i32 \<Rightarrow> u32 option \<Rightarrow> ChecksumFactory" where
  "from_negotiation negotiated protocol seed compat_flags =
    \<lparr>cf_algorithm =
       (case negotiated of Some checksum \<Rightarrow> checksum
        | None \<Rightarrow> if uses_varint_encoding protocol then MD5 else MD4),
     cf_seed = seed,
     cf_use_proper_seed_order =
       (case compat_flags of Some flags \<Rightarrow> flags_contains flags CHECKSUM_SEED_FIX | None \<Rightarrow> False)\<rparr>"

definition signature_algorithm :: "ChecksumFactory \<Rightarrow> SignatureAlgorithm" where
  "signature_algorithm f =
    (let seed_u64 = scast (cf_seed f)
     in case cf_algorithm f of
          CsumNone \<Rightarrow> if cf_seed f = 0 then Md4 else Md4Seeded (cf_seed f)
        | MD4 \<Rightarrow> if cf_seed f = 0 then Md4 else Md4Seeded (cf_seed f)
        | MD5 \<Rightarrow> Md5 \<lparr>seed_value = Some (cf_seed f), proper_order = cf_use_proper_seed_order f\<rparr>
        | SHA1 \<Rightarrow> Sha1
        | XXH64 \<Rightarrow> Xxh64 seed_u64
        | XXH3 \<Rightarrow> Xxh3 seed_u64
        | XXH128 \<Rightarrow> Xxh3_128 seed_u64)"

definition get_checksum_algorithm :: "ChecksumAlgorithm option \<Rightarrow> nat \<Rightarrow> ChecksumAlgorithm" where
  "get_checksum_algorithm negotiated protocol =
    (case negotiated of Some checksum \<Rightarrow> checksum
     | None \<Rightarrow> if uses_varint_encoding protocol then MD5 else MD4)"

section \<open>The delta against a received signature\<close>

record DeltaGeneratorConfig =
  dgc_block_length :: u32
  dgc_sig_blocks :: "WireBlock list"
  dgc_strong_sum_length :: u8
  dgc_protocol :: nat
  dgc_negotiated_algorithms :: "ChecksumAlgorithm option"
  dgc_compat_flags :: "u32 option"
  dgc_checksum_seed :: i32
  dgc_updating_basis_file :: bool

definition wire_to_block :: "u32 \<Rightarrow> WireBlock \<Rightarrow> SignatureBlock" where
  "wire_to_block block_length b =
    \<lparr>sb_index = ucast (wb_index b),
     sb_rolling = rd_from_value (wb_rolling_sum b) (unat block_length),
     sb_strong = from_slice (wb_strong_sum b) (length (wb_strong_sum b))\<rparr>"

definition build_signature_index :: "DeltaGeneratorConfig \<Rightarrow> DeltaSignatureIndex io_result" where
  "build_signature_index config =
    (if dgc_block_length config = 0 then Inl InvalidData
     else if dgc_strong_sum_length config = 0 then Inl InvalidData
     else let block_count = length (dgc_sig_blocks config);
              layout = \<lparr>sl_block_length = dgc_block_length config, sl_remainder = 0, sl_block_count = of_nat block_count,
                        sl_strong_sum_length = unat (dgc_strong_sum_length config)\<rparr>;
              engine_blocks = map (wire_to_block (dgc_block_length config)) (dgc_sig_blocks config);
              total_bytes = (block_count - 1) * unat (dgc_block_length config);
              sig = \<lparr>fs_layout = layout, fs_blocks = engine_blocks, fs_total_bytes = total_bytes\<rparr>;
              checksum_factory = from_negotiation (dgc_negotiated_algorithms config) (dgc_protocol config)
                (dgc_checksum_seed config) (dgc_compat_flags config)
          in case from_signature sig (signature_algorithm checksum_factory) of
               None \<Rightarrow> Inl InvalidData
             | Some ix \<Rightarrow> Inr ix)"

definition consecutive_match_needed :: "DeltaGeneratorConfig \<Rightarrow> nat" where
  "consecutive_match_needed config =
    (case dgc_compat_flags config of Some f \<Rightarrow> if flags_contains f CONSECUTIVE_MATCH then 2 else 1 | None \<Rightarrow> 1)"

definition config_generator :: "DeltaGeneratorConfig \<Rightarrow> DeltaGenerator" where
  "config_generator config =
    with_updating_basis_file (dgc_updating_basis_file config)
      (with_consecutive_match_needed (consecutive_match_needed config) dg_new)"

definition index_error :: "'a io_result \<Rightarrow> gen_error + 'a" where
  "index_error r = (case r of Inl e \<Rightarrow> Inl (Gen_Io e) | Inr x \<Rightarrow> Inr x)"

definition generate_delta_from_signature ::
  "target_arch \<Rightarrow> hash_crates \<Rightarrow> reader \<Rightarrow> DeltaGeneratorConfig \<Rightarrow> gen_error + DeltaScript" where
  "generate_delta_from_signature arch H source config =
    bindE (index_error (build_signature_index config)) (\<lambda>ix.
      bindE (generate (config_generator config) arch H source ix) (\<lambda>(script, _). Inr script))"

definition generate_delta_from_signature_chunked ::
  "target_arch \<Rightarrow> hash_crates \<Rightarrow> bytes \<Rightarrow> DeltaGeneratorConfig \<Rightarrow> nat \<Rightarrow> gen_error + DeltaScript" where
  "generate_delta_from_signature_chunked arch H source config max_chunks =
    bindE (index_error (build_signature_index config)) (\<lambda>ix.
      bindE (if di_has_duplicate_blocks ix
             then generate (config_generator config) arch H (cursor_of (config_generator config) ix source) ix
             else generate_chunked (config_generator config) arch H source ix max_chunks)
        (\<lambda>(script, _). Inr script))"

datatype FnameCmpType = BasisDir u8 | Fname | PartialDir | Backup | Fuzzy u8

definition updating_basis_file :: "bool \<Rightarrow> bool \<Rightarrow> bool \<Rightarrow> nat \<Rightarrow> FnameCmpType option \<Rightarrow> bool" where
  "updating_basis_file inplace inplace_partial make_backups protocol fnamecmp_type =
    (let is_fname = (fnamecmp_type = None \<or> fnamecmp_type = Some Fname);
         is_partial_dir = (fnamecmp_type = Some PartialDir)
     in (inplace_partial \<and> is_partial_dir) \<or> (inplace \<and> (if 29 \<le> protocol then is_fname else \<not> make_backups)))"

section \<open>The delta on the wire\<close>

definition wire_ops_of :: "u32 \<Rightarrow> DeltaToken \<Rightarrow> DeltaOp list" where
  "wire_ops_of block_length token =
    (let block_len = unat block_length
     in case token of
          Literal data \<Rightarrow> [OpLiteral data]
        | Copy index len \<Rightarrow>
            if 0 < block_len \<and> block_len < len \<and> len mod block_len = 0
            then map (\<lambda>k. OpCopy (ucast (index + of_nat k)) block_length) [0..<len div block_len]
            else [OpCopy (ucast index) (of_nat len)])"

definition script_to_wire_delta :: "DeltaScript \<Rightarrow> u32 \<Rightarrow> DeltaOp list" where
  "script_to_wire_delta script block_length = concat (map (wire_ops_of block_length) (ds_tokens script))"

record inline_state =
  is_out :: bytes
  is_verifier :: ChecksumVerifier
  is_source_offset :: nat
  is_matched_data :: nat
  is_literal_data :: nat

fun write_inline_loop :: "bytes \<Rightarrow> DeltaOp list \<Rightarrow> inline_state \<Rightarrow> inline_state io_result" where
  "write_inline_loop source [] st = Inr st"
| "write_inline_loop source (op # ops) st =
    (case op of
       OpLiteral data \<Rightarrow>
         write_inline_loop source ops
           (st\<lparr>is_verifier := cv_update data (is_verifier st), is_out := is_out st @ write_token_literal data,
               is_source_offset := is_source_offset st + length data, is_literal_data := is_literal_data st + length data\<rparr>)
     | OpCopy block_index len \<Rightarrow>
         bindE (read_exact (unat len) (drop (is_source_offset st) source)) (\<lambda>(read_buf, _).
           write_inline_loop source ops
             (st\<lparr>is_out := is_out st @ write_token_block_match block_index, is_verifier := cv_update read_buf (is_verifier st),
                 is_source_offset := is_source_offset st + unat len, is_matched_data := is_matched_data st + unat len\<rparr>)))"

definition write_delta_with_inline_checksum ::
  "hash_crates \<Rightarrow> DeltaOp list \<Rightarrow> bytes \<Rightarrow> ChecksumAlgorithm \<Rightarrow> i32 \<Rightarrow> nat \<Rightarrow> (bytes \<times> bytes \<times> nat \<times> nat) io_result" where
  "write_delta_with_inline_checksum H ops source checksum_algorithm checksum_seed protocol =
    bindE (write_inline_loop source ops
        \<lparr>is_out = [], is_verifier = for_algorithm_seeded checksum_algorithm checksum_seed protocol, is_source_offset = 0,
         is_matched_data = 0, is_literal_data = 0\<rparr>)
      (\<lambda>st. Inr (is_out st @ write_token_end, finalize_into H (is_verifier st), is_matched_data st, is_literal_data st))"

section \<open>Whole files and appends\<close>

definition MAX_READ_SIZE :: nat where "MAX_READ_SIZE = 256 * 1024"

definition vec_resize :: "nat \<Rightarrow> bytes \<Rightarrow> bytes" where
  "vec_resize n v = take n v @ replicate (n - length v) 0"

definition clamp1 :: "nat \<Rightarrow> nat \<Rightarrow> nat" where
  "clamp1 n hi = min (max n 1) hi"

text \<open>The pieces of one read, each written with its length prefix stored in front of it: in the reserved first
  bytes for the first piece, over already sent bytes for the others.\<close>

function wire_pieces :: "nat \<Rightarrow> nat \<Rightarrow> bytes \<Rightarrow> bytes \<Rightarrow> bytes \<times> bytes" where
  "wire_pieces to_read wire_off buf out =
    (if wire_off < to_read
     then let chunk = min (to_read - wire_off) WIRE_CHUNK_SIZE;
              buf = copy_at wire_off (le_bytes 4 (of_nat chunk :: i32)) buf
          in wire_pieces to_read (wire_off + chunk) buf (out @ slice wire_off (wire_off + 4 + chunk) buf)
     else (buf, out))"
  by auto
termination by (relation "measure (\<lambda>(to_read, wire_off, buf, out). to_read - wire_off)") (auto simp: WIRE_CHUNK_SIZE_def)

declare wire_pieces.simps [simp del]

text \<open>The loop over the reads, the same in both streams.  Its result is the bytes written and the verifier.  The buffer
  always has room beyond the reserved bytes; a loop without room would not end, and is the error here.\<close>

function stream_reads ::
  "nat \<Rightarrow> bytes \<Rightarrow> bytes \<Rightarrow> ChecksumVerifier \<Rightarrow> bytes \<Rightarrow> (bytes \<times> ChecksumVerifier) io_result" where
  "stream_reads remaining buf source verifier out =
    (if remaining = 0 then Inr (out, verifier)
     else if length buf \<le> 4 then Inl InvalidInput
     else let to_read = min (length buf - 4) remaining
          in case read_exact to_read source of
               Inl e \<Rightarrow> Inl e
             | Inr (data, source) \<Rightarrow>
                 let buf = copy_at 4 data buf;
                     (buf, out) = wire_pieces to_read 0 buf out
                 in stream_reads (remaining - to_read) buf source (cv_update data verifier) out)"
  by auto
termination by (relation "measure (\<lambda>(remaining, buf, source, verifier, out). remaining)") auto

declare stream_reads.simps [simp del]

definition stream_whole_file_transfer ::
  "hash_crates \<Rightarrow> bytes \<Rightarrow> nat \<Rightarrow> ChecksumAlgorithm \<Rightarrow> i32 \<Rightarrow> nat \<Rightarrow> bytes \<Rightarrow> (bytes \<times> bytes) io_result" where
  "stream_whole_file_transfer H source file_len checksum_algorithm checksum_seed protocol buf =
    (let verifier = for_algorithm_seeded checksum_algorithm checksum_seed protocol;
         read_size = clamp1 file_len MAX_READ_SIZE
     in bindE (stream_reads file_len (vec_resize (4 + read_size) buf) source verifier []) (\<lambda>(out, verifier).
          Inr (out @ write_token_end, finalize_into H verifier)))"

function skip_prefix :: "nat \<Rightarrow> nat \<Rightarrow> bool \<Rightarrow> bytes \<Rightarrow> ChecksumVerifier \<Rightarrow> (bytes \<times> ChecksumVerifier) io_result" where
  "skip_prefix buf_len prefix_remaining append_verify source verifier =
    (if prefix_remaining = 0 then Inr (source, verifier)
     else if buf_len = 0 then Inl InvalidInput
     else let to_read = min buf_len prefix_remaining
          in case read_exact to_read source of
               Inl e \<Rightarrow> Inl e
             | Inr (data, source) \<Rightarrow>
                 skip_prefix buf_len (prefix_remaining - to_read) append_verify source
                   (if append_verify then cv_update data verifier else verifier))"
  by auto
termination by (relation "measure (\<lambda>(buf_len, prefix_remaining, av, source, verifier). prefix_remaining)") auto

declare skip_prefix.simps [simp del]

definition stream_append_transfer ::
  "hash_crates \<Rightarrow> bytes \<Rightarrow> nat \<Rightarrow> nat \<Rightarrow> bool \<Rightarrow> ChecksumAlgorithm \<Rightarrow> i32 \<Rightarrow> nat \<Rightarrow> bytes \<Rightarrow> (bytes \<times> bytes) io_result" where
  "stream_append_transfer H source file_len flen append_verify checksum_algorithm checksum_seed protocol buf =
    (let verifier = for_algorithm_seeded checksum_algorithm checksum_seed protocol;
         prefix_remaining = min flen file_len
     in bindE (skip_prefix (clamp1 prefix_remaining MAX_READ_SIZE) prefix_remaining append_verify source verifier) (\<lambda>(source, verifier).
          let remaining = file_len - flen;
              read_size = clamp1 remaining MAX_READ_SIZE
          in bindE (stream_reads remaining (vec_resize (4 + read_size) buf) source verifier []) (\<lambda>(out, verifier).
               Inr (out @ write_token_end, finalize_into H verifier))))"

section \<open>Whole files and appends are literal streams\<close>

text \<open>The prefixes are written into bytes that were already sent: the data of the later pieces stays intact.\<close>

lemma wire_pieces_data:
  assumes "4 + to_read \<le> length buf" "wire_off \<le> to_read"
  shows "\<exists>buf'. wire_pieces to_read wire_off buf out = (buf', out @ write_token_literal (slice (4 + wire_off) (4 + to_read) buf)) \<and>
    length buf' = length buf"
  using assms
proof (induction to_read wire_off buf out rule: wire_pieces.induct)
  case (1 to_read wire_off buf out)
  show ?case
  proof (cases "wire_off < to_read")
    case True
    define chunk where "chunk = min (to_read - wire_off) WIRE_CHUNK_SIZE"
    define buf1 where "buf1 = copy_at wire_off (le_bytes 4 (of_nat chunk :: i32)) buf"
    have c: "0 < chunk" "wire_off + chunk \<le> to_read" "chunk \<le> WIRE_CHUNK_SIZE" using True by (auto simp: chunk_def WIRE_CHUNK_SIZE_def)
    have b: "length buf1 = length buf" "drop (4 + wire_off) buf1 = drop (4 + wire_off) buf"
      using 1(2,3) True by (auto simp: buf1_def copy_at_def add.commute)
    have "take 4 (drop wire_off buf1) = le_bytes 4 (of_nat chunk :: i32)" using 1(2,3) True by (simp add: buf1_def copy_at_def)
    then have piece: "slice wire_off (wire_off + 4 + chunk) buf1 = le_bytes 4 (of_nat chunk :: i32) @ take chunk (drop (4 + wire_off) buf)"
      using b(2) take_add [of 4 chunk "drop wire_off buf1"] by (simp add: slice_def drop_take add.commute)
    define d where "d = slice (4 + wire_off) (4 + to_read) buf"
    have d: "take chunk d = take chunk (drop (4 + wire_off) buf)" "drop chunk d = slice (4 + (wire_off + chunk)) (4 + to_read) buf1"
      "length d = to_read - wire_off"
    proof -
      have d: "d = take (to_read - wire_off) (drop (4 + wire_off) buf)" by (simp add: d_def slice_def drop_take)
      then show "take chunk d = take chunk (drop (4 + wire_off) buf)" "length d = to_read - wire_off"
        using c(2) 1(2) by simp_all
      have "slice (4 + (wire_off + chunk)) (4 + to_read) buf1 = take (to_read - (wire_off + chunk)) (drop chunk (drop (4 + wire_off) buf1))"
        by (simp add: slice_def drop_take add.assoc add.commute add.left_commute)
      then show "drop chunk d = slice (4 + (wire_off + chunk)) (4 + to_read) buf1"
        unfolding b(2) d by (simp add: drop_take)
    qed
    have "write_token_literal d = (le_bytes 4 (of_nat chunk :: i32) @ take chunk d) @ write_token_literal (drop chunk d)"
      using c(1) d(3) True by (subst write_token_literal.simps) (auto simp: chunk_def min.commute delta_write_int_def Let_def)
    moreover obtain buf' where "wire_pieces to_read (wire_off + chunk) buf1 (out @ slice wire_off (wire_off + 4 + chunk) buf1) =
        (buf', (out @ slice wire_off (wire_off + 4 + chunk) buf1) @ write_token_literal (drop chunk d))" "length buf' = length buf"
      using 1(1) [OF True chunk_def buf1_def] 1(2) b(1) c(2) unfolding d(2) by auto
    ultimately show ?thesis
      using True by (simp add: wire_pieces.simps [of to_read wire_off buf out] chunk_def [symmetric] buf1_def [symmetric] d_def [symmetric] piece d(1))
  next
    case False
    then have "wire_off = to_read" using 1(3) by simp
    then show ?thesis by (simp add: wire_pieces.simps [of to_read to_read buf out] slice_def write_token_literal.simps)
  qed
qed

text \<open>The reads a stream is cut into.\<close>

function read_pieces_of :: "nat \<Rightarrow> bytes \<Rightarrow> bytes list" where
  "read_pieces_of n data = (if data = [] \<or> n = 0 then [] else take n data # read_pieces_of n (drop n data))"
  by auto
termination by (relation "measure (length \<circ> snd)") auto

declare read_pieces_of.simps [simp del]

lemma concat_read_pieces: "0 < n \<Longrightarrow> concat (read_pieces_of n data) = data"
proof (induction n data rule: read_pieces_of.induct)
  case (1 n data)
  then show ?case by (cases "data = []") (auto simp: read_pieces_of.simps [of n data] read_pieces_of.simps [of n "[]"])
qed

lemma stream_reads_ok:
  assumes "4 < length buf" "remaining \<le> length source"
  shows "stream_reads remaining buf source verifier out =
    Inr (out @ concat (map write_token_literal (read_pieces_of (length buf - 4) (take remaining source))),
         cv_update (take remaining source) verifier)"
  using assms
proof (induction "remaining" arbitrary: buf source verifier out rule: less_induct)
  case (less remaining)
  show ?case
  proof (cases "remaining = 0")
    case False
    let ?n = "length buf - 4"
    define k where "k = min ?n remaining"
    have k: "0 < k" "k \<le> remaining" "4 + k \<le> length buf" using less.prems False by (auto simp: k_def)
    let ?buf = "copy_at 4 (take k source) buf"
    have kl: "length (take k source) = k" using k(2) less.prems(2) by simp
    have b: "length ?buf = length buf" "slice 4 (4 + k) ?buf = take k source" using k(3) kl by (simp_all add: copy_at_def slice_def)
    obtain buf' where w: "wire_pieces k 0 ?buf out = (buf', out @ write_token_literal (take k source))" "length buf' = length buf"
      using wire_pieces_data [of k ?buf 0 out] k(3) b by auto
    have rest: "stream_reads (remaining - k) buf' (drop k source) (cv_update (take k source) verifier) (out @ write_token_literal (take k source)) =
      Inr ((out @ write_token_literal (take k source)) @ concat (map write_token_literal (read_pieces_of ?n (take (remaining - k) (drop k source)))),
        cv_update (take (remaining - k) (drop k source)) (cv_update (take k source) verifier))"
      using less.IH [of "remaining - k" buf' "drop k source"] k less.prems w(2) by simp
    have p: "read_pieces_of ?n (take remaining source) = take k source # read_pieces_of ?n (take (remaining - k) (drop k source))"
      using False less.prems k
      by (subst read_pieces_of.simps) (auto simp: k_def min_def drop_take read_pieces_of.simps)
    have t: "take k source @ take (remaining - k) (drop k source) = take remaining source"
      using take_add [of k "remaining - k" source] k(2) by simp
    show ?thesis
      using False less.prems k rest w(1) t
      by (subst stream_reads.simps) (simp add: k_def [symmetric] read_exact_def p Let_def)
  qed (simp add: stream_reads.simps [of 0] read_pieces_of.simps)
qed

section \<open>What the receiver reads of a token stream\<close>

definition op_bytes :: "(FileSignature \<times> bytes) option \<Rightarrow> DeltaOp \<Rightarrow> bytes" where
  "op_bytes sb op = (case op of OpLiteral data \<Rightarrow> data | OpCopy i _ \<Rightarrow> case_option [] id (ref_bytes sb (unat i)))"

definition op_ok :: "(FileSignature \<times> bytes) option \<Rightarrow> DeltaOp \<Rightarrow> bool" where
  "op_ok sb op =
    (case op of OpLiteral _ \<Rightarrow> True
     | OpCopy i len \<Rightarrow> unat i < 2 ^ 31 - 1 \<and> (\<exists>data. ref_bytes sb (unat i) = Some data \<and> length data = unat len))"

lemma op_bytes_simps:
  "op_bytes sb (OpLiteral data) = data"
  "ref_bytes sb (unat i) = Some data \<Longrightarrow> op_bytes sb (OpCopy i len) = data"
  "write_token_op (OpLiteral data) = write_token_literal data"
  "write_token_op (OpCopy i len) = write_token_block_match i"
  by (simp_all add: op_bytes_def write_token_op_def)

lemma stream_output_pieces:
  "\<forall>p \<in> set ps. p \<noteq> [] \<and> length p \<le> WIRE_CHUNK_SIZE \<Longrightarrow>
    stream_output sb (concat (map (\<lambda>p. delta_write_int (of_nat (length p)) @ p) ps) @ s) =
    bindE (stream_output sb s) (\<lambda>(out, s). Inr (concat ps @ out, s))"
proof (induction ps)
  case Nil
  then show ?case by (cases "stream_output sb s") auto
next
  case (Cons p ps)
  then have "0 < length p" "length p \<le> 2 ^ 15" by (auto simp: WIRE_CHUNK_SIZE_def)
  note stream_output_literal [OF this, of sb]
  then show ?case using Cons by (cases "stream_output sb s") (auto simp: delta_write_int_def)
qed

lemma stream_output_block:
  assumes "unat i < 2 ^ 31 - 1" "ref_bytes sb (unat i) = Some data"
  shows "stream_output sb (write_token_block_match i @ s) = bindE (stream_output sb s) (\<lambda>(out, s). Inr (data @ out, s))"
proof -
  have not_neg: "\<not> uint i < - 1" "uint i \<noteq> - 1" using uint_ge_0 [of i] by linarith+
  have "recv_token (write_token_block_match i @ s) = Inr (BlockRef (unat i), s)"
    unfolding recv_token_def write_token_block_match_def delta_write_int_def
    using not_neg
    by (simp add: Let_def block_match_negative [OF assms(1)] del: minus_add_distrib unat_eq_nat_uint)

  then show ?thesis using assms(2) by (subst stream_output.simps) simp
qed

lemma stream_output_op:
  assumes "op_ok sb op"
  shows "stream_output sb (write_token_op op @ s) = bindE (stream_output sb s) (\<lambda>(out, s). Inr (op_bytes sb op @ out, s))"
proof (cases op)
  case (OpLiteral data)
  then show ?thesis
    using stream_output_pieces [of "literal_pieces data" sb s] literal_pieces_bounds concat_literal_pieces
    by (simp add: write_token_op_def write_token_literal_pieces op_bytes_def)
next
  case (OpCopy i len)
  then show ?thesis using assms stream_output_block [of i sb _ s] by (auto simp: op_ok_def write_token_op_def op_bytes_def)
qed

lemma stream_output_ops:
  assumes "list_all (op_ok sb) ops"
  shows "stream_output sb (write_token_stream ops @ rest) = Inr (concat (map (op_bytes sb) ops), rest)"
proof -
  have "stream_output sb (concat (map write_token_op ops) @ s) =
      bindE (stream_output sb s) (\<lambda>(out, s). Inr (concat (map (op_bytes sb) ops) @ out, s))" for s
    using assms
  proof (induction ops)
    case Nil
    then show ?case by (cases "stream_output sb s") auto
  next
    case (Cons op ops)
    then show ?case using stream_output_op [of sb op] by (cases "stream_output sb s") auto
  qed
  then show ?thesis using stream_output_end by (simp add: write_token_stream_def write_token_end_def delta_write_int_def)
qed

section \<open>The delta stream\<close>

lemma write_inline_loop_ok:
  assumes "list_all (op_ok sb) ops" "drop (is_source_offset st) source = concat (map (op_bytes sb) ops) @ post"
  shows "\<exists>st'. write_inline_loop source ops st = Inr st' \<and> is_out st' = is_out st @ concat (map write_token_op ops) \<and>
    is_verifier st' = cv_update (concat (map (op_bytes sb) ops)) (is_verifier st) \<and>
    is_matched_data st' + is_literal_data st' = is_matched_data st + is_literal_data st + length (concat (map (op_bytes sb) ops))"
  using assms
proof (induction ops arbitrary: st)
  case (Cons op ops)
  show ?case
  proof (cases op)
    case (OpLiteral data)
    let ?st = "st\<lparr>is_verifier := cv_update data (is_verifier st), is_out := is_out st @ write_token_literal data,
               is_source_offset := is_source_offset st + length data, is_literal_data := is_literal_data st + length data\<rparr>"
    have "drop (is_source_offset ?st) source = drop (length data) (drop (is_source_offset st) source)" by (simp add: add.commute)
    then have "drop (is_source_offset ?st) source = concat (map (op_bytes sb) ops) @ post"
      using Cons.prems(2) OpLiteral by (simp add: op_bytes_simps)
    then show ?thesis using Cons.IH [of ?st] Cons.prems(1) OpLiteral by (auto simp: op_bytes_simps)
  next
    case (OpCopy i len)
    then obtain data where d: "ref_bytes sb (unat i) = Some data" "length data = unat len" using Cons.prems(1) by (auto simp: op_ok_def)
    let ?st = "st\<lparr>is_out := is_out st @ write_token_block_match i, is_verifier := cv_update data (is_verifier st),
                 is_source_offset := is_source_offset st + unat len, is_matched_data := is_matched_data st + unat len\<rparr>"
    have r: "drop (is_source_offset st) source = data @ concat (map (op_bytes sb) ops) @ post" using Cons.prems(2) OpCopy d by (simp add: op_bytes_simps)
    have "drop (is_source_offset ?st) source = drop (length data) (drop (is_source_offset st) source)" by (simp add: d(2) add.commute)
    then have "drop (is_source_offset ?st) source = concat (map (op_bytes sb) ops) @ post" using r by simp
    moreover have "read_exact (unat len) (drop (is_source_offset st) source) = Inr (data, concat (map (op_bytes sb) ops) @ post)"
      unfolding r d(2) [symmetric] by simp
    ultimately show ?thesis using Cons.IH [of ?st] Cons.prems(1) OpCopy d by (auto simp: op_bytes_simps)
  qed
qed simp

lemma write_delta_inline_ok:
  assumes "list_all (op_ok sb) ops" "concat (map (op_bytes sb) ops) = source"
  shows "\<exists>matched literal. write_delta_with_inline_checksum H ops source alg seed protocol =
      Inr (write_token_stream ops, finalize_into H (cv_update source (for_algorithm_seeded alg seed protocol)), matched, literal) \<and>
    matched + literal = length source"
  using write_inline_loop_ok [OF assms(1), where source = source and post = "[]"
      and st = "\<lparr>is_out = [], is_verifier = for_algorithm_seeded alg seed protocol, is_source_offset = 0, is_matched_data = 0, is_literal_data = 0\<rparr>"] assms(2)
  by (auto simp: write_delta_with_inline_checksum_def write_token_stream_def)

section \<open>The literal streams\<close>

lemma read_buffer_room: "4 < length (vec_resize (4 + clamp1 n MAX_READ_SIZE) buf)"
  by (simp add: vec_resize_def clamp1_def MAX_READ_SIZE_def)

lemma literal_stream_output:
  assumes "0 < n"
  shows "stream_output sb (concat (map write_token_literal (read_pieces_of n data)) @ write_token_end @ rest) = Inr (data, rest)"
proof -
  let ?ops = "map OpLiteral (read_pieces_of n data)"
  have "list_all (op_ok sb) ?ops" by (simp add: list_all_iff op_ok_def)
  from stream_output_ops [OF this, of rest] show ?thesis
    using concat_read_pieces [OF assms, of data] by (simp add: write_token_stream_def op_bytes_simps comp_def)
qed

lemma whole_file_stream:
  assumes "file_len \<le> length source"
  shows "\<exists>s. stream_whole_file_transfer H source file_len alg seed protocol buf =
      Inr (s, finalize_into H (cv_update (take file_len source) (for_algorithm_seeded alg seed protocol))) \<and>
    (\<forall>sb rest. stream_output sb (s @ rest) = Inr (take file_len source, rest))"
  using stream_reads_ok [OF read_buffer_room assms] literal_stream_output read_buffer_room
  by (simp add: stream_whole_file_transfer_def)

lemma skip_prefix_ok:
  assumes "0 < n" "k \<le> length source"
  shows "skip_prefix n k av source verifier =
    Inr (drop k source, if av then cv_update (take k source) verifier else verifier)"
  using assms
proof (induction k arbitrary: source verifier rule: less_induct)
  case (less k)
  show ?case
  proof (cases "k = 0")
    case False
    define j where "j = min n k"
    have j: "0 < j" "j \<le> k" using less.prems False by (auto simp: j_def)
    have "take j source @ take (k - j) (drop j source) = take k source" using take_add [of j "k - j" source] j(2) by simp
    then show ?thesis
      using False less.prems j less.IH [of "k - j" "drop j source"]
      by (subst skip_prefix.simps) (simp add: j_def [symmetric] read_exact_def Let_def)
  qed (simp add: skip_prefix.simps [of n 0])
qed

lemma append_stream:
  assumes "file_len = length source" "flen \<le> file_len"
  shows "\<exists>s. stream_append_transfer H source file_len flen av alg seed protocol buf =
      Inr (s, finalize_into H (cv_update (if av then source else drop flen source) (for_algorithm_seeded alg seed protocol))) \<and>
    (\<forall>sb rest. stream_output sb (s @ rest) = Inr (drop flen source, rest))"
proof -
  let ?v = "for_algorithm_seeded alg seed protocol"
  have p: "skip_prefix (clamp1 flen MAX_READ_SIZE) flen av source ?v =
      Inr (drop flen source, if av then cv_update (take flen source) ?v else ?v)"
    using assms by (intro skip_prefix_ok) (simp_all add: clamp1_def MAX_READ_SIZE_def)
  have "min flen file_len = flen" using assms by simp
  then show ?thesis
    using stream_reads_ok [OF read_buffer_room, of "file_len - flen" "drop flen source"] literal_stream_output read_buffer_room p assms
    by (auto simp: stream_append_transfer_def Let_def)
qed

end
