(* ===== verification/File_Transfer.thy ===== *)
theory File_Transfer
  imports Sender Signature_Parallel Wire_Signature
begin

text \<open>
  One file end to end: the receiver's basis signature (\<open>crates/transfer/src/receiver/basis.rs\<close>), its request
  (\<open>receiver/transfer/sync.rs\<close>), the sender's per-file step (\<open>generator/transfer/transfer_loop.rs\<close>) and the
  receiver's reading of the answer.  The item flags that precede the header on the wire are not part of the
  streams here.
\<close>

section \<open>The basis signature\<close>

definition effective_s2length :: "u32 \<Rightarrow> nat \<Rightarrow> nat" where
  "effective_s2length negotiated base_len =
    (if flags_contains negotiated CONSECUTIVE_MATCH then max (base_len div 2) 1 else base_len)"

record SignatureGenerationConfig =
  sgc_protocol :: nat
  sgc_checksum_length :: nat
  sgc_checksum_algorithm :: SignatureAlgorithm
  sgc_compat_flags :: "u32 option"

definition compute_basis_signature ::
  "nat \<Rightarrow> target_arch \<Rightarrow> hash_crates \<Rightarrow> bytes \<Rightarrow> nat \<Rightarrow> SignatureLayout \<Rightarrow> SignatureAlgorithm \<Rightarrow> bool \<Rightarrow>
   SignatureError + FileSignature" where
  "compute_basis_signature threads arch H reader basis_size layout algorithm parallel =
    (if parallel \<and> PARALLEL_THRESHOLD_BYTES \<le> basis_size
     then generate_file_signature_windowed threads arch H reader layout algorithm
     else generate_file_signature arch H reader layout algorithm)"

text \<open>The mapped and the plain reader yield the same bytes; \<open>None\<close> is the empty result.\<close>

definition generate_basis_signature ::
  "nat \<Rightarrow> target_arch \<Rightarrow> hash_crates \<Rightarrow> bool \<Rightarrow> bytes \<Rightarrow> nat \<Rightarrow> SignatureGenerationConfig \<Rightarrow> FileSignature option" where
  "generate_basis_signature threads arch H parallel basis basis_size config =
    (let digest_len = min (digest_len (sgc_checksum_algorithm config)) 255;
         params = (layout_params_new (of_nat basis_size) None (sgc_protocol config) (sgc_checksum_length config))
           \<lparr>slp_transfer_digest_length := digest_len\<rparr>
     in case calculate_signature_layout params of
          Inl _ \<Rightarrow> None
        | Inr layout \<Rightarrow>
            let base_len = sl_strong_sum_length layout;
                negotiated = (case sgc_compat_flags config of Some flags \<Rightarrow> flags | None \<Rightarrow> 0);
                eff_len = effective_s2length negotiated base_len;
                layout = (if eff_len = base_len then layout else layout\<lparr>sl_strong_sum_length := eff_len\<rparr>)
            in case compute_basis_signature threads arch H basis basis_size layout (sgc_checksum_algorithm config) parallel of
                 Inl _ \<Rightarrow> None
               | Inr sig \<Rightarrow> Some sig)"

section \<open>The request and the answer\<close>

definition request_sums :: "bool \<Rightarrow> FileSignature option \<Rightarrow> bytes" where
  "request_sums append_mode signature_opt =
    (let sum_head = (case signature_opt of Some signature \<Rightarrow> sum_head_from_signature signature | None \<Rightarrow> sum_head_empty)
     in sum_head_write sum_head @
        (case signature_opt of
           Some signature \<Rightarrow> if append_mode then [] else write_signature_blocks signature (sh_s2length sum_head)
         | None \<Rightarrow> []))"

definition receive_response ::
  "hash_crates \<Rightarrow> kernel_copy \<Rightarrow> (fallocate_mode \<Rightarrow> nat \<Rightarrow> nat \<Rightarrow> bool) \<Rightarrow> ChecksumAlgorithm option \<Rightarrow> nat \<Rightarrow> i32 \<Rightarrow> bool \<Rightarrow>
   (FileSignature \<times> bytes) option \<Rightarrow> nat \<Rightarrow> bytes \<Rightarrow> (out_file \<times> DeltaApplyResult) read_result" where
  "receive_response H K fallocates negotiated protocol seed use_sparse sb file_len s =
    bindE (sum_head_read s) (\<lambda>(_, s). receive_file H K fallocates negotiated protocol seed use_sparse sb file_len s)"

section \<open>The sender's step\<close>

definition PARALLEL_DELTA_MIN_FILE_BYTES :: nat where "PARALLEL_DELTA_MIN_FILE_BYTES = 64 * 1024 * 1024"
definition PARALLEL_DELTA_MIN_CHUNK_BYTES :: nat where "PARALLEL_DELTA_MIN_CHUNK_BYTES = 1024 * 1024"
definition PARALLEL_DELTA_MAX_CHUNKS :: nat where "PARALLEL_DELTA_MAX_CHUNKS = 8"

definition should_parallel_delta :: "nat \<Rightarrow> u32 \<Rightarrow> nat \<Rightarrow> bool" where
  "should_parallel_delta file_len block_length cores =
    (if cores \<le> 1 \<or> file_len < PARALLEL_DELTA_MIN_FILE_BYTES then False
     else let effective_min_chunk = max (max PARALLEL_DELTA_MIN_CHUNK_BYTES (unat block_length * 64)) 1
          in 2 \<le> file_len div effective_min_chunk)"

text \<open>What the step reads of the generator's context and configuration, with the number of rayon threads.\<close>

record SenderContext =
  sc_protocol :: nat
  sc_negotiated_algorithms :: "ChecksumAlgorithm option"
  sc_compat_flags :: "u32 option"
  sc_checksum_seed :: i32
  sc_append :: bool
  sc_append_verify :: bool
  sc_inplace :: bool
  sc_inplace_partial :: bool
  sc_backup :: bool
  sc_parallel_delta_scan :: bool
  sc_cores :: nat

definition source_diminished_below_flist :: "bytes \<Rightarrow> nat \<Rightarrow> bool" where
  "source_diminished_below_flist source flist_len = (length source < flist_len)"

datatype send_outcome = Diminished | Sent bytes nat nat

text \<open>The source file is its bytes, and \<open>splits\<close> how a streaming reader delivers them; mapping it may fail
  (\<open>mmap_ok\<close>).  \<open>keepalive\<close> is the writer's keepalive with its state.\<close>

definition send_delta ::
  "SenderContext \<Rightarrow> target_arch \<Rightarrow> hash_crates \<Rightarrow> bool \<Rightarrow> bool \<Rightarrow> FnameCmpType option \<Rightarrow> nat \<Rightarrow> bytes \<Rightarrow> reader \<Rightarrow>
   SumHead \<Rightarrow> WireBlock list \<Rightarrow> gen_error + send_outcome" where
  "send_delta ctx arch H mmap_ok is_resend fnamecmp_type file_len source splits sum_head sig_blocks =
    (let block_length = sh_blength sum_head;
         want_parallel = (sc_parallel_delta_scan ctx \<and> should_parallel_delta file_len block_length (sc_cores ctx));
         config = \<lparr>dgc_block_length = block_length, dgc_sig_blocks = sig_blocks, dgc_strong_sum_length = ucast (sh_s2length sum_head),
           dgc_protocol = sc_protocol ctx, dgc_negotiated_algorithms = sc_negotiated_algorithms ctx,
           dgc_compat_flags = sc_compat_flags ctx, dgc_checksum_seed = sc_checksum_seed ctx,
           dgc_updating_basis_file = updating_basis_file (sc_inplace ctx) (sc_inplace_partial ctx)
             (sc_backup ctx \<and> \<not> is_resend) (sc_protocol ctx) fnamecmp_type\<rparr>
     in bindE (if want_parallel \<and> mmap_ok
               then generate_delta_from_signature_chunked arch H source config (min (sc_cores ctx) PARALLEL_DELTA_MAX_CHUNKS)
               else generate_delta_from_signature arch H splits config) (\<lambda>delta_script.
          let checksum_algorithm = get_checksum_algorithm (sc_negotiated_algorithms ctx) (sc_protocol ctx);
              wire_ops = script_to_wire_delta delta_script block_length
          in bindE (index_error (write_delta_with_inline_checksum H wire_ops source checksum_algorithm (sc_checksum_seed ctx) (sc_protocol ctx)))
               (\<lambda>(out, checksum, matched_data, literal_data).
                 Inr (Sent (sum_head_write sum_head @ out @ checksum) matched_data literal_data))))"

definition send_file ::
  "SenderContext \<Rightarrow> target_arch \<Rightarrow> hash_crates \<Rightarrow> bool \<Rightarrow> bool \<Rightarrow> FnameCmpType option \<Rightarrow> nat option \<Rightarrow> ('k \<Rightarrow> 'k io_result) \<Rightarrow> 'k \<Rightarrow>
   nat \<Rightarrow> bytes \<Rightarrow> reader \<Rightarrow> bytes \<Rightarrow> bytes \<Rightarrow> gen_error + send_outcome \<times> 'k \<times> bytes" where
  "send_file ctx arch H mmap_ok is_resend fnamecmp_type allowed_lull keepalive k file_len source splits stream_buf s =
    bindE (index_error (sum_head_read s)) (\<lambda>(sum_head, s).
      let is_append = (sc_append ctx \<and> \<not> is_resend);
          lull_mod = signature_read_lull_mod (sc_protocol ctx) allowed_lull
      in bindE (index_error (if is_append then Inr (([], k), s) else read_signature_blocks_keepalive sum_head lull_mod keepalive k s))
          (\<lambda>((sig_blocks, k), s).
        let has_basis = (\<not> sum_head_is_empty sum_head);
            checksum_algorithm = get_checksum_algorithm (sc_negotiated_algorithms ctx) (sc_protocol ctx)
        in bindE
            (if is_append \<and> source_diminished_below_flist source file_len then Inr Diminished
             else if is_append \<and> has_basis
             then let flen = min (unat (flength sum_head)) file_len
                  in bindE (index_error (stream_append_transfer H source file_len flen (sc_append_verify ctx) checksum_algorithm
                         (sc_checksum_seed ctx) (sc_protocol ctx) stream_buf)) (\<lambda>(out, checksum).
                       Inr (Sent (sum_head_write sum_head @ out @ checksum) 0 (file_len - flen)))
             else if has_basis
             then send_delta ctx arch H mmap_ok is_resend fnamecmp_type file_len source splits sum_head sig_blocks
             else bindE (index_error (stream_whole_file_transfer H source file_len checksum_algorithm
                         (sc_checksum_seed ctx) (sc_protocol ctx) stream_buf)) (\<lambda>(out, checksum).
                    Inr (Sent (sum_head_write sum_head @ out @ checksum) 0 file_len)))
            (\<lambda>outcome. Inr (outcome, k, s))))"

section \<open>The signature crosses the wire\<close>

lemma read_blocks_loop_keepalive:
  assumes "\<forall>k. \<exists>k'. on_lull k = Inr k'"
  shows "\<exists>k'. read_blocks_loop n lull_mod on_lull k (of_nat i) (length bs)
     (concat (map (\<lambda>b. le_bytes 4 (rd_value (sb_rolling b)) @ pad_sum n (as_slice_db (sb_strong b))) bs) @ rest) =
   Inr ((map (\<lambda>(i, b). wire_block n i b) (enumerate i bs), k'), rest)"
proof (induction bs arbitrary: i k)
  case (Cons b bs)
  obtain k1 where k1: "(if lull_mod \<noteq> 0 \<and> of_nat i mod lull_mod = 0 then on_lull k else Inr k) = Inr k1"
    using assms by (cases "lull_mod \<noteq> 0 \<and> of_nat i mod lull_mod = 0") auto
  obtain k' where "read_blocks_loop n lull_mod on_lull k1 (of_nat (Suc i)) (length bs)
     (concat (map (\<lambda>b. le_bytes 4 (rd_value (sb_rolling b)) @ pad_sum n (as_slice_db (sb_strong b))) bs) @ rest) =
   Inr ((map (\<lambda>(i, b). wire_block n i b) (enumerate (Suc i) bs), k'), rest)" using Cons.IH by blast
  then show ?case using k1 by (auto simp: wire_block_def add.commute)
qed simp

lemma effective_bounds: "1 \<le> n \<Longrightarrow> n \<le> m \<Longrightarrow> 1 \<le> effective_s2length f n \<and> effective_s2length f n \<le> m"
  by (auto simp: effective_s2length_def)

text \<open>A basis signature has the shape every later step relies on.\<close>

definition basis_signature ::
  "target_arch \<Rightarrow> hash_crates \<Rightarrow> SignatureAlgorithm \<Rightarrow> bytes \<Rightarrow> FileSignature \<Rightarrow> bool" where
  "basis_signature arch H alg basis sig =
    (\<exists>l. sig = \<lparr>fs_layout = l, fs_blocks = map (signature_block arch H alg l basis) [0..<unat (sl_block_count l)],
                fs_total_bytes = length basis\<rparr> \<and>
     layout_fits l (length basis) \<and> unat (sl_block_count l) < 2 ^ 31 \<and> unat (sl_block_length l) \<le> 2 ^ 17 \<and>
     1 \<le> sl_strong_sum_length l \<and> sl_strong_sum_length l \<le> min 16 (digest_len alg))"

lemma generate_basis_signature_ok:
  assumes "generate_basis_signature threads arch H parallel basis (length basis) config = Some sig"
    "length basis < 2 ^ 64" "batch_ok H" "30 \<le> sgc_protocol config" "1 \<le> sgc_checksum_length config"
  shows "basis_signature arch H (sgc_checksum_algorithm config) basis sig"
proof -
  let ?alg = "sgc_checksum_algorithm config"
  define params where "params = (layout_params_new (of_nat (length basis)) None (sgc_protocol config) (sgc_checksum_length config))
    \<lparr>slp_transfer_digest_length := min (digest_len ?alg) 255\<rparr>"
  obtain l0 where l0: "calculate_signature_layout params = Inr l0"
    using assms(1) by (auto simp: generate_basis_signature_def params_def Let_def split: sum.splits)
  define n where "n = effective_s2length (case sgc_compat_flags config of Some flags \<Rightarrow> flags | None \<Rightarrow> 0) (sl_strong_sum_length l0)"
  define l where "l = l0\<lparr>sl_strong_sum_length := n\<rparr>"
  have p: "slp_forced_block_length params = None" "slp_protocol params = sgc_protocol config" "unat (slp_file_length params) = length basis"
    "slp_checksum_length params = sgc_checksum_length config" "slp_transfer_digest_length params = min (digest_len ?alg) 255"
    using assms(2) by (simp_all add: params_def layout_params_new_def unat_of_nat_u64)
  have "derive_block_length (slp_file_length params) (slp_protocol params) \<noteq> 0"
    using derive_block_length_bounds(1) [of "slp_file_length params" "slp_protocol params"] by auto
  then have fits0: "layout_fits l0 (length basis)" "unat (sl_block_length l0) \<le> 2 ^ 17" "unat (sl_block_count l0) < 2 ^ 31"
    using calculate_signature_layout_fits [OF l0] p assms(4) by auto
  have fits: "layout_fits l (length basis)" "unat (sl_block_length l) \<le> 2 ^ 17" "unat (sl_block_count l) < 2 ^ 31"
    using fits0 by (simp_all add: l_def layout_fits_def)
  have "sl_strong_sum_length l0 = derive_strong_sum_length (slp_file_length params) (sl_block_length l0)
      (slp_protocol params) (slp_checksum_length params) (slp_transfer_digest_length params)"
    using l0 by (auto simp: calculate_signature_layout_def Let_def split: if_splits)
  moreover have "1 \<le> min (digest_len ?alg) 255" "min (digest_len ?alg) 255 = digest_len ?alg"
    by (auto simp: digest_len_def split: SignatureAlgorithm.splits)
  ultimately have "1 \<le> sl_strong_sum_length l0 \<and> sl_strong_sum_length l0 \<le> min 16 (digest_len ?alg)"
    using derive_strong_sum_length_bounds [of "slp_protocol params" "slp_checksum_length params" "slp_transfer_digest_length params"] p assms(4,5)
    by auto
  then have strong: "1 \<le> sl_strong_sum_length l" "sl_strong_sum_length l \<le> min 16 (digest_len ?alg)"
    using effective_bounds [of "sl_strong_sum_length l0" "min 16 (digest_len ?alg)"] by (simp_all add: l_def n_def)
  have "(if n = sl_strong_sum_length l0 then l0 else l0\<lparr>sl_strong_sum_length := n\<rparr>) = l" by (auto simp: l_def)
  then have sig: "compute_basis_signature threads arch H basis (length basis) l ?alg parallel = Inr sig"
    using assms(1) l0 unfolding generate_basis_signature_def Let_def params_def [symmetric]
    by (auto simp: n_def [symmetric] split: sum.splits)
  have seq: "compute_basis_signature threads arch H basis (length basis) l ?alg parallel = generate_file_signature arch H basis l ?alg"
  proof (cases "sl_block_count l = 0")
    case True
    then have "basis = []" using fits(1) by (auto simp: layout_fits_def Let_def)
    then show ?thesis by (simp add: compute_basis_signature_def PARALLEL_THRESHOLD_BYTES_def)
  next
    case False
    have "unat (sl_remainder l) \<le> unat (sl_block_length l)" using fits(1) by (simp add: layout_fits_def Let_def)
    then show ?thesis using generators_agree(2) [OF assms(3) _ False] by (simp add: compute_basis_signature_def)
  qed
  show ?thesis
    using sig generate_file_signature_blocks [OF fits(1) assms(3,2), of ?alg arch "[]"] strong fits
    unfolding seq basis_signature_def by (intro exI [of _ l]) auto
qed

section \<open>The index on the sender's side\<close>

text \<open>The strong checksum's width, and that it tells the windows of this source from the basis blocks they
  differ from; the last, short block counts too, since the sender takes every block for a full one.\<close>

definition digest_widths :: "hash_crates \<Rightarrow> SignatureAlgorithm \<Rightarrow> bool" where
  "digest_widths H alg = (\<forall>d n. n \<le> digest_len alg \<longrightarrow> length (as_slice_db (compute_truncated H alg d n)) = n)"

definition wire_collision_free ::
  "hash_crates \<Rightarrow> SignatureAlgorithm \<Rightarrow> SignatureLayout \<Rightarrow> bytes \<Rightarrow> bytes \<Rightarrow> bool" where
  "wire_collision_free H alg l basis source =
    (\<forall>i us w vs. i < unat (sl_block_count l) \<and> source = us @ w @ vs \<and> length w = unat (sl_block_length l) \<and>
       as_slice_db (compute_truncated H alg w (sl_strong_sum_length l)) =
         as_slice_db (compute_truncated H alg (block_chunk l basis i) (sl_strong_sum_length l)) \<longrightarrow>
       w = block_chunk l basis i)"

definition wire_blocks :: "FileSignature \<Rightarrow> WireBlock list" where
  "wire_blocks sig = map (\<lambda>(i, b). wire_block (sl_strong_sum_length (fs_layout sig)) i b) (enumerate 0 (fs_blocks sig))"

lemma from_slice_whole: "length bs \<le> 20 \<Longrightarrow> as_slice_db (from_slice bs (length bs)) = bs"
  by (simp add: from_slice_def as_slice_db_def DIGEST_MAX_LEN_def Let_def)

lemma wire_blocks_back:
  assumes "basis_signature arch H alg basis sig" "digest_widths H alg"
  defines "l \<equiv> fs_layout sig"
  shows "length (wire_blocks sig) = unat (sl_block_count l)"
    "i < unat (sl_block_count l) \<Longrightarrow> let b = wire_to_block bl (wire_blocks sig ! i)
      in sb_index b = of_nat i \<and> sb_len b = unat bl \<and>
         as_slice_db (sb_strong b) = as_slice_db (compute_truncated H alg (block_chunk l basis i) (sl_strong_sum_length l))"
proof -
  have sig: "fs_blocks sig = map (signature_block arch H alg l basis) [0..<unat (sl_block_count l)]"
    "unat (sl_block_count l) < 2 ^ 31" "sl_strong_sum_length l \<le> 16" "sl_strong_sum_length l \<le> digest_len alg"
    using assms(1) by (auto simp: basis_signature_def l_def)
  show "length (wire_blocks sig) = unat (sl_block_count l)" by (simp add: wire_blocks_def sig(1))
  assume i: "i < unat (sl_block_count l)"
  let ?d = "as_slice_db (compute_truncated H alg (block_chunk l basis i) (sl_strong_sum_length l))"
  have d: "length ?d = sl_strong_sum_length l" using assms(2) sig(4) by (simp add: digest_widths_def)
  have "wire_blocks sig ! i = wire_block (sl_strong_sum_length l) i (signature_block arch H alg l basis i)"
    using i by (simp add: wire_blocks_def sig(1) nth_enumerate_eq l_def)
  moreover have "(ucast (of_nat i :: u32) :: u64) = of_nat i"
    using i sig(2) by (simp add: word_eq_iff_unsigned unsigned_ucast_eq unsigned_of_nat take_bit_nat_eq_self)
  ultimately show "let b = wire_to_block bl (wire_blocks sig ! i)
      in sb_index b = of_nat i \<and> sb_len b = unat bl \<and> as_slice_db (sb_strong b) = ?d"
    using d sig(3) from_slice_whole [of ?d]
    by (simp add: wire_to_block_def wire_block_def signature_block_def pad_sum_exact sb_len_def rd_from_value_def Let_def)
qed

lemma wire_index:
  assumes "basis_signature arch H alg basis sig" "digest_widths H alg" "wire_collision_free H alg (fs_layout sig) basis source"
    "length basis < 2 ^ 64" "length source < 2 ^ 64" "sl_block_count (fs_layout sig) \<noteq> 0"
    "dgc_block_length config = sl_block_length (fs_layout sig)" "dgc_sig_blocks config = wire_blocks sig"
    "dgc_strong_sum_length config = of_nat (sl_strong_sum_length (fs_layout sig))"
    "alg = signature_algorithm (from_negotiation (dgc_negotiated_algorithms config) (dgc_protocol config)
       (dgc_checksum_seed config) (dgc_compat_flags config))"
  shows "\<exists>ix. build_signature_index config = Inr ix \<and> scan_env H basis source ix \<and>
    di_block_length ix = unat (sl_block_length (fs_layout sig))"
proof -
  define l where "l = fs_layout sig"
  have sig: "layout_fits l (length basis)" "unat (sl_block_count l) < 2 ^ 31" "unat (sl_block_length l) \<le> 2 ^ 17"
    "1 \<le> sl_strong_sum_length l" "sl_strong_sum_length l \<le> 16"
    using assms(1) by (auto simp: basis_signature_def l_def)
  have bl: "0 < unat (sl_block_length l)" "sl_block_length l \<noteq> 0" using sig(1) by (auto simp: layout_fits_def Let_def unat_eq_0)
  have n: "unat (of_nat (sl_strong_sum_length l) :: u8) = sl_strong_sum_length l" using sig(5) by (simp add: unat_of_nat take_bit_nat_eq_self)
  then have n0: "(of_nat (sl_strong_sum_length l) :: u8) \<noteq> 0" using sig(4) by auto
  have c: "0 < unat (sl_block_count l)" using assms(6) by (simp add: l_def unat_gt_0)
  note bk = wire_blocks_back [OF assms(1,2), folded l_def]
  define s' where "s' = \<lparr>fs_layout = \<lparr>sl_block_length = sl_block_length l, sl_remainder = 0, sl_block_count = of_nat (length (wire_blocks sig)),
      sl_strong_sum_length = sl_strong_sum_length l\<rparr>, fs_blocks = map (wire_to_block (sl_block_length l)) (wire_blocks sig),
      fs_total_bytes = (length (wire_blocks sig) - 1) * unat (sl_block_length l)\<rparr>"
  have full: "is_full (unat (sl_block_length l)) (fs_blocks s') i \<longleftrightarrow> i < unat (sl_block_count l)" for i
    using bk(2) [of i "sl_block_length l"] bk(1) by (auto simp: is_full_def s'_def Let_def)
  then have "full_indices (unat (sl_block_length (fs_layout s'))) (fs_blocks s') \<noteq> []"
    using c set_full_indices [of "unat (sl_block_length l)" "fs_blocks s'"] by (force simp: s'_def)
  moreover have len: "length (fs_blocks s') = unat (sl_block_count l)" using bk(1) by (simp add: s'_def)
  ultimately obtain ix where ix: "from_signature s' alg = Some ix" using from_signature_some [of s' alg] sig(2) by auto
  have inv: "index_inv ix" "di_blocks ix = fs_blocks s'" "di_algorithm ix = alg" "di_block_length ix = unat (sl_block_length l)"
    "di_strong_length ix = sl_strong_sum_length l"
    using from_signature_inv [OF ix] len sig(2) by (auto simp: s'_def)
  have "sb_index (di_blocks ix ! i) = of_nat i \<and>
      (\<forall>us w vs. source = us @ w @ vs \<and> length w = unat (sl_block_length l) \<and> strong_match H ix i w \<longrightarrow>
        Suc i * unat (sl_block_length l) \<le> length basis \<and>
        w = take (unat (sl_block_length l)) (drop (i * unat (sl_block_length l)) basis))"
    if "is_full (unat (sl_block_length l)) (di_blocks ix) i" for i
  proof -
    have i: "i < unat (sl_block_count l)" using that full inv(2) by simp
    have b: "sb_index (di_blocks ix ! i) = of_nat i" "as_slice_db (sb_strong (di_blocks ix ! i)) =
        as_slice_db (compute_truncated H alg (block_chunk l basis i) (sl_strong_sum_length l))"
      using bk(2) [OF i, of "sl_block_length l"] i bk(1) by (simp_all add: inv(2) s'_def Let_def)
    moreover have "Suc i * unat (sl_block_length l) \<le> length basis \<and> w = block_chunk l basis i"
      if "source = us @ w @ vs" "length w = unat (sl_block_length l)" "strong_match H ix i w" for us w vs
    proof -
      have w: "w = block_chunk l basis i"
        using assms(3) i that b(2) unfolding wire_collision_free_def l_def [symmetric] strong_match_def inv(3,5) by metis
      then have "unat (sl_block_length l) \<le> length basis - i * unat (sl_block_length l)" using that(2) by (simp add: block_chunk_def)
      then show ?thesis using w bl(1) by auto
    qed
    ultimately show ?thesis by (auto simp: block_chunk_def)
  qed
  then have "scan_env H basis source ix" using inv bl(1) assms(4,5) sig(3) by (simp add: scan_env_def)
  moreover have "build_signature_index config = Inr ix"
    using bl(2) n n0 ix assms(7-10) by (simp add: build_signature_index_def l_def [symmetric] s'_def Let_def)
  ultimately show ?thesis using inv(4) by (auto simp: l_def)
qed

section \<open>The script as wire operations\<close>

lemma wire_ops_copy:
  assumes "0 < len" "bl = unat block_length" "0 < bl" "bl dvd len"
  shows "wire_ops_of block_length (Copy index len) =
    map (\<lambda>k. OpCopy (ucast (index + of_nat k)) block_length) [0..<len div bl]"
proof (cases "bl < len")
  case True
  then show ?thesis using assms by (simp add: wire_ops_of_def)
next
  case False
  then have "len = bl" using assms(1,4) dvd_imp_le by fastforce
  then show ?thesis using assms(2,3) by (simp add: wire_ops_of_def)
qed

lemma block_index_bound:
  assumes "layout_fits l (length basis)" "Suc i * unat (sl_block_length l) \<le> length basis"
  shows "i < unat (sl_block_count l)" "length (block_chunk l basis i) = unat (sl_block_length l)"
proof -
  let ?b = "unat (sl_block_length l)"
  have "length basis \<le> unat (sl_block_count l) * ?b" using assms(1)
    by (cases "unat (sl_block_count l)") (auto simp: layout_fits_def Let_def split: if_splits)
  then have "Suc i * ?b \<le> unat (sl_block_count l) * ?b" using assms(2) by (rule order_trans [rotated])
  then have "Suc i \<le> unat (sl_block_count l)" using assms(1) by (simp only: mult_le_cancel2) (simp add: layout_fits_def Let_def)
  then show "i < unat (sl_block_count l)" by simp
  show "length (block_chunk l basis i) = ?b" using assms(2) by (simp add: block_chunk_def)
qed

lemma concat_chunks_take:
  assumes "j * unat (sl_block_length l) \<le> length basis" "i \<le> j"
  shows "concat (map (block_chunk l basis) [i..<j]) = take ((j - i) * unat (sl_block_length l)) (drop (i * unat (sl_block_length l)) basis)"
proof -
  let ?b = "unat (sl_block_length l)"
  have e: "concat (map (block_chunk l basis) [i..<j]) @ drop (j * ?b) basis = drop (i * ?b) basis" by (rule concat_block_chunks [OF assms(2)])
  then have "length (concat (map (block_chunk l basis) [i..<j])) = (j - i) * ?b"
    using arg_cong [OF e, of length] assms(1) mult_le_mono1 [OF assms(2), of ?b]
    unfolding length_append length_drop diff_mult_distrib by linarith
  then show ?thesis using e by (metis append_eq_conv_conj)
qed

lemma wire_ops_token:
  assumes "layout_fits (fs_layout sig) (length basis)" "unat (sl_block_count (fs_layout sig)) < 2 ^ 31"
    "block_token (unat (sl_block_length (fs_layout sig))) basis t"
  shows "list_all (op_ok (Some (sig, basis))) (wire_ops_of (sl_block_length (fs_layout sig)) t) \<and>
    concat (map (op_bytes (Some (sig, basis))) (wire_ops_of (sl_block_length (fs_layout sig)) t)) =
      token_output (unat (sl_block_length (fs_layout sig))) basis t"
proof (cases t)
  case (Literal data)
  then show ?thesis by (simp add: wire_ops_of_def op_ok_def op_bytes_simps)
next
  case (Copy index len)
  define l where "l = fs_layout sig"
  define b where "b = unat (sl_block_length l)"
  have v: "0 < len" "b dvd len" "unat index * b + len \<le> length basis" "0 < b"
    using assms(1,3) Copy by (auto simp: block_token_def token_valid_def b_def l_def layout_fits_def Let_def)
  have ops: "wire_ops_of (sl_block_length l) t = map (\<lambda>k. OpCopy (ucast (index + of_nat k)) (sl_block_length l)) [0..<len div b]"
    using wire_ops_copy [OF v(1) b_def v(4,2)] Copy by simp
  have blk: "ref_bytes (Some (sig, basis)) (unat (ucast (index + of_nat k) :: u32)) = Some (block_chunk l basis (unat index + k)) \<and>
      unat (ucast (index + of_nat k) :: u32) < 2 ^ 31 - 1 \<and> length (block_chunk l basis (unat index + k)) = b" if "k < len div b" for k
  proof -
    have "Suc k * b \<le> len" using that v(2,4) by (metis Suc_leI dvd_div_mult_self mult_le_mono1)
    then have "Suc (unat index + k) * b \<le> length basis" using v(3) by (simp add: algebra_simps)
    note bound = block_index_bound [OF assms(1) [folded l_def], folded b_def, OF this]
    have "unat index + k < 2 ^ 31" using bound(1) assms(2) by (simp add: l_def)
    then have "unat (index + of_nat k) = unat index + k" by (simp add: unat_word_ariths unat_of_nat take_bit_nat_eq_self)
    then have "unat (ucast (index + of_nat k) :: u32) = unat index + k" using \<open>unat index + k < 2 ^ 31\<close> by (simp add: unat_ucast_small)
    then show ?thesis using bound assms(2) by (simp add: ref_bytes_def l_def)
  qed
  have "list_all (op_ok (Some (sig, basis))) (wire_ops_of (sl_block_length l) t)"
    unfolding ops using blk by (auto simp: list_all_iff op_ok_def b_def)
  moreover have "concat (map (op_bytes (Some (sig, basis))) (wire_ops_of (sl_block_length l) t)) = token_output b basis t"
  proof -
    have "map (op_bytes (Some (sig, basis))) (wire_ops_of (sl_block_length l) t) = map (\<lambda>k. block_chunk l basis (unat index + k)) [0..<len div b]"
      unfolding ops using blk by (simp add: op_bytes_simps(2))
    also have "\<dots> = map (block_chunk l basis) [unat index..<unat index + len div b]"
      by (simp add: list_eq_iff_nth_eq)
    finally have "concat (map (op_bytes (Some (sig, basis))) (wire_ops_of (sl_block_length l) t)) =
        concat (map (block_chunk l basis) [unat index..<unat index + len div b])" by simp
    moreover have e: "len div b * b = len" using v(2) by simp
    ultimately show ?thesis
      using concat_chunks_take [of "unat index + len div b" l basis "unat index", folded b_def] v(3) Copy
      by (simp add: algebra_simps)
  qed
  ultimately show ?thesis by (simp add: l_def b_def)
qed

lemma wire_ops_script:
  assumes "layout_fits (fs_layout sig) (length basis)" "unat (sl_block_count (fs_layout sig)) < 2 ^ 31"
    "delta_ok g (unat (sl_block_length (fs_layout sig))) basis source script"
  shows "list_all (op_ok (Some (sig, basis))) (script_to_wire_delta script (sl_block_length (fs_layout sig)))"
    "concat (map (op_bytes (Some (sig, basis))) (script_to_wire_delta script (sl_block_length (fs_layout sig)))) = source"
proof -
  have "list_all (op_ok (Some (sig, basis))) (concat (map (wire_ops_of (sl_block_length (fs_layout sig))) ts)) \<and>
      concat (map (op_bytes (Some (sig, basis))) (concat (map (wire_ops_of (sl_block_length (fs_layout sig))) ts))) =
        tokens_output (unat (sl_block_length (fs_layout sig))) basis ts"
    if "list_all (block_token (unat (sl_block_length (fs_layout sig))) basis) ts" for ts
    using that wire_ops_token [OF assms(1,2)] by (induction ts) (auto simp: tokens_output_def)
  from this [of "ds_tokens script"]
  show "list_all (op_ok (Some (sig, basis))) (script_to_wire_delta script (sl_block_length (fs_layout sig)))"
    "concat (map (op_bytes (Some (sig, basis))) (script_to_wire_delta script (sl_block_length (fs_layout sig)))) = source"
    using assms(3) by (auto simp: delta_ok_def script_to_wire_delta_def)
qed

section \<open>Both sides together\<close>

definition transfer_algorithm :: "SenderContext \<Rightarrow> SignatureAlgorithm" where
  "transfer_algorithm ctx = signature_algorithm (from_negotiation (sc_negotiated_algorithms ctx) (sc_protocol ctx)
     (sc_checksum_seed ctx) (sc_compat_flags ctx))"

text \<open>The receiver's configuration on the same negotiated values, and the basis it signs.\<close>

definition signature_config :: "SenderContext \<Rightarrow> nat \<Rightarrow> SignatureGenerationConfig" where
  "signature_config ctx checksum_length =
    \<lparr>sgc_protocol = sc_protocol ctx, sgc_checksum_length = checksum_length,
     sgc_checksum_algorithm = transfer_algorithm ctx, sgc_compat_flags = sc_compat_flags ctx\<rparr>"

definition signed_basis ::
  "nat \<Rightarrow> target_arch \<Rightarrow> hash_crates \<Rightarrow> bool \<Rightarrow> SenderContext \<Rightarrow> nat \<Rightarrow> bytes option \<Rightarrow> (FileSignature \<times> bytes) option" where
  "signed_basis threads arch H parallel ctx checksum_length basis =
    (case basis of None \<Rightarrow> None
     | Some b \<Rightarrow> map_option (\<lambda>sig. (sig, b))
         (generate_basis_signature threads arch H parallel b (length b) (signature_config ctx checksum_length)))"

definition file_verifier :: "SenderContext \<Rightarrow> ChecksumVerifier" where
  "file_verifier ctx = cv_new (sc_negotiated_algorithms ctx) (sc_protocol ctx) (sc_checksum_seed ctx)"

definition hashes_ok :: "hash_crates \<Rightarrow> SenderContext \<Rightarrow> bool" where
  "hashes_ok H ctx =
    (batch_ok H \<and> digest_widths H (transfer_algorithm ctx) \<and>
     (\<forall>d. length (finalize_into H (cv_update d (file_verifier ctx))) = cv_digest_len (file_verifier ctx)))"

lemma verifier_both:
  "for_algorithm_seeded (get_checksum_algorithm (sc_negotiated_algorithms ctx) (sc_protocol ctx)) (sc_checksum_seed ctx) (sc_protocol ctx) =
    file_verifier ctx"
  by (auto simp: file_verifier_def get_checksum_algorithm_def cv_new_def for_algorithm_seeded_def for_algorithm_def split: option.splits)

lemma send_delta_ok:
  assumes "basis_signature arch H (transfer_algorithm ctx) basis sig" "hashes_ok H ctx"
    "wire_collision_free H (transfer_algorithm ctx) (fs_layout sig) basis source"
    "length basis < 2 ^ 64" "length source < 2 ^ 64" "sl_block_count (fs_layout sig) \<noteq> 0"
    "reader_ok splits" "reader_bytes splits = source"
  shows "\<exists>out m n. send_delta ctx arch' H mmap_ok is_resend fct file_len source splits (sum_head_from_signature sig) (wire_blocks sig) =
      Inr (Sent (sum_head_write (sum_head_from_signature sig) @ out @ finalize_into H (cv_update source (file_verifier ctx))) m n) \<and>
    m + n = length source \<and> (\<forall>rest. stream_output (Some (sig, basis)) (out @ rest) = Inr (source, rest))"
proof -
  define config where "config = \<lparr>dgc_block_length = sh_blength (sum_head_from_signature sig), dgc_sig_blocks = wire_blocks sig,
      dgc_strong_sum_length = ucast (sh_s2length (sum_head_from_signature sig)),
      dgc_protocol = sc_protocol ctx, dgc_negotiated_algorithms = sc_negotiated_algorithms ctx,
      dgc_compat_flags = sc_compat_flags ctx, dgc_checksum_seed = sc_checksum_seed ctx,
      dgc_updating_basis_file = updating_basis_file (sc_inplace ctx) (sc_inplace_partial ctx)
        (sc_backup ctx \<and> \<not> is_resend) (sc_protocol ctx) fct\<rparr>"
  have sig: "layout_fits (fs_layout sig) (length basis)" "unat (sl_block_count (fs_layout sig)) < 2 ^ 31"
    "sl_strong_sum_length (fs_layout sig) \<le> 16" using assms(1) by (auto simp: basis_signature_def)
  have "(ucast (of_nat (sl_strong_sum_length (fs_layout sig)) :: u32) :: u8) = of_nat (sl_strong_sum_length (fs_layout sig))"
    using sig(3) by (simp add: word_eq_iff_unsigned unsigned_ucast_eq unsigned_of_nat take_bit_nat_eq_self)
  then obtain ix where ix: "build_signature_index config = Inr ix" "scan_env H basis source ix"
    "di_block_length ix = unat (sl_block_length (fs_layout sig))"
    using wire_index [OF assms(1) _ assms(3-6), of config] assms(2)
    by (auto simp: config_def sum_head_from_signature_def Let_def transfer_algorithm_def hashes_ok_def)
  let ?g = "config_generator config"
  have g: "0 < dg_buffer_len ?g" by (simp add: config_generator_def dg_new_def with_updating_basis_file_def with_consecutive_match_needed_def DEFAULT_BUFFER_LEN_def)
  have c: "reader_ok (cursor_of ?g ix source)" "reader_bytes (cursor_of ?g ix source) = source"
    using cursor_reader_ok [of "max (dg_buffer_len ?g) (di_block_length ix)"] g by (auto simp: cursor_of_def)
  have "\<exists>script. generate_delta_from_signature arch' H splits config = Inr script \<and>
      delta_ok ?g (unat (sl_block_length (fs_layout sig))) basis source script"
    using generate_ok [of H basis splits ix ?g arch'] ix assms(7,8) by (auto simp: generate_delta_from_signature_def index_error_def)
  moreover have "\<exists>script. generate_delta_from_signature_chunked arch' H source config mc = Inr script \<and>
      delta_ok ?g (unat (sl_block_length (fs_layout sig))) basis source script" for mc
    using generate_ok [of H basis "cursor_of ?g ix source" ix ?g arch'] generate_chunked_ok [OF ix(2) g, of arch' mc] ix c
    by (auto simp: generate_delta_from_signature_chunked_def index_error_def)
  ultimately obtain script where s:
    "(if (sc_parallel_delta_scan ctx \<and> should_parallel_delta file_len (sh_blength (sum_head_from_signature sig)) (sc_cores ctx)) \<and> mmap_ok
      then generate_delta_from_signature_chunked arch' H source config (min (sc_cores ctx) PARALLEL_DELTA_MAX_CHUNKS)
      else generate_delta_from_signature arch' H splits config) = Inr script"
    "delta_ok ?g (unat (sl_block_length (fs_layout sig))) basis source script"
    by (metis (full_types))
  note ops = wire_ops_script [OF sig(1,2) s(2)]
  have bl: "sh_blength (sum_head_from_signature sig) = sl_block_length (fs_layout sig)" by (simp add: sum_head_from_signature_def Let_def)
  from write_delta_inline_ok [OF ops, of H "get_checksum_algorithm (sc_negotiated_algorithms ctx) (sc_protocol ctx)" "sc_checksum_seed ctx" "sc_protocol ctx"]
  obtain m n where w: "write_delta_with_inline_checksum H (script_to_wire_delta script (sl_block_length (fs_layout sig))) source
      (get_checksum_algorithm (sc_negotiated_algorithms ctx) (sc_protocol ctx)) (sc_checksum_seed ctx) (sc_protocol ctx) =
    Inr (write_token_stream (script_to_wire_delta script (sl_block_length (fs_layout sig))),
      finalize_into H (cv_update source (file_verifier ctx)), m, n)" "m + n = length source" unfolding verifier_both by blast
  show ?thesis
    unfolding send_delta_def Let_def config_def [symmetric] s(1) unfolding bl
    using w stream_output_ops [OF ops(1), unfolded ops(2)] by (auto simp: index_error_def)
qed

lemma sum_head_valid_signature:
  assumes "basis_signature arch H alg basis sig"
  shows "sum_head_valid (sum_head_from_signature sig)"
proof -
  have s: "layout_fits (fs_layout sig) (length basis)" "unat (sl_block_count (fs_layout sig)) < 2 ^ 31"
    "unat (sl_block_length (fs_layout sig)) \<le> 2 ^ 17" "sl_strong_sum_length (fs_layout sig) \<le> 16"
    using assms by (auto simp: basis_signature_def)
  then have "unat (ucast (sl_block_count (fs_layout sig)) :: u32) = unat (sl_block_count (fs_layout sig))"
    "unat (of_nat (sl_strong_sum_length (fs_layout sig)) :: u32) = sl_strong_sum_length (fs_layout sig)"
    by (simp_all add: unat_ucast_small unat_of_nat take_bit_nat_eq_self)
  then show ?thesis using s by (simp add: sum_head_valid_def sum_head_from_signature_def Let_def layout_fits_def)
qed

lemma recv_setup_signature:
  "basis_signature arch H alg basis sig \<Longrightarrow> length basis < 2 ^ 63 \<Longrightarrow> recv_setup (Some (sig, basis))"
  by (auto simp: recv_setup_def basis_signature_def)

lemma read_blocks_request:
  assumes "basis_signature arch H alg basis sig" "sl_block_count (fs_layout sig) \<noteq> 0" "\<forall>k. \<exists>k'. keepalive k = Inr k'"
  shows "\<exists>k'. read_signature_blocks_keepalive (sum_head_from_signature sig) lull_mod keepalive k
      (write_signature_blocks sig (sh_s2length (sum_head_from_signature sig)) @ rest) = Inr ((wire_blocks sig, k'), rest)"
proof -
  let ?h = "sum_head_from_signature sig" and ?l = "fs_layout sig"
  have s: "length (fs_blocks sig) = unat (sl_block_count ?l)" "unat (sl_block_count ?l) < 2 ^ 31" "sl_strong_sum_length ?l \<le> 16"
    using assms(1) by (auto simp: basis_signature_def)
  then have h: "unat (sh_count ?h) = length (fs_blocks sig)" "unat (sh_s2length ?h) = sl_strong_sum_length ?l"
    by (simp_all add: sum_head_from_signature_def Let_def unat_ucast_small unat_of_nat take_bit_nat_eq_self)
  have "\<not> sum_head_is_empty ?h" using h(1) s(1) assms(2) by (auto simp: sum_head_is_empty_def unat_eq_0)
  then show ?thesis
    using read_blocks_loop_keepalive [OF assms(3), of "sl_strong_sum_length ?l" lull_mod k 0 "fs_blocks sig" rest] h
    by (simp add: read_signature_blocks_keepalive_def write_signature_blocks_def wire_blocks_def)
qed

text \<open>Any answer whose stream denotes the source is received as the source.\<close>

lemma receive_response_ok:
  assumes "recv_setup sb" "kernel_ok K" "length source + 2 ^ 17 \<le> I64_MAX" "hashes_ok H ctx" "sum_head_valid h"
    "\<And>rest. stream_output sb (out @ rest) = Inr (source, rest)" "sparse \<Longrightarrow> file_len = length source"
  shows "\<exists>f st. receive_response H K fallocates (sc_negotiated_algorithms ctx) (sc_protocol ctx) (sc_checksum_seed ctx) sparse sb
      file_len ((sum_head_write h @ out @ finalize_into H (cv_update source (file_verifier ctx))) @ rest) = Inr ((f, st), rest) \<and>
    of_bytes f = source \<and> bytes_written st = length source \<and> literal_bytes st + matched_bytes st = length source"
proof -
  let ?d = "finalize_into H (cv_update source (file_verifier ctx))"
  have b: "stream_bound sb (out @ ?d @ rest) \<le> I64_MAX" using assms(3,6) by (simp add: stream_bound_def)
  have len: "read_exact (cv_digest_len (file_verifier ctx)) (?d @ rest) = Inr (?d, rest)"
    using assms(4) by (intro read_exact_append) (simp add: hashes_ok_def)
  have "\<not> (sparse \<and> length source \<noteq> file_len)" using assms(7) by auto
  then show ?thesis
    using receive_file_exact [OF assms(1,2) b, where negotiated = "sc_negotiated_algorithms ctx" and protocol = "sc_protocol ctx" and
        seed = "sc_checksum_seed ctx" and H = H and use_sparse = sparse and file_len = file_len and fallocates = fallocates]
      len sum_head_read_write [OF assms(5), of "out @ ?d @ rest"]
    by (cases sparse) (simp_all add: receive_response_def file_verifier_def [symmetric] assms(6))
qed

text \<open>What an answer must be: the header, a stream that denotes the source, and its checksum.\<close>

lemma send_file_ok:
  assumes "sb = signed_basis threads arch H parallel ctx checksum_length basis"
    "\<And>sig b. sb = Some (sig, b) \<Longrightarrow> wire_collision_free H (transfer_algorithm ctx) (fs_layout sig) b source"
    "hashes_ok H ctx" "30 \<le> sc_protocol ctx" "1 \<le> checksum_length" "\<not> sc_append ctx"
    "\<And>b. basis = Some b \<Longrightarrow> length b < 2 ^ 63" "length source < 2 ^ 63"
    "reader_ok splits" "reader_bytes splits = source" "\<forall>k. \<exists>k'. keepalive k = Inr k'"
  shows "\<exists>h out m n k'. send_file ctx arch' H mmap_ok is_resend fct allowed_lull keepalive k (length source) source splits stream_buf
        (request_sums False (map_option fst sb) @ rest) =
      Inr (Sent (sum_head_write h @ out @ finalize_into H (cv_update source (file_verifier ctx))) m n, k', rest) \<and>
    m + n = length source \<and> sum_head_valid h \<and> recv_setup sb \<and> (\<forall>rest. stream_output sb (out @ rest) = Inr (source, rest))"
proof -
  obtain whole where w: "stream_whole_file_transfer H source (length source) (get_checksum_algorithm (sc_negotiated_algorithms ctx) (sc_protocol ctx))
        (sc_checksum_seed ctx) (sc_protocol ctx) stream_buf = Inr (whole, finalize_into H (cv_update source (file_verifier ctx)))"
    "stream_output sb (whole @ rest) = Inr (source, rest)" for sb rest
    using whole_file_stream [of "length source" source] by (metis order_refl take_all verifier_both)
  show ?thesis
  proof (cases sb)
    case None
    have "sum_head_valid sum_head_empty" by (simp add: sum_head_valid_def sum_head_empty_def)
    then show ?thesis
      using None w assms(6) sum_head_read_write [of sum_head_empty rest]
      by (auto simp: send_file_def request_sums_def index_error_def read_signature_blocks_keepalive_def sum_head_is_empty_def
          sum_head_empty_def recv_setup_def Let_def)
  next
    case (Some p)
    obtain sig b where p: "p = (sig, b)" by fastforce
    then have g: "generate_basis_signature threads arch H parallel b (length b) (signature_config ctx checksum_length) = Some sig" "basis = Some b"
      using Some assms(1) by (auto simp: signed_basis_def split: option.splits)
    have b: "length b < 2 ^ 63" "length b < 2 ^ 64" using assms(7) [OF g(2)] by simp_all
    have sig: "basis_signature arch H (transfer_algorithm ctx) b sig"
      using generate_basis_signature_ok [OF g(1) b(2)] assms(3,4,5) by (simp add: signature_config_def hashes_ok_def)
    note valid = sum_head_valid_signature [OF sig] and setup_ok = recv_setup_signature [OF sig b(1)]
    let ?h = "sum_head_from_signature sig"
    note head = sum_head_read_write [OF valid]
    show ?thesis
    proof (cases "sl_block_count (fs_layout sig) = 0")
      case True
      then have "sum_head_is_empty ?h" "fs_blocks sig = []"
        using sig by (auto simp: sum_head_is_empty_def sum_head_from_signature_def Let_def basis_signature_def)
      then show ?thesis
        using Some p w assms(6) head [of rest] valid setup_ok
        by (auto simp: send_file_def request_sums_def index_error_def read_signature_blocks_keepalive_def write_signature_blocks_def Let_def)
    next
      case False
      have ne: "\<not> sum_head_is_empty ?h" using False sig
        by (auto simp: sum_head_is_empty_def sum_head_from_signature_def Let_def basis_signature_def unat_eq_0 [symmetric] unat_ucast_small)
      obtain k' where blocks: "read_signature_blocks_keepalive ?h (signature_read_lull_mod (sc_protocol ctx) allowed_lull) keepalive k
          (write_signature_blocks sig (sh_s2length ?h) @ rest) = Inr ((wire_blocks sig, k'), rest)"
        using read_blocks_request [OF sig False assms(11)] by blast
      have "length source < 2 ^ 64" using assms(8) by simp
      from send_delta_ok [OF sig assms(3) assms(2) b(2) this False assms(9,10), of arch' mmap_ok is_resend fct "length source"] Some p
      obtain out m n where d: "send_delta ctx arch' H mmap_ok is_resend fct (length source) source splits ?h (wire_blocks sig) =
          Inr (Sent (sum_head_write ?h @ out @ finalize_into H (cv_update source (file_verifier ctx))) m n)"
        "m + n = length source" "\<And>rest. stream_output (Some (sig, b)) (out @ rest) = Inr (source, rest)" by blast
      have "send_file ctx arch' H mmap_ok is_resend fct allowed_lull keepalive k (length source) source splits stream_buf
          (request_sums False (map_option fst sb) @ rest) =
        Inr (Sent (sum_head_write ?h @ out @ finalize_into H (cv_update source (file_verifier ctx))) m n, k', rest)"
        using Some p assms(6) ne blocks d(1) head
        by (simp add: send_file_def request_sums_def index_error_def Let_def)
      then show ?thesis using d valid setup_ok Some p by blast
    qed
  qed
qed

lemma send_append_ok:
  assumes "sb = signed_basis threads arch H parallel ctx checksum_length basis" "sb = Some (sig, b)" "b \<noteq> []"
    "hashes_ok H ctx" "30 \<le> sc_protocol ctx" "1 \<le> checksum_length" "sc_append ctx" "\<not> sc_append_verify ctx" "\<not> is_resend"
    "length b < 2 ^ 63" "length b \<le> length source"
  shows "\<exists>h out m n. send_file ctx arch' H mmap_ok is_resend fct allowed_lull keepalive k (length source) source splits stream_buf
        (request_sums True (map_option fst sb) @ rest) =
      Inr (Sent (sum_head_write h @ out @ finalize_into H (cv_update (drop (length b) source) (file_verifier ctx))) m n, k, rest) \<and>
    sum_head_valid h \<and> recv_setup sb \<and> (\<forall>rest. stream_output sb (out @ rest) = Inr (drop (length b) source, rest))"
proof -
  have g: "generate_basis_signature threads arch H parallel b (length b) (signature_config ctx checksum_length) = Some sig"
    using assms(2) unfolding assms(1) by (auto simp: signed_basis_def split: option.splits)
  have b: "length b < 2 ^ 64" using assms(10) by simp
  have sig: "basis_signature arch H (transfer_algorithm ctx) b sig"
    using generate_basis_signature_ok [OF g b] assms(4,5,6) by (simp add: signature_config_def hashes_ok_def)
  note valid = sum_head_valid_signature [OF sig] and setup_ok = recv_setup_signature [OF sig assms(10)]
  let ?h = "sum_head_from_signature sig"
  have s: "layout_fits (fs_layout sig) (length b)" "unat (sl_block_count (fs_layout sig)) < 2 ^ 31" using sig by (auto simp: basis_signature_def)
  then have "sl_block_count (fs_layout sig) \<noteq> 0" using assms(3) by (auto simp: layout_fits_def Let_def)
  then have ne: "\<not> sum_head_is_empty ?h" using s(2)
    by (auto simp: sum_head_is_empty_def sum_head_from_signature_def Let_def unat_eq_0 [symmetric] unat_ucast_small)
  have fl: "min (unat (flength ?h)) (length source) = length b" using flength_is_file_length [OF s] assms(11) by simp
  from append_stream [OF refl assms(11), of H False "get_checksum_algorithm (sc_negotiated_algorithms ctx) (sc_protocol ctx)"
      "sc_checksum_seed ctx" "sc_protocol ctx" stream_buf]
  obtain out where o: "stream_append_transfer H source (length source) (length b) False (get_checksum_algorithm (sc_negotiated_algorithms ctx) (sc_protocol ctx))
        (sc_checksum_seed ctx) (sc_protocol ctx) stream_buf = Inr (out, finalize_into H (cv_update (drop (length b) source) (file_verifier ctx)))"
    "\<And>sb rest. stream_output sb (out @ rest) = Inr (drop (length b) source, rest)"
    unfolding verifier_both by auto
  have "send_file ctx arch' H mmap_ok is_resend fct allowed_lull keepalive k (length source) source splits stream_buf
        (request_sums True (map_option fst sb) @ rest) =
      Inr (Sent (sum_head_write ?h @ out @ finalize_into H (cv_update (drop (length b) source) (file_verifier ctx))) 0 (length source - length b), k, rest)"
    using assms(2,7,8,9) ne o(1) fl sum_head_read_write [OF valid]
    by (simp add: send_file_def request_sums_def index_error_def source_diminished_below_flist_def Let_def)
  then show ?thesis using o(2) valid setup_ok assms(2) by blast
qed

section \<open>A concrete transfer\<close>

definition demo_crates :: hash_crates where
  "demo_crates = (let h = (\<lambda>d. replicate 16 (if d = replicate 700 7 then 1 else 0))
     in toy_crates\<lparr>md4_hash := h, md4_digest_batch := map h\<rparr>)"

definition demo_context :: "bool \<Rightarrow> SenderContext" where
  "demo_context append_mode = \<lparr>sc_protocol = 31, sc_negotiated_algorithms = Some MD4, sc_compat_flags = None, sc_checksum_seed = 0,
     sc_append = append_mode, sc_append_verify = False, sc_inplace = False, sc_inplace_partial = False, sc_backup = False,
     sc_parallel_delta_scan = False, sc_cores = 1\<rparr>"

lemma demo_algorithm: "transfer_algorithm (demo_context a) = Md4" "file_verifier (demo_context a) = CvMd4 []"
  by (simp_all add: transfer_algorithm_def signature_algorithm_def from_negotiation_def demo_context_def file_verifier_def cv_new_def
      for_algorithm_seeded_def for_algorithm_def uses_varint_encoding_def)

lemma demo_hashes: "hashes_ok demo_crates (demo_context a)"
proof -
  have "length (md4_hash demo_crates d) = 16" for d by (simp add: demo_crates_def Let_def)
  moreover have "batch_ok demo_crates" by (simp add: batch_ok_def demo_crates_def toy_crates_def Let_def)
  ultimately show ?thesis
    by (simp add: hashes_ok_def digest_widths_def demo_algorithm compute_truncated_def finalize_into_def cv_update_def cv_digest_len_def
        as_slice_db_def from_slice_def digest_len_def DIGEST_MAX_LEN_def Let_def)
qed

lemma demo_basis:
  "\<exists>sig. signed_basis 1 Other_arch demo_crates False (demo_context a) 2 (Some (replicate 700 7)) = Some (sig, replicate 700 7) \<and>
    fs_layout sig = \<lparr>sl_block_length = 700, sl_remainder = 0, sl_block_count = 1, sl_strong_sum_length = 2\<rparr>"
proof -
  let ?l = "\<lparr>sl_block_length = 700, sl_remainder = 0, sl_block_count = 1, sl_strong_sum_length = 2\<rparr>"
  define b :: bytes where "b = replicate 700 7"
  have len: "length b = 700" by (simp add: b_def)
  have "calculate_signature_layout ((layout_params_new 700 None 31 2)\<lparr>slp_transfer_digest_length := 16\<rparr>) = Inr ?l" by code_simp
  moreover have "layout_fits ?l (length b)" unfolding len by (simp add: layout_fits_def)
  note generate_file_signature_blocks [OF this, of demo_crates Md4 Other_arch "[]"]
  ultimately show ?thesis
    using demo_hashes [of a] unfolding b_def [symmetric]
    by (simp add: signed_basis_def generate_basis_signature_def signature_config_def demo_algorithm compute_basis_signature_def hashes_ok_def
        effective_s2length_def flags_contains_def CONSECUTIVE_MATCH_def digest_len_def Let_def len)
       (simp add: demo_context_def effective_s2length_def compute_basis_signature_def flags_contains_def CONSECUTIVE_MATCH_def Let_def)
qed

section \<open>Properties\<close>

text \<open>C1: one file, end to end.  The receiver signs its basis, if it has one, sequentially or in parallel, and sends the
  signature; the sender reads it, with any keepalives in between, and answers with a delta, generated
  sequentially or in parallel, or with the whole file; the receiver applies the answer, sparse or not, with or
  without kernel copies.  Both succeed, both leave their streams at the next message, and the received file is
  the source, byte for byte; the sender's statistics add up to its length.  This is for protocol 30 and later and
  without append mode.  The other hypotheses are the widths of the hash functions, the absence of a collision between the
  basis blocks and the windows of this source, and that keepalives can be sent.\<close>

theorem transfer_delivers:
  assumes "sb = signed_basis threads arch H parallel ctx checksum_length basis"
    "\<And>sig b. sb = Some (sig, b) \<Longrightarrow> wire_collision_free H (transfer_algorithm ctx) (fs_layout sig) b source"
    "hashes_ok H ctx" "30 \<le> sc_protocol ctx" "1 \<le> checksum_length" "\<not> sc_append ctx"
    "\<And>b. basis = Some b \<Longrightarrow> length b < 2 ^ 63" "length source + 2 ^ 17 \<le> I64_MAX"
    "reader_ok splits" "reader_bytes splits = source" "\<forall>k. \<exists>k'. keepalive k = Inr k'" "kernel_ok K"
  shows "\<exists>answer m n k' f st.
    send_file ctx arch' H mmap_ok is_resend fct allowed_lull keepalive k (length source) source splits stream_buf
      (request_sums False (map_option fst sb) @ rest) = Inr (Sent answer m n, k', rest) \<and> m + n = length source \<and>
    receive_response H K fallocates (sc_negotiated_algorithms ctx) (sc_protocol ctx) (sc_checksum_seed ctx) sparse sb
      (length source) (answer @ rest') = Inr ((f, st), rest') \<and> of_bytes f = source"
proof -
  have "length source < 2 ^ 63" using assms(8) by (simp add: I64_MAX_def)
  from send_file_ok [OF assms(1-7) this assms(9-11), of arch' mmap_ok is_resend fct allowed_lull k stream_buf rest]
  obtain h out m n k' where s: "send_file ctx arch' H mmap_ok is_resend fct allowed_lull keepalive k (length source) source splits stream_buf
        (request_sums False (map_option fst sb) @ rest) =
      Inr (Sent (sum_head_write h @ out @ finalize_into H (cv_update source (file_verifier ctx))) m n, k', rest)"
    "m + n = length source" "sum_head_valid h" "recv_setup sb" "\<And>rest. stream_output sb (out @ rest) = Inr (source, rest)" by blast
  from receive_response_ok [OF s(4) assms(12,8,3) s(3,5), where sparse = sparse and file_len = "length source" and fallocates = fallocates and rest = rest', OF refl] s(1,2) show ?thesis by blast
qed

theorem transfer_delivers_witness:
  "\<exists>sig answer m n k f st.
    signed_basis 1 Other_arch demo_crates False (demo_context False) 2 (Some (replicate 700 7)) = Some (sig, replicate 700 7) \<and>
    send_file (demo_context False) Other_arch demo_crates False False None None (\<lambda>k. Inr (k + 1 :: nat)) 0 702 (3 # replicate 700 7 @ [4])
      [Inr [3], Inr (replicate 700 7 @ [4])] [] (request_sums False (Some sig) @ [8]) = Inr (Sent answer m n, k, [8]) \<and>
    receive_response demo_crates \<lparr>kc_same_fs = False, kc_clone = (\<lambda>_ _ _. False), kc_copy = (\<lambda>_ _ _. 0)\<rparr> (\<lambda>_ _ _. False) (Some MD4) 31 0 False
      (Some (sig, replicate 700 7)) 702 (answer @ [9]) = Inr ((f, st), [9]) \<and> of_bytes f = 3 # replicate 700 7 @ [4]"
proof -
  define b :: bytes where "b = replicate 700 7"
  define src where "src = 3 # b @ [4]"
  obtain sig where sig: "signed_basis 1 Other_arch demo_crates False (demo_context False) 2 (Some b) = Some (sig, b)"
    "fs_layout sig = \<lparr>sl_block_length = 700, sl_remainder = 0, sl_block_count = 1, sl_strong_sum_length = 2\<rparr>"
    using demo_basis unfolding b_def by blast
  have len: "length b = 700" "length src = 702" "b \<noteq> []" by (simp_all add: b_def src_def)
  have chunk: "block_chunk (fs_layout sig) b 0 = b" using len(1) by (simp add: block_chunk_def sig(2))
  have digest: "as_slice_db (compute_truncated demo_crates Md4 d 2) = [if d = b then 1 else 0, if d = b then 1 else 0]" for d
    by (simp add: compute_truncated_def demo_crates_def Let_def as_slice_db_def from_slice_def DIGEST_MAX_LEN_def digest_len_def b_def numeral_2_eq_2)
  have free: "wire_collision_free demo_crates (transfer_algorithm (demo_context False)) (fs_layout sig) b src"
    unfolding wire_collision_free_def demo_algorithm using chunk digest by (auto simp: sig(2) split: if_splits)
  have r: "reader_ok [Inr [3], Inr (b @ [4])]" "reader_bytes [Inr [3], Inr (b @ [4])] = src" "length src + 2 ^ 17 \<le> I64_MAX" "length b < 2 ^ 63"
    using len by (simp_all add: src_def I64_MAX_def)
  have k: "\<forall>k. \<exists>k'. (\<lambda>k. Inr (k + 1 :: nat)) k = (Inr k' :: io_error + nat)"
    "kernel_ok \<lparr>kc_same_fs = False, kc_clone = (\<lambda>_ _ _. False), kc_copy = (\<lambda>_ _ _. 0)\<rparr>" by (simp_all add: kernel_ok_def)
  have c: "30 \<le> sc_protocol (demo_context False)" "\<not> sc_append (demo_context False)" "sc_negotiated_algorithms (demo_context False) = Some MD4"
    "sc_protocol (demo_context False) = 31" "sc_checksum_seed (demo_context False) = 0" by (simp_all add: demo_context_def)
  from transfer_delivers [OF sig(1) [symmetric] _ demo_hashes c(1) _ c(2) _ r(3,1,2) k, of Other_arch False False None None 0 "[]" "[8]"
      "\<lambda>_ _ _. False" False "[9]"] free r(4)
  show ?thesis using sig(1) unfolding c(3-5) len(2) b_def [symmetric] src_def [symmetric] by fastforce
qed

text \<open>C22: the synchronous receiver loses the beginning of a file in append mode.  It asks for the end of the file only,
  by sending its header without the blocks, but then builds the new file from the answer alone: the sender
  sends what follows the existing length, without error on either side, and the received file is that tail
  instead of the source.\<close>

theorem sync_append_keeps_only_tail:
  assumes "sb = signed_basis threads arch H parallel ctx checksum_length basis" "sb = Some (sig, b)" "b \<noteq> []"
    "hashes_ok H ctx" "30 \<le> sc_protocol ctx" "1 \<le> checksum_length" "sc_append ctx" "\<not> sc_append_verify ctx" "\<not> is_resend"
    "length b < 2 ^ 63" "length b \<le> length source" "length source + 2 ^ 17 \<le> I64_MAX" "kernel_ok K"
  shows "\<exists>answer m n f st.
    send_file ctx arch' H mmap_ok is_resend fct allowed_lull keepalive k (length source) source splits stream_buf
      (request_sums True (map_option fst sb) @ rest) = Inr (Sent answer m n, k, rest) \<and>
    receive_response H K fallocates (sc_negotiated_algorithms ctx) (sc_protocol ctx) (sc_checksum_seed ctx) False sb
      (length source) (answer @ rest') = Inr ((f, st), rest') \<and> of_bytes f = drop (length b) source"
proof -
  from send_append_ok [OF assms(1-11), of arch' mmap_ok fct allowed_lull keepalive k splits stream_buf rest]
  obtain h out m n where s: "send_file ctx arch' H mmap_ok is_resend fct allowed_lull keepalive k (length source) source splits stream_buf
        (request_sums True (map_option fst sb) @ rest) =
      Inr (Sent (sum_head_write h @ out @ finalize_into H (cv_update (drop (length b) source) (file_verifier ctx))) m n, k, rest)"
    "sum_head_valid h" "recv_setup sb" "\<And>rest. stream_output sb (out @ rest) = Inr (drop (length b) source, rest)" by blast
  have "length (drop (length b) source) + 2 ^ 17 \<le> I64_MAX" using assms(12) by simp
  from receive_response_ok [OF s(3) assms(13) this assms(4) s(2,4), where sparse = False and file_len = "length source" and fallocates = fallocates and rest = rest'] s(1)
  show ?thesis by blast
qed

theorem sync_append_keeps_only_tail_witness:
  "\<exists>sig answer m n f st.
    send_file (demo_context True) Other_arch demo_crates False False None None (\<lambda>k. Inr k) () 702 (replicate 700 7 @ [3, 4]) [] []
      (request_sums True (Some sig) @ [8]) = Inr (Sent answer m n, (), [8]) \<and>
    receive_response demo_crates \<lparr>kc_same_fs = False, kc_clone = (\<lambda>_ _ _. False), kc_copy = (\<lambda>_ _ _. 0)\<rparr> (\<lambda>_ _ _. False) (Some MD4) 31 0 False
      (Some (sig, replicate 700 7)) 702 (answer @ [9]) = Inr ((f, st), [9]) \<and> of_bytes f = [3, 4]"
proof -
  define b :: bytes where "b = replicate 700 7"
  define src where "src = b @ [3, 4]"
  obtain sig where sig: "signed_basis 1 Other_arch demo_crates False (demo_context True) 2 (Some b) = Some (sig, b)"
    using demo_basis unfolding b_def by blast
  have len: "length b = 700" "length src = 702" "drop 700 src = [3, 4]" "b \<noteq> []" by (simp_all add: b_def src_def)
  have r: "length src + 2 ^ 17 \<le> I64_MAX" "length b < 2 ^ 63" "length b \<le> length src" using len(1,2) by (simp_all add: I64_MAX_def)
  have k: "kernel_ok \<lparr>kc_same_fs = False, kc_clone = (\<lambda>_ _ _. False), kc_copy = (\<lambda>_ _ _. 0)\<rparr>" by (simp add: kernel_ok_def)
  have c: "30 \<le> sc_protocol (demo_context True)" "sc_append (demo_context True)" "\<not> sc_append_verify (demo_context True)"
    "sc_negotiated_algorithms (demo_context True) = Some MD4" "sc_protocol (demo_context True) = 31"
    "sc_checksum_seed (demo_context True) = 0" by (simp_all add: demo_context_def)
  have l: "1 \<le> (2 :: nat)" "\<not> False" by simp_all
  from sync_append_keeps_only_tail [OF sig [symmetric] refl len(4) demo_hashes c(1) l(1) c(2,3) l(2) r(2,3,1) k, of Other_arch False None None
      "\<lambda>k. Inr k" "()" "[]" "[]" "[8]" "\<lambda>_ _ _. False" "[9]"]
  show ?thesis unfolding c(4-6) len(1,2,3) b_def [symmetric] src_def [symmetric] option.map fst_conv by blast
qed

end
