(* ===== verification/Disk_Commit.thy ===== *)
theory Disk_Commit
  imports Sender
begin

text \<open>
  The disk commit thread of the pipelined receiver, \<open>crates/transfer/src/disk_commit\<close>, and its messages,
  \<open>crates/transfer/src/pipeline/messages.rs\<close>: the reusable buffered writer, and how the thread opens, writes,
  verifies and commits one file after another, with backups, delayed updates and partial files.

  The files that belong to one destination path are the fields of a record, and the file system maps paths to
  such records: different destinations have different backup, partial and staging names.  Every step of a file
  may fail, as \<open>disk_faults\<close> says: making the backup (before an in-place update, or in the commit), opening the
  output, opening the prefix for reading, writing or skipping a chunk, flushing, renaming the temporary file to
  its destination or staging name, setting the length of an in-place file, and keeping a partial file.  A call that
  fails leaves the files as they were (the copy that replaces a rename across file systems is taken as one call).
  The writer is the buffered one, the only one that in-place and
  append transfers use.  Sparse writing (see \<open>Sparse\<close>) and metadata are left out, and preallocation, which keeps
  the length of the file.
\<close>

section \<open>The buffered writer\<close>

definition WRITE_BUF_SIZE :: nat where "WRITE_BUF_SIZE = 256 * 1024"
definition DIRECT_WRITE_THRESHOLD :: nat where "DIRECT_WRITE_THRESHOLD = 8 * 1024"

record BufWriter =
  bw_file :: out_file
  bw_buf :: bytes

definition bw_new :: "out_file \<Rightarrow> BufWriter" where
  "bw_new f = \<lparr>bw_file = f, bw_buf = []\<rparr>"

definition write_all_vectored :: "out_file \<Rightarrow> bytes \<Rightarrow> bytes \<Rightarrow> out_file" where
  "write_all_vectored f first second = of_write second (of_write first f)"

definition bw_write :: "bytes \<Rightarrow> BufWriter \<Rightarrow> BufWriter" where
  "bw_write data w =
    (if DIRECT_WRITE_THRESHOLD \<le> length data
     then if bw_buf w \<noteq> []
          then \<lparr>bw_file = write_all_vectored (bw_file w) (bw_buf w) data, bw_buf = []\<rparr>
          else w\<lparr>bw_file := of_write data (bw_file w)\<rparr>
     else if length (bw_buf w) + length data \<le> WRITE_BUF_SIZE then w\<lparr>bw_buf := bw_buf w @ data\<rparr>
     else \<lparr>bw_file = of_write (bw_buf w) (bw_file w), bw_buf = data\<rparr>)"

definition bw_flush :: "BufWriter \<Rightarrow> BufWriter" where
  "bw_flush w = (if bw_buf w \<noteq> [] then \<lparr>bw_file = of_write (bw_buf w) (bw_file w), bw_buf = []\<rparr> else w)"

definition bw_seek_current :: "nat \<Rightarrow> BufWriter \<Rightarrow> BufWriter" where
  "bw_seek_current n w =
    (let w = bw_flush w in w\<lparr>bw_file := (bw_file w)\<lparr>of_pos := of_pos (bw_file w) + n\<rparr>\<rparr>)"

definition skip_matched :: "nat \<Rightarrow> BufWriter \<Rightarrow> BufWriter" where
  "skip_matched len w = bw_seek_current len w"

section \<open>Messages and configuration\<close>

type_synonym path = string

record BeginMessage =
  bg_file_path :: path
  bg_target_size :: nat
  bg_file_entry_index :: nat
  bg_checksum_verifier :: "ChecksumVerifier option"
  bg_is_device_target :: bool
  bg_is_inplace :: bool
  bg_append_offset :: nat

text \<open>An expected checksum is the list of its valid bytes.\<close>

datatype FileMessage =
    Begin BeginMessage
  | Chunk bytes
  | SkipMatched bytes
  | Commit bytes
  | WholeFile BeginMessage bytes bytes
  | Abort
  | Shutdown

datatype PartialMode = PartialNone | Partial | PartialDir

datatype disk_error =
  De_PermissionDenied | De_NotFound | De_Os nat | De_Io io_error | De_Interrupted | De_BrokenPipe | De_Other

record DiskCommitConfig =
  dc_append_verify :: bool
  dc_partial_mode :: PartialMode
  dc_backup :: bool
  dc_delay_updates :: bool

record CommitResult =
  cr_bytes_written :: nat
  cr_file_entry_index :: nat
  cr_computed_checksum :: "bytes option"
  cr_delayed :: bool

type_synonym disk_result = "disk_error + CommitResult"

record disk_faults =
  fault_backup :: "BeginMessage \<Rightarrow> disk_error option"
  fault_open :: "BeginMessage \<Rightarrow> disk_error option"
  fault_prefix :: "BeginMessage \<Rightarrow> disk_error option"
  fault_write :: "BeginMessage \<Rightarrow> nat \<Rightarrow> disk_error option"
  fault_flush :: "BeginMessage \<Rightarrow> disk_error option"
  fault_rename :: "BeginMessage \<Rightarrow> disk_error option"
  fault_set_len :: "BeginMessage \<Rightarrow> disk_error option"
  fault_retain :: "BeginMessage \<Rightarrow> disk_error option"

definition no_faults :: disk_faults where
  "no_faults = \<lparr>fault_backup = \<lambda>_. None, fault_open = \<lambda>_. None, fault_prefix = \<lambda>_. None, fault_write = \<lambda>_ _. None,
    fault_flush = \<lambda>_. None, fault_rename = \<lambda>_. None, fault_set_len = \<lambda>_. None, fault_retain = \<lambda>_. None\<rparr>"

lemma no_faults_simps [simp]:
  "fault_backup no_faults b = None" "fault_open no_faults b = None" "fault_prefix no_faults b = None" "fault_write no_faults b n = None"
  "fault_flush no_faults b = None" "fault_rename no_faults b = None" "fault_set_len no_faults b = None" "fault_retain no_faults b = None"
  by (simp_all add: no_faults_def)

text \<open>The files of one destination: itself, its file in the partial directory, its staged update, its backup.\<close>

record dest_files =
  df_dest :: "bytes option"
  df_partial :: "bytes option"
  df_staging :: "bytes option"
  df_backup :: "bytes option"

text \<open>A file being written.  A temporary file is only its writer's; otherwise the writer's file is \<open>df_dest\<close>.\<close>

record open_file =
  op_begin :: BeginMessage
  op_writer :: BufWriter
  op_needs_rename :: bool
  op_verifier :: "ChecksumVerifier option"
  op_bytes_written :: nat

datatype disk_phase = Idle | Writing open_file | Discarding BeginMessage disk_error | Stopped

record disk_thread =
  dt_fs :: "path \<Rightarrow> dest_files"
  dt_phase :: disk_phase

section \<open>One file\<close>

definition dest_bytes :: "dest_files \<Rightarrow> bytes" where
  "dest_bytes fs = (case df_dest fs of Some b \<Rightarrow> b | None \<Rightarrow> [])"

definition share_dest :: "bool \<Rightarrow> BufWriter \<Rightarrow> dest_files \<Rightarrow> dest_files" where
  "share_dest needs_rename w fs = (if needs_rename then fs else fs\<lparr>df_dest := Some (of_bytes (bw_file w))\<rparr>)"

definition make_backup :: "disk_faults \<Rightarrow> BeginMessage \<Rightarrow> dest_files \<Rightarrow> disk_error + dest_files" where
  "make_backup fl begin_msg fs =
    (case df_dest fs of
       None \<Rightarrow> Inr fs
     | Some b \<Rightarrow> (case fault_backup fl begin_msg of Some e \<Rightarrow> Inl e | None \<Rightarrow> Inr (fs\<lparr>df_backup := Some b, df_dest := None\<rparr>)))"

definition make_backup_copy :: "dest_files \<Rightarrow> dest_files" where
  "make_backup_copy fs = (case df_dest fs of None \<Rightarrow> fs | Some b \<Rightarrow> fs\<lparr>df_backup := Some b\<rparr>)"

definition make_inplace_backup :: "disk_faults \<Rightarrow> BeginMessage \<Rightarrow> DiskCommitConfig \<Rightarrow> dest_files \<Rightarrow> disk_error + dest_files" where
  "make_inplace_backup fl begin_msg config fs =
    (if \<not> bg_is_inplace begin_msg \<or> dc_delay_updates config then Inr fs
     else if \<not> dc_backup config then Inr fs
     else if df_dest fs = None then Inr fs
     else case fault_backup fl begin_msg of Some e \<Rightarrow> Inl e | None \<Rightarrow> Inr (make_backup_copy fs))"

definition open_output_file :: "disk_faults \<Rightarrow> BeginMessage \<Rightarrow> dest_files \<Rightarrow> disk_error + (out_file \<times> bool)" where
  "open_output_file fl begin_msg fs =
    (case fault_open fl begin_msg of Some e \<Rightarrow> Inl e
     | None \<Rightarrow>
        if bg_is_device_target begin_msg
        then (case df_dest fs of None \<Rightarrow> Inl De_NotFound | Some b \<Rightarrow> Inr (\<lparr>of_bytes = b, of_pos = 0\<rparr>, False))
        else if bg_is_inplace begin_msg
        then Inr (\<lparr>of_bytes = dest_bytes fs, of_pos = (if 0 < bg_append_offset begin_msg then bg_append_offset begin_msg else 0)\<rparr>, False)
        else Inr (\<lparr>of_bytes = [], of_pos = 0\<rparr>, True))"

function sum_prefix_loop :: "nat \<Rightarrow> bytes \<Rightarrow> ChecksumVerifier \<Rightarrow> ChecksumVerifier io_result" where
  "sum_prefix_loop remaining source verifier =
    (if remaining = 0 then Inr verifier
     else let to_read = min (256 * 1024) remaining
          in case read_exact to_read source of
               Inl e \<Rightarrow> Inl e
             | Inr (data, source) \<Rightarrow> sum_prefix_loop (remaining - to_read) source (cv_update data verifier))"
  by auto
termination by (relation "measure (\<lambda>(remaining, source, verifier). remaining)") auto

declare sum_prefix_loop.simps [simp del]

definition sum_append_prefix ::
  "disk_faults \<Rightarrow> DiskCommitConfig \<Rightarrow> BeginMessage \<Rightarrow> dest_files \<Rightarrow> ChecksumVerifier option \<Rightarrow> disk_error + ChecksumVerifier option" where
  "sum_append_prefix fl config begin_msg fs verifier =
    (if \<not> dc_append_verify config \<or> bg_append_offset begin_msg = 0 then Inr verifier
     else case verifier of None \<Rightarrow> Inr None
          | Some v \<Rightarrow>
              (case fault_prefix fl begin_msg of Some e \<Rightarrow> Inl e
               | None \<Rightarrow> (case sum_prefix_loop (bg_append_offset begin_msg) (dest_bytes fs) v of
                           Inl e \<Rightarrow> Inl (De_Io e) | Inr v \<Rightarrow> Inr (Some v))))"

definition finalize_checksum :: "hash_crates \<Rightarrow> ChecksumVerifier option \<Rightarrow> bytes option" where
  "finalize_checksum H verifier = map_option (finalize_into H) verifier"

definition verify_whole_file_checksum :: "hash_crates \<Rightarrow> ChecksumVerifier option \<Rightarrow> bytes \<Rightarrow> bytes option \<times> bool" where
  "verify_whole_file_checksum H verifier expected =
    (let computed = finalize_checksum H verifier
     in (computed, case computed of Some c \<Rightarrow> if 0 < length expected then c = expected else True | None \<Rightarrow> True))"

definition retain_partial_file :: "disk_faults \<Rightarrow> BeginMessage \<Rightarrow> DiskCommitConfig \<Rightarrow> bytes \<Rightarrow> dest_files \<Rightarrow> dest_files" where
  "retain_partial_file fl begin_msg config temp fs =
    (case dc_partial_mode config of
       PartialNone \<Rightarrow> fs
     | Partial \<Rightarrow> if fault_retain fl begin_msg = None then fs\<lparr>df_dest := Some temp\<rparr> else fs
     | PartialDir \<Rightarrow> if fault_retain fl begin_msg = None then fs\<lparr>df_partial := Some temp\<rparr> else fs)"

definition withhold_failed_commit ::
  "disk_faults \<Rightarrow> DiskCommitConfig \<Rightarrow> BeginMessage \<Rightarrow> bytes \<Rightarrow> nat \<Rightarrow> bytes option \<Rightarrow> dest_files \<Rightarrow> CommitResult \<times> dest_files" where
  "withhold_failed_commit fl config begin_msg temp len computed fs =
    (\<lparr>cr_bytes_written = len, cr_file_entry_index = bg_file_entry_index begin_msg, cr_computed_checksum = computed, cr_delayed = False\<rparr>,
     retain_partial_file fl begin_msg config temp fs)"

definition set_len :: "nat \<Rightarrow> bytes \<Rightarrow> bytes" where
  "set_len n bs = take n bs @ replicate (n - length bs) 0"

definition remove_partial_dir_basis :: "DiskCommitConfig \<Rightarrow> dest_files \<Rightarrow> dest_files" where
  "remove_partial_dir_basis config fs = (if dc_partial_mode config = PartialDir then fs\<lparr>df_partial := None\<rparr> else fs)"

text \<open>\<open>temp\<close> is the content of the temporary file.  The result says whether the file was staged, or which
  step failed; the files are what that step left behind: after a failed rename the backup has already been made.\<close>

definition commit_file ::
  "disk_faults \<Rightarrow> BeginMessage \<Rightarrow> DiskCommitConfig \<Rightarrow> bytes \<Rightarrow> bool \<Rightarrow> nat \<Rightarrow> dest_files \<Rightarrow> (disk_error + bool) \<times> dest_files" where
  "commit_file fl begin_msg config temp needs_rename len fs =
    (case (if \<not> dc_delay_updates config \<and> \<not> bg_is_inplace begin_msg
           then if dc_backup config then make_backup fl begin_msg fs else Inr fs else Inr fs) of
       Inl e \<Rightarrow> (Inl e, fs)
     | Inr fs \<Rightarrow>
        if needs_rename \<and> dc_delay_updates config
        then (case fault_rename fl begin_msg of Some e \<Rightarrow> (Inl e, fs) | None \<Rightarrow> (Inr True, fs\<lparr>df_staging := Some temp\<rparr>))
        else
          (case (if needs_rename
                 then (case fault_rename fl begin_msg of Some e \<Rightarrow> Inl e | None \<Rightarrow> Inr (fs\<lparr>df_dest := Some temp\<rparr>))
                 else if bg_is_inplace begin_msg \<and> \<not> bg_is_device_target begin_msg
                 then let final_size = (if 0 < bg_append_offset begin_msg then bg_target_size begin_msg else len)
                      in (case fault_set_len fl begin_msg of Some e \<Rightarrow> Inl e
                          | None \<Rightarrow> Inr (fs\<lparr>df_dest := Some (set_len final_size (dest_bytes fs))\<rparr>))
                 else Inr fs) of
             Inl e \<Rightarrow> (Inl e, fs)
           | Inr fs \<Rightarrow> (Inr False, remove_partial_dir_basis config fs)))"

text \<open>Up to the first message of the body: the open file; or the error of the open, after which the messages of
  the file are discarded; or an error with which processing ends at once.\<close>

datatype begun = Begun open_file | Open_Failed disk_error | Begin_Failed disk_error

definition begin_file :: "disk_faults \<Rightarrow> DiskCommitConfig \<Rightarrow> BeginMessage \<Rightarrow> dest_files \<Rightarrow> begun \<times> dest_files" where
  "begin_file fl config begin_msg fs =
    (case make_inplace_backup fl begin_msg config fs of
       Inl e \<Rightarrow> (Begin_Failed e, fs)
     | Inr fs \<Rightarrow>
        (case open_output_file fl begin_msg fs of
           Inl e \<Rightarrow> (Open_Failed e, fs)
         | Inr (f, needs_rename) \<Rightarrow>
            let w = bw_new f; fs = share_dest needs_rename w fs
            in (case sum_append_prefix fl config begin_msg fs (bg_checksum_verifier begin_msg) of
                  Inl e \<Rightarrow> (Begin_Failed e, fs)
                | Inr verifier \<Rightarrow>
                    (Begun \<lparr>op_begin = begin_msg, op_writer = w, op_needs_rename = needs_rename, op_verifier = verifier,
                            op_bytes_written = 0\<rparr>, fs))))"

definition op_path :: "open_file \<Rightarrow> path" where
  "op_path st = bg_file_path (op_begin st)"

definition advance :: "BufWriter \<Rightarrow> bytes \<Rightarrow> open_file \<Rightarrow> open_file" where
  "advance w data st =
    st\<lparr>op_writer := w, op_verifier := map_option (cv_update data) (op_verifier st),
       op_bytes_written := op_bytes_written st + length data\<rparr>"

definition end_file ::
  "disk_faults \<Rightarrow> DiskCommitConfig \<Rightarrow> hash_crates \<Rightarrow> open_file \<Rightarrow> bytes \<Rightarrow> dest_files \<Rightarrow> (disk_error + CommitResult) \<times> dest_files" where
  "end_file fl config H st expected fs =
    (case fault_flush fl (op_begin st) of Some e \<Rightarrow> (Inl e, fs)
     | None \<Rightarrow>
        let w = bw_flush (op_writer st);
            fs = share_dest (op_needs_rename st) w fs;
            temp = of_bytes (bw_file w);
            (computed, verify_ok) = verify_whole_file_checksum H (op_verifier st) expected
        in if \<not> verify_ok \<and> op_needs_rename st
           then let (r, fs) = withhold_failed_commit fl config (op_begin st) temp (op_bytes_written st) computed fs in (Inr r, fs)
           else
             (case commit_file fl (op_begin st) config temp (op_needs_rename st) (op_bytes_written st) fs of
                (Inl e, fs) \<Rightarrow> (Inl e, fs)
              | (Inr delayed, fs) \<Rightarrow>
                  (Inr \<lparr>cr_bytes_written = op_bytes_written st, cr_file_entry_index = bg_file_entry_index (op_begin st),
                        cr_computed_checksum = computed, cr_delayed = delayed\<rparr>, fs)))"

text \<open>An interrupted file: what was received is flushed, as far as that succeeds, and kept as the configuration says.\<close>

definition interrupt_file :: "disk_faults \<Rightarrow> DiskCommitConfig \<Rightarrow> open_file \<Rightarrow> dest_files \<Rightarrow> dest_files" where
  "interrupt_file fl config st fs =
    (let w = (if fault_flush fl (op_begin st) = None then bw_flush (op_writer st) else op_writer st);
         fs = share_dest (op_needs_rename st) w fs
     in if 0 < op_bytes_written st \<and> op_needs_rename st
        then retain_partial_file fl (op_begin st) config (of_bytes (bw_file w)) fs else fs)"

section \<open>The thread\<close>

definition is_terminal :: "disk_result \<Rightarrow> bool" where
  "is_terminal result = (case result of Inl e \<Rightarrow> e = De_Interrupted \<or> e = De_BrokenPipe | Inr _ \<Rightarrow> False)"

text \<open>\<open>process_file\<close> returns \<open>result\<close> to the loop of the thread.\<close>

definition returns :: "disk_result \<Rightarrow> path \<Rightarrow> dest_files \<Rightarrow> disk_thread \<Rightarrow> disk_result option \<times> disk_thread" where
  "returns result p fs th =
    (Some result, \<lparr>dt_fs = (dt_fs th)(p := fs), dt_phase = (if is_terminal result then Stopped else Idle)\<rparr>)"

definition goes_on :: "disk_phase \<Rightarrow> path \<Rightarrow> dest_files \<Rightarrow> disk_thread \<Rightarrow> disk_result option \<times> disk_thread" where
  "goes_on phase p fs th = (None, \<lparr>dt_fs = (dt_fs th)(p := fs), dt_phase = phase\<rparr>)"

definition process_begin ::
  "disk_faults \<Rightarrow> DiskCommitConfig \<Rightarrow> BeginMessage \<Rightarrow> disk_thread \<Rightarrow> disk_result option \<times> disk_thread" where
  "process_begin fl config begin_msg th =
    (let p = bg_file_path begin_msg
     in case begin_file fl config begin_msg (dt_fs th p) of
          (Begun st, fs) \<Rightarrow> goes_on (Writing st) p fs th
        | (Open_Failed e, fs) \<Rightarrow> goes_on (Discarding begin_msg e) p fs th
        | (Begin_Failed e, fs) \<Rightarrow> returns (Inl e) p fs th)"

definition process_whole_file ::
  "disk_faults \<Rightarrow> DiskCommitConfig \<Rightarrow> hash_crates \<Rightarrow> BeginMessage \<Rightarrow> bytes \<Rightarrow> bytes \<Rightarrow> dest_files \<Rightarrow> disk_result \<times> dest_files" where
  "process_whole_file fl config H begin_msg data expected fs =
    (case begin_file fl config begin_msg fs of
       (Open_Failed e, fs) \<Rightarrow> (Inl e, fs)
     | (Begin_Failed e, fs) \<Rightarrow> (Inl e, fs)
     | (Begun st, fs) \<Rightarrow>
         (case fault_write fl begin_msg 0 of
            Some e \<Rightarrow> (Inl e, fs)
          | None \<Rightarrow>
              end_file fl config H (advance (bw_write data (op_writer st)) data st) expected fs))"

text \<open>One turn of the loop of \<open>process_file\<close>; \<open>None\<close> when the channel is disconnected.\<close>

definition process_message ::
  "disk_faults \<Rightarrow> DiskCommitConfig \<Rightarrow> hash_crates \<Rightarrow> FileMessage option \<Rightarrow> open_file \<Rightarrow> disk_thread \<Rightarrow> disk_result option \<times> disk_thread" where
  "process_message fl config H msg st th =
    (let p = op_path st; fs = dt_fs th p
     in case msg of
          None \<Rightarrow> returns (Inl De_BrokenPipe) p (interrupt_file fl config st fs) th
        | Some (Chunk data) \<Rightarrow>
            (case fault_write fl (op_begin st) (op_bytes_written st) of
               Some e \<Rightarrow> returns (Inl e) p fs th
             | None \<Rightarrow>
                 let w = bw_write data (op_writer st)
                 in goes_on (Writing (advance w data st)) p (share_dest (op_needs_rename st) w fs) th)
        | Some (SkipMatched data) \<Rightarrow>
            (case fault_write fl (op_begin st) (op_bytes_written st) of
               Some e \<Rightarrow> returns (Inl e) p fs th
             | None \<Rightarrow>
                 let w = skip_matched (length data) (op_writer st)
                 in goes_on (Writing (advance w data st)) p (share_dest (op_needs_rename st) w fs) th)
        | Some (Commit expected) \<Rightarrow>
            let (r, fs) = end_file fl config H st expected fs in returns r p fs th
        | Some Abort \<Rightarrow> returns (Inl De_Other) p (interrupt_file fl config st fs) th
        | Some Shutdown \<Rightarrow> returns (Inl De_Interrupted) p (interrupt_file fl config st fs) th
        | Some (Begin _) \<Rightarrow> returns (Inl (De_Io InvalidData)) p fs th
        | Some (WholeFile _ _ _) \<Rightarrow> returns (Inl (De_Io InvalidData)) p fs th)"

definition discard_message :: "FileMessage option \<Rightarrow> BeginMessage \<Rightarrow> disk_error \<Rightarrow> disk_thread \<Rightarrow> disk_result option \<times> disk_thread" where
  "discard_message msg begin_msg open_err th =
    (let p = bg_file_path begin_msg; fs = dt_fs th p
     in case msg of
          Some (Chunk _) \<Rightarrow> (None, th)
        | Some (SkipMatched _) \<Rightarrow> (None, th)
        | Some (Commit _) \<Rightarrow> returns (Inl open_err) p fs th
        | Some Abort \<Rightarrow> returns (Inl De_Other) p fs th
        | Some Shutdown \<Rightarrow> returns (Inl De_Interrupted) p fs th
        | Some (Begin _) \<Rightarrow> returns (Inl (De_Io InvalidData)) p fs th
        | Some (WholeFile _ _ _) \<Rightarrow> returns (Inl (De_Io InvalidData)) p fs th
        | None \<Rightarrow> returns (Inl De_BrokenPipe) p fs th)"

text \<open>One message received by the thread, and the result it sends for it, if any.\<close>

definition disk_step ::
  "disk_faults \<Rightarrow> DiskCommitConfig \<Rightarrow> hash_crates \<Rightarrow> FileMessage option \<Rightarrow> disk_thread \<Rightarrow> disk_result option \<times> disk_thread" where
  "disk_step fl config H msg th =
    (case dt_phase th of
       Stopped \<Rightarrow> (None, th)
     | Writing st \<Rightarrow> process_message fl config H msg st th
     | Discarding begin_msg e \<Rightarrow> discard_message msg begin_msg e th
     | Idle \<Rightarrow>
         (case msg of
            None \<Rightarrow> (None, th\<lparr>dt_phase := Stopped\<rparr>)
          | Some Shutdown \<Rightarrow> (None, th\<lparr>dt_phase := Stopped\<rparr>)
          | Some (Begin begin_msg) \<Rightarrow> process_begin fl config begin_msg th
          | Some (WholeFile begin_msg data expected) \<Rightarrow>
              let p = bg_file_path begin_msg;
                  (r, fs) = process_whole_file fl config H begin_msg data expected (dt_fs th p)
              in (Some r, \<lparr>dt_fs = (dt_fs th)(p := fs), dt_phase = Idle\<rparr>)
          | Some _ \<Rightarrow> (Some (Inl (De_Io InvalidData)), th)))"

fun disk_run ::
  "disk_faults \<Rightarrow> DiskCommitConfig \<Rightarrow> hash_crates \<Rightarrow> FileMessage list \<Rightarrow> disk_thread \<Rightarrow> disk_result list \<times> disk_thread" where
  "disk_run fl config H [] th = ([], th)"
| "disk_run fl config H (m # ms) th =
    (let (r, th) = disk_step fl config H (Some m) th;
         (rs, th) = disk_run fl config H ms th
     in ((case r of None \<Rightarrow> rs | Some r \<Rightarrow> r # rs), th))"

section \<open>What the writer has taken\<close>

text \<open>The file as it will be once the buffer is flushed.\<close>

definition bw_view :: "BufWriter \<Rightarrow> out_file" where
  "bw_view w = bw_file (bw_flush w)"

lemma of_write_of_write [simp]: "of_write bs (of_write as f) = of_write (as @ bs) f"
proof (cases "length (of_bytes f) \<le> of_pos f")
  case False
  then have "min (length (of_bytes f)) (of_pos f) = of_pos f" by simp
  then show ?thesis using False by (simp add: of_write_def ac_simps)
qed (simp add: of_write_def)

lemma of_write_Nil [simp]: "of_write [] f = f"
  by (simp add: of_write_def)

lemma bw_view_eq: "bw_view w = of_write (bw_buf w) (bw_file w)"
  by (simp add: bw_view_def bw_flush_def)

locale byte_sink =
  fixes put :: "bytes \<Rightarrow> 'w \<Rightarrow> 'w" and view :: "'w \<Rightarrow> out_file"
  assumes view_put: "view (put d w) = of_write d (view w)"
begin

lemma view_puts: "view (fold put ds w) = of_write (concat ds) (view w)"
  by (induction ds arbitrary: w) (simp_all add: view_put)

end

interpretation bw: byte_sink bw_write bw_view
  by unfold_locales (simp add: bw_view_eq bw_write_def write_all_vectored_def)

lemma bw_flush_buf [simp]: "bw_buf (bw_flush w) = []" "bw_file (bw_flush w) = bw_view w"
  by (simp_all add: bw_flush_def bw_view_def)

lemma bw_view_simps [simp]:
  "bw_view (bw_new f) = f" "bw_view (bw_write d w) = of_write d (bw_view w)"
  "bw_view (skip_matched n w) = (bw_view w)\<lparr>of_pos := of_pos (bw_view w) + n\<rparr>"
  by (simp add: bw_view_eq bw_new_def, rule bw.view_put)
    (simp add: bw_view_eq [of "skip_matched n w"], simp add: skip_matched_def bw_seek_current_def Let_def)

lemma bw_buf_bound:
  "length (bw_buf (bw_new f)) \<le> WRITE_BUF_SIZE"
  "length (bw_buf w) \<le> WRITE_BUF_SIZE \<Longrightarrow> length (bw_buf (bw_write d w)) \<le> WRITE_BUF_SIZE"
  "length (bw_buf (skip_matched n w)) \<le> WRITE_BUF_SIZE"
  by (auto simp: bw_new_def bw_write_def skip_matched_def bw_seek_current_def bw_flush_def Let_def DIRECT_WRITE_THRESHOLD_def WRITE_BUF_SIZE_def)


section \<open>The invariant of the thread\<close>

definition needs_rename_of :: "BeginMessage \<Rightarrow> bool" where
  "needs_rename_of b = (\<not> bg_is_device_target b \<and> \<not> bg_is_inplace b)"

definition start_pos :: "BeginMessage \<Rightarrow> nat" where
  "start_pos b = (if bg_is_inplace b \<and> \<not> bg_is_device_target b then bg_append_offset b else 0)"

text \<open>A file is renamed at the end exactly when it is neither in place nor a device; the buffer keeps its capacity;
  the position of the writer is where the data received so far ends; and a file that is not a temporary one
  is the destination.\<close>

definition open_wf :: "disk_thread \<Rightarrow> open_file \<Rightarrow> bool" where
  "open_wf th st =
    (op_needs_rename st = needs_rename_of (op_begin st) \<and>
     length (bw_buf (op_writer st)) \<le> WRITE_BUF_SIZE \<and>
     of_pos (bw_view (op_writer st)) = start_pos (op_begin st) + op_bytes_written st \<and>
     (op_verifier st = None \<longleftrightarrow> bg_checksum_verifier (op_begin st) = None) \<and>
     (\<not> op_needs_rename st \<longrightarrow> df_dest (dt_fs th (op_path st)) = Some (of_bytes (bw_file (op_writer st)))))"

definition thread_wf :: "disk_thread \<Rightarrow> bool" where
  "thread_wf th = (case dt_phase th of Writing st \<Rightarrow> open_wf th st | _ \<Rightarrow> True)"

lemma returns_wf [simp]: "thread_wf (snd (returns r p fs th))"
  by (simp add: returns_def thread_wf_def)

lemma make_inplace_backup_cases: "make_inplace_backup fl b config fs = Inr fs' \<Longrightarrow> fs' = fs \<or> fs' = make_backup_copy fs"
  by (auto simp: make_inplace_backup_def split: if_splits option.splits)

lemma open_output_rename: "open_output_file fl b fs = Inr (f, r) \<Longrightarrow> r = needs_rename_of b"
  by (auto simp: open_output_file_def needs_rename_of_def split: option.splits if_splits)

lemma begin_file_cases:
  assumes "begin_file fl config b fs = (Begun st, fs')"
  shows "\<exists>f fs0 v. open_output_file fl b fs0 = Inr (f, needs_rename_of b) \<and> fs' = share_dest (needs_rename_of b) (bw_new f) fs0 \<and>
      (fs0 = fs \<or> fs0 = make_backup_copy fs) \<and>
      sum_append_prefix fl config b fs' (bg_checksum_verifier b) = Inr v \<and>
      st = \<lparr>op_begin = b, op_writer = bw_new f, op_needs_rename = needs_rename_of b, op_verifier = v, op_bytes_written = 0\<rparr>"
proof -
  obtain fs0 where m: "make_inplace_backup fl b config fs = Inr fs0"
    using assms by (cases "make_inplace_backup fl b config fs") (auto simp: begin_file_def)
  obtain f r where o: "open_output_file fl b fs0 = Inr (f, r)"
    using assms m by (cases "open_output_file fl b fs0") (auto simp: begin_file_def)
  show ?thesis
    using assms m o open_output_rename [OF o] make_inplace_backup_cases [OF m]
    by (cases "sum_append_prefix fl config b (share_dest r (bw_new f) fs0) (bg_checksum_verifier b)") (auto simp: begin_file_def Let_def)
qed

lemma open_output_pos: "open_output_file fl b fs = Inr (f, r) \<Longrightarrow> of_pos f = start_pos b"
  by (auto simp: open_output_file_def start_pos_def split: option.splits if_splits)

lemma sum_append_prefix_None: "sum_append_prefix fl config b fs v = Inr v' \<Longrightarrow> v' = None \<longleftrightarrow> v = None"
  by (auto simp: sum_append_prefix_def split: if_splits option.splits sum.splits)

lemma process_begin_wf: "thread_wf (snd (process_begin fl config b th))"
proof (cases "begin_file fl config b (dt_fs th (bg_file_path b))")
  case (Pair bg fs')
  show ?thesis
  proof (cases bg)
    case (Begun st)
    obtain f fs0 v where "open_output_file fl b fs0 = Inr (f, needs_rename_of b)" "fs' = share_dest (needs_rename_of b) (bw_new f) fs0"
        "sum_append_prefix fl config b fs' (bg_checksum_verifier b) = Inr v"
        "st = \<lparr>op_begin = b, op_writer = bw_new f, op_needs_rename = needs_rename_of b, op_verifier = v, op_bytes_written = 0\<rparr>"
      using begin_file_cases [OF Pair [unfolded Begun]] by blast
    then show ?thesis
      using Pair Begun open_output_pos [of fl b fs0 f] sum_append_prefix_None [of fl config b fs'] bw_buf_bound(1) [of f]
      by (simp add: process_begin_def goes_on_def thread_wf_def open_wf_def Let_def op_path_def share_dest_def)
  qed (simp_all add: process_begin_def Pair Let_def, simp add: goes_on_def thread_wf_def)
qed

lemma goes_on_wf:
  assumes "open_wf th st" "length (bw_buf w) \<le> WRITE_BUF_SIZE" "of_pos (bw_view w) = of_pos (bw_view (op_writer st)) + length data"
  shows "thread_wf (snd (goes_on (Writing (advance w data st)) (op_path st) (share_dest (op_needs_rename st) w (dt_fs th (op_path st))) th))"
  using assms by (simp add: goes_on_def thread_wf_def open_wf_def advance_def op_path_def share_dest_def)

lemma process_message_wf:
  assumes "open_wf th st" shows "thread_wf (snd (process_message fl config H msg st th))"
proof -
  have "length (bw_buf (op_writer st)) \<le> WRITE_BUF_SIZE" using assms by (simp add: open_wf_def)
  then show ?thesis
    using goes_on_wf [OF assms, of "bw_write d (op_writer st)" d for d]
      goes_on_wf [OF assms, of "skip_matched (length d) (op_writer st)" d for d] bw_buf_bound
    by (auto simp: process_message_def Let_def split: option.splits FileMessage.splits prod.splits)
qed

lemma discard_message_wf: "thread_wf th \<Longrightarrow> thread_wf (snd (discard_message msg b e th))"
  by (auto simp: discard_message_def Let_def split: option.splits FileMessage.splits)

lemma disk_step_wf: "thread_wf th \<Longrightarrow> thread_wf (snd (disk_step fl config H msg th))"
  by (auto simp: disk_step_def Let_def process_begin_wf discard_message_wf split: disk_phase.splits option.splits FileMessage.splits prod.splits)
    (auto simp: thread_wf_def process_message_wf [unfolded thread_wf_def])

lemma disk_run_wf: "thread_wf th \<Longrightarrow> thread_wf (snd (disk_run fl config H ms th))"
proof (induction ms arbitrary: th)
  case (Cons m ms)
  then show ?case using disk_step_wf [OF Cons.prems, of fl config H "Some m"] by (simp add: Let_def split_def)
qed simp

section \<open>The chunks of a file\<close>

definition same_file :: "open_file \<Rightarrow> open_file \<Rightarrow> bool" where
  "same_file st st' =
    (op_begin st' = op_begin st \<and> op_needs_rename st' = op_needs_rename st \<and> op_verifier st' = op_verifier st \<and>
     op_bytes_written st' = op_bytes_written st \<and> bw_view (op_writer st') = bw_view (op_writer st))"

text \<open>The same up to the destination, where an open file is written in place.\<close>

definition same_files :: "bool \<Rightarrow> dest_files \<Rightarrow> dest_files \<Rightarrow> bool" where
  "same_files needs_rename fs fs' = (if needs_rename then fs' = fs else \<exists>d. fs' = fs\<lparr>df_dest := d\<rparr>)"

lemma share_dest_same [simp]:
  "same_files r fs (share_dest r w fs)"
  "same_files r fs fs' \<Longrightarrow> same_files r fs (share_dest r w fs')"
  "same_files r fs fs' \<Longrightarrow> share_dest r w fs' = share_dest r w fs"
  by (auto simp: same_files_def share_dest_def split: if_splits)

lemma same_files_refl [simp]: "same_files r fs fs"
  by (auto simp: same_files_def) (metis dest_files.surjective dest_files.update_convs(1))

lemma share_dest_view: "bw_file w = bw_file w' \<Longrightarrow> share_dest r w fs = share_dest r w' fs"
  by (simp add: share_dest_def)

lemma end_file_same:
  assumes "same_file st st'" "same_files (op_needs_rename st) fs fs'" "fault_flush fl (op_begin st) = None \<or> op_needs_rename st"
  shows "end_file fl config H st' e fs' = end_file fl config H st e fs"
proof (cases "fault_flush fl (op_begin st)")
  case None
  have eq: "op_begin st' = op_begin st" "op_needs_rename st' = op_needs_rename st" "op_verifier st' = op_verifier st"
      "op_bytes_written st' = op_bytes_written st" "bw_file (bw_flush (op_writer st')) = bw_file (bw_flush (op_writer st))"
    using assms(1) by (simp_all add: same_file_def)
  show ?thesis
    unfolding end_file_def Let_def eq share_dest_same(3) [OF assms(2)] share_dest_view [OF eq(5)] None option.case ..
next
  case (Some err)
  then show ?thesis using assms by (simp add: end_file_def same_file_def same_files_def)
qed

text \<open>The errors with which a commit may end.\<close>

definition commit_fault :: "disk_faults \<Rightarrow> BeginMessage \<Rightarrow> disk_error \<Rightarrow> bool" where
  "commit_fault fl b e =
    (fault_flush fl b = Some e \<or> fault_backup fl b = Some e \<or> fault_rename fl b = Some e \<or> fault_set_len fl b = Some e)"

lemma commit_fault_no_faults [simp]: "\<not> commit_fault no_faults b e"
  by (simp add: commit_fault_def)

lemma commit_file_fault: "fst (commit_file fl b config temp r len fs) = Inl err \<Longrightarrow> commit_fault fl b err"
  by (auto simp: commit_file_def make_backup_def commit_fault_def Let_def split: if_splits option.splits sum.splits)

lemma end_file_fault: "fst (end_file fl config H st e fs) = Inl err \<Longrightarrow> commit_fault fl (op_begin st) err"
  using commit_file_fault
  by (fastforce simp: end_file_def Let_def split_def commit_fault_def split: if_splits option.splits sum.splits prod.splits)

abbreviation taken :: "bytes \<Rightarrow> open_file \<Rightarrow> open_file" where
  "taken d st \<equiv> advance (bw_write d (op_writer st)) d st"

lemma op_path_advance [simp]:
  "op_path (advance w d st) = op_path st" "op_begin (advance w d st) = op_begin st"
  "op_needs_rename (advance w d st) = op_needs_rename st" "op_writer (advance w d st) = w"
  by (simp_all add: op_path_def advance_def)

lemma option_map_comp_cv: "map_option (cv_update b) (map_option (cv_update a) v) = map_option (cv_update (a @ b)) v"
  by (cases v) simp_all

lemma map_option_cv_Nil [simp]: "map_option (cv_update []) v = v"
  by (cases v) simp_all

lemma taken_taken: "same_file (taken (as @ bs) st) (taken bs (taken as st))"
  by (simp add: same_file_def advance_def option_map_comp_cv)

lemma same_file_taken: "same_file st st' \<Longrightarrow> same_file (taken d st) (taken d st')"
  by (simp add: same_file_def advance_def)

lemma same_file_trans: "same_file a b \<Longrightarrow> same_file b c \<Longrightarrow> same_file a c"
  by (simp add: same_file_def)

lemma chunk_step:
  assumes "dt_phase th = Writing st" "fault_write fl (op_begin st) (op_bytes_written st) = None"
  shows "disk_step fl config H (Some (Chunk d)) th =
    (None, \<lparr>dt_fs = (dt_fs th)(op_path st := share_dest (op_needs_rename st) (bw_write d (op_writer st)) (dt_fs th (op_path st))),
            dt_phase = Writing (taken d st)\<rparr>)"
  using assms by (simp add: disk_step_def process_message_def goes_on_def Let_def)

lemma commit_step:
  assumes "dt_phase th = Writing st"
  shows "disk_step fl config H (Some (Commit e)) th =
    (let (r, fs) = end_file fl config H st e (dt_fs th (op_path st))
     in (Some r, \<lparr>dt_fs = (dt_fs th)(op_path st := fs), dt_phase = (if is_terminal r then Stopped else Idle)\<rparr>))"
  using assms by (simp add: disk_step_def process_message_def returns_def Let_def split_def)

lemma chunks_commit:
  assumes "dt_phase th = Writing st" "\<forall>n. fault_write fl (op_begin st) n = None"
    "same_file (taken d0 st0) st" "same_files (op_needs_rename st) fs0 (dt_fs th (op_path st))"
    "fault_flush fl (op_begin st) = None \<or> op_needs_rename st"
  shows "disk_run fl config H (map Chunk ds @ [Commit e]) th =
    (let (r, fs) = end_file fl config H (taken (d0 @ concat ds) st0) e fs0
     in ([r], \<lparr>dt_fs = (dt_fs th)(op_path st := fs), dt_phase = (if is_terminal r then Stopped else Idle)\<rparr>))"
  using assms
proof (induction ds arbitrary: th st d0)
  case Nil
  then show ?case
    using end_file_same [OF Nil.prems(3), of fs0 "dt_fs th (op_path st)" fl config H e]
    by (simp add: commit_step same_file_def fun_upd_def split_def Let_def)
next
  case (Cons d ds)
  let ?th = "\<lparr>dt_fs = (dt_fs th)(op_path st := share_dest (op_needs_rename st) (bw_write d (op_writer st)) (dt_fs th (op_path st))),
            dt_phase = Writing (taken d st)\<rparr>"
  have "disk_run fl config H (map Chunk ds @ [Commit e]) ?th =
    (let (r, fs) = end_file fl config H (taken ((d0 @ d) @ concat ds) st0) e fs0
     in ([r], \<lparr>dt_fs = (dt_fs ?th)(op_path (taken d st) := fs), dt_phase = (if is_terminal r then Stopped else Idle)\<rparr>))"
    using Cons.prems by (intro Cons.IH) (auto intro: same_file_trans [OF taken_taken same_file_taken])
  then show ?case using Cons.prems(2) by (simp add: chunk_step [OF Cons.prems(1)] fun_eq_iff split_def Let_def)
qed

lemma discard_commit:
  assumes "dt_phase th = Discarding b err" "\<not> is_terminal (Inl err)"
  shows "disk_run fl config H (map Chunk ds @ [Commit e]) th = ([Inl err], th\<lparr>dt_phase := Idle\<rparr>)"
  using assms by (induction ds) (simp_all add: disk_step_def discard_message_def returns_def Let_def)


section \<open>Only verified content reaches the destination\<close>

text \<open>The messages of transfers that write a temporary file.\<close>

definition temp_begin :: "BeginMessage \<Rightarrow> bool" where
  "temp_begin b = (needs_rename_of b \<and> bg_append_offset b = 0)"

fun temp_message :: "FileMessage \<Rightarrow> bool" where
  "temp_message (Begin b) = temp_begin b"
| "temp_message (WholeFile b _ _) = temp_begin b"
| "temp_message (SkipMatched _) = False"
| "temp_message _ = True"

definition verified :: "hash_crates \<Rightarrow> BeginMessage \<Rightarrow> bytes \<Rightarrow> bytes \<Rightarrow> bool" where
  "verified H b content expected =
    (case bg_checksum_verifier b of None \<Rightarrow> True | Some v \<Rightarrow> expected = [] \<or> finalize_into H (cv_update content v) = expected)"

text \<open>\<open>content\<close> is the data of a file in the stream of messages: one message with all of it, or exactly the chunks
  between its \<open>Begin\<close> and its \<open>Commit\<close>.\<close>

definition sent :: "FileMessage list \<Rightarrow> BeginMessage \<Rightarrow> bytes \<Rightarrow> bytes \<Rightarrow> bool" where
  "sent ms b content expected =
    (WholeFile b content expected \<in> set ms \<or>
     (\<exists>pre ds post. ms = pre @ Begin b # map Chunk ds @ Commit expected # post \<and> content = concat ds))"

text \<open>\<open>content\<close> came for the path \<open>p\<close> with a checksum that it has.\<close>

definition announced :: "hash_crates \<Rightarrow> FileMessage list \<Rightarrow> path \<Rightarrow> bytes \<Rightarrow> bool" where
  "announced H ms p content = (\<exists>b e. bg_file_path b = p \<and> sent ms b content e \<and> verified H b content e)"

text \<open>A destination from which the backup was made, before the rename of the new file failed.\<close>

definition moved_away :: "disk_faults \<Rightarrow> DiskCommitConfig \<Rightarrow> path \<Rightarrow> dest_files \<Rightarrow> bool" where
  "moved_away fl config p fs =
    (df_dest fs = None \<and> dc_backup config \<and> (\<exists>b. bg_file_path b = p \<and> fault_rename fl b \<noteq> None))"

definition genuine :: "hash_crates \<Rightarrow> FileMessage list \<Rightarrow> path \<Rightarrow> dest_files \<Rightarrow> bytes option \<Rightarrow> bool" where
  "genuine H ms p fs0 c = (c = df_dest fs0 \<or> (\<exists>content. c = Some content \<and> announced H ms p content))"

definition dest_ok ::
  "disk_faults \<Rightarrow> DiskCommitConfig \<Rightarrow> hash_crates \<Rightarrow> FileMessage list \<Rightarrow> path \<Rightarrow> dest_files \<Rightarrow> dest_files \<Rightarrow> bool" where
  "dest_ok fl config H ms p fs0 fs =
    (genuine H ms p fs0 (df_dest fs) \<or> moved_away fl config p fs \<and> df_backup fs \<noteq> None \<and> genuine H ms p fs0 (df_backup fs))"

definition temp_open :: "FileMessage list \<Rightarrow> open_file \<Rightarrow> bool" where
  "temp_open ms st =
    (temp_begin (op_begin st) \<and> op_needs_rename st \<and>
     (\<exists>pre ds. ms = pre @ Begin (op_begin st) # map Chunk ds \<and>
       bw_view (op_writer st) = of_write (concat ds) \<lparr>of_bytes = [], of_pos = 0\<rparr> \<and>
       op_verifier st = map_option (cv_update (concat ds)) (bg_checksum_verifier (op_begin st))))"

definition thread_ok ::
  "disk_faults \<Rightarrow> DiskCommitConfig \<Rightarrow> hash_crates \<Rightarrow> FileMessage list \<Rightarrow> (path \<Rightarrow> dest_files) \<Rightarrow> disk_thread \<Rightarrow> bool" where
  "thread_ok fl config H ms F0 th =
    ((case dt_phase th of Writing st \<Rightarrow> temp_open ms st | _ \<Rightarrow> True) \<and> (\<forall>p. dest_ok fl config H ms p (F0 p) (dt_fs th p)))"

lemma sent_append: "sent ms b c e \<Longrightarrow> sent (ms @ ms') b c e"
  by (fastforce simp: sent_def)

lemma genuine_append: "genuine H ms p fs0 c \<Longrightarrow> genuine H (ms @ ms') p fs0 c"
  by (auto simp: genuine_def announced_def intro: sent_append)

lemma dest_ok_append: "dest_ok fl config H ms p fs0 fs \<Longrightarrow> dest_ok fl config H (ms @ ms') p fs0 fs"
  by (auto simp: dest_ok_def intro: genuine_append)

lemma dest_ok_cong:
  "dest_ok fl config H ms p fs0 fs \<Longrightarrow> df_dest fs' = df_dest fs \<Longrightarrow> df_backup fs' = df_backup fs \<Longrightarrow> dest_ok fl config H ms p fs0 fs'"
  by (simp add: dest_ok_def moved_away_def)

lemma temp_bytes [simp]: "of_bytes (of_write d \<lparr>of_bytes = [], of_pos = 0\<rparr>) = d"
  by (simp add: of_write_def)

lemma temp_begin_file:
  assumes "temp_begin b"
  shows "begin_file fl config b fs =
    (case fault_open fl b of Some e \<Rightarrow> (Open_Failed e, fs)
     | None \<Rightarrow> (Begun \<lparr>op_begin = b, op_writer = bw_new \<lparr>of_bytes = [], of_pos = 0\<rparr>, op_needs_rename = True,
                      op_verifier = bg_checksum_verifier b, op_bytes_written = 0\<rparr>, fs))"
  using assms
  by (simp add: temp_begin_def needs_rename_of_def begin_file_def make_inplace_backup_def open_output_file_def sum_append_prefix_def
      share_dest_def Let_def split: option.splits)

text \<open>The three ways a commit of a temporary file may leave the destination: as it was, replaced by verified content,
  or moved to the backup.\<close>

lemma temp_commit_file:
  assumes "temp_begin b" "commit_file fl b config temp True len fs = (r, fs')"
  shows "df_dest fs' = df_dest fs \<and> df_backup fs' = df_backup fs \<or> df_dest fs' = Some temp \<or>
    df_dest fs \<noteq> None \<and> df_backup fs' = df_dest fs \<and> moved_away fl config (bg_file_path b) fs'"
  using assms
  by (auto simp: commit_file_def make_backup_def remove_partial_dir_basis_def moved_away_def temp_begin_def needs_rename_of_def
      split: option.splits if_splits)

lemma retain_partial_dest:
  "dc_partial_mode config \<noteq> Partial \<Longrightarrow> df_dest (retain_partial_file fl b config temp fs) = df_dest fs"
  "df_backup (retain_partial_file fl b config temp fs) = df_backup fs"
  by (auto simp: retain_partial_file_def split: PartialMode.splits)

lemma temp_end_file:
  assumes st: "temp_begin (op_begin st)" "op_needs_rename st" "bw_view (op_writer st) = of_write d \<lparr>of_bytes = [], of_pos = 0\<rparr>"
      "op_verifier st = map_option (cv_update d) (bg_checksum_verifier (op_begin st))"
    and pm: "dc_partial_mode config \<noteq> Partial" and s: "sent ms (op_begin st) d e"
    and here: "dest_ok fl config H ms (op_path st) fs0 fs"
  shows "dest_ok fl config H ms (op_path st) fs0 (snd (end_file fl config H st e fs))"
proof -
  let ?ok = "snd (verify_whole_file_checksum H (op_verifier st) e)"
  have v: "?ok \<Longrightarrow> verified H (op_begin st) d e"
    using st(4) by (auto simp: verify_whole_file_checksum_def finalize_checksum_def verified_def Let_def split: option.splits if_splits)
  consider (flush) "fault_flush fl (op_begin st) \<noteq> None" | (withheld) "fault_flush fl (op_begin st) = None" "\<not> ?ok"
    | (commit) "fault_flush fl (op_begin st) = None" "?ok" by blast
  then show ?thesis
  proof cases
    case flush
    then show ?thesis using here by (auto simp: end_file_def)
  next
    case withheld
    then have "snd (end_file fl config H st e fs) = retain_partial_file fl (op_begin st) config d fs"
      using st by (simp add: end_file_def Let_def split_def share_dest_def withhold_failed_commit_def)
    then show ?thesis using dest_ok_cong [OF here] retain_partial_dest pm by simp
  next
    case commit
    let ?c = "commit_file fl (op_begin st) config d True (op_bytes_written st) fs"
    have "snd (end_file fl config H st e fs) = snd ?c"
      using commit st by (simp add: end_file_def Let_def split_def share_dest_def split: sum.splits prod.splits)
    then show ?thesis
      using temp_commit_file [OF st(1), of fl config d "op_bytes_written st" fs "fst ?c" "snd ?c"] here v [OF commit(2)] s
      by (auto simp: dest_ok_def genuine_def announced_def op_path_def moved_away_def)
  qed
qed

lemma interrupt_dest:
  assumes "op_needs_rename st" "dc_partial_mode config \<noteq> Partial"
  shows "df_dest (interrupt_file fl config st fs) = df_dest fs" "df_backup (interrupt_file fl config st fs) = df_backup fs"
  using assms retain_partial_dest by (simp_all add: interrupt_file_def Let_def share_dest_def)

lemma temp_open_chunk: "temp_open ms st \<Longrightarrow> temp_open (ms @ [Chunk c]) (taken c st)"
proof -
  assume "temp_open ms st"
  then obtain pre ds where "temp_begin (op_begin st)" "op_needs_rename st" "ms = pre @ Begin (op_begin st) # map Chunk ds"
      "bw_view (op_writer st) = of_write (concat ds) \<lparr>of_bytes = [], of_pos = 0\<rparr>"
      "op_verifier st = map_option (cv_update (concat ds)) (bg_checksum_verifier (op_begin st))" by (auto simp: temp_open_def)
  then show ?thesis unfolding temp_open_def
    by (intro conjI exI [of _ pre] exI [of _ "ds @ [c]"]) (simp_all add: advance_def option_map_comp_cv)
qed

lemma temp_process_message:
  assumes ok: "thread_ok fl config H ms F0 th" and ph: "dt_phase th = Writing st" and m: "temp_message m"
    and pm: "dc_partial_mode config \<noteq> Partial"
  shows "thread_ok fl config H (ms @ [m]) F0 (snd (process_message fl config H (Some m) st th))"
proof -
  have st: "temp_open ms st" "temp_begin (op_begin st)" "op_needs_rename st" using ok ph by (auto simp: thread_ok_def temp_open_def)
  have all: "dest_ok fl config H (ms @ [m]) p (F0 p) (dt_fs th p)" for p
    using ok by (intro dest_ok_append) (simp add: thread_ok_def)
  have int: "dest_ok fl config H (ms @ [m]) (op_path st) (F0 (op_path st)) (interrupt_file fl config st (dt_fs th (op_path st)))"
    using dest_ok_cong [OF all] interrupt_dest [OF st(3) pm] by metis
  have "dest_ok fl config H (ms @ [m]) (op_path st) (F0 (op_path st)) (snd (end_file fl config H st e (dt_fs th (op_path st))))"
    if "m = Commit e" for e
  proof -
    obtain pre ds where p: "ms = pre @ Begin (op_begin st) # map Chunk ds"
      "bw_view (op_writer st) = of_write (concat ds) \<lparr>of_bytes = [], of_pos = 0\<rparr>"
      "op_verifier st = map_option (cv_update (concat ds)) (bg_checksum_verifier (op_begin st))"
      using st(1) by (auto simp: temp_open_def)
    then have "sent (ms @ [m]) (op_begin st) (concat ds) e" using that by (auto simp: sent_def)
    then show ?thesis using temp_end_file [OF st(2,3) p(2,3) pm] all by blast
  qed
  then show ?thesis
    using m all int st(3) temp_open_chunk [OF st(1)]
    by (cases m) (auto simp: process_message_def returns_def goes_on_def Let_def split_def share_dest_def thread_ok_def split: option.splits)
qed

lemma temp_disk_step:
  assumes ok: "thread_ok fl config H ms F0 th" and m: "temp_message m" and pm: "dc_partial_mode config \<noteq> Partial"
  shows "thread_ok fl config H (ms @ [m]) F0 (snd (disk_step fl config H (Some m) th))"
proof -
  have all: "dest_ok fl config H (ms @ [m]) p (F0 p) (dt_fs th p)" for p
    using ok by (intro dest_ok_append) (simp add: thread_ok_def)
  note defs = disk_step_def process_begin_def process_whole_file_def goes_on_def returns_def Let_def split_def
  show ?thesis
  proof (cases "dt_phase th")
    case (Writing st)
    then show ?thesis using temp_process_message [OF ok _ m pm] by (simp add: disk_step_def)
  next
    case (Discarding b err)
    then show ?thesis using all by (cases m) (simp_all add: disk_step_def discard_message_def returns_def Let_def thread_ok_def)
  next
    case Stopped
    then show ?thesis using all by (simp add: disk_step_def thread_ok_def)
  next
    case Idle
    show ?thesis
    proof (cases m)
      case (Begin b)
      have "temp_open (ms @ [Begin b]) \<lparr>op_begin = b, op_writer = bw_new \<lparr>of_bytes = [], of_pos = 0\<rparr>, op_needs_rename = True,
          op_verifier = bg_checksum_verifier b, op_bytes_written = 0\<rparr>"
        using Begin m by (auto simp: temp_open_def intro!: exI [of _ ms] exI [of _ "[] :: bytes list"])
      then show ?thesis
        using Begin Idle m all by (simp add: defs temp_begin_file thread_ok_def split: option.splits)
    next
      case (WholeFile b d e)
      let ?st = "\<lparr>op_begin = b, op_writer = bw_write d (bw_new \<lparr>of_bytes = [], of_pos = 0\<rparr>), op_needs_rename = True,
          op_verifier = map_option (cv_update d) (bg_checksum_verifier b), op_bytes_written = length d\<rparr>"
      have "sent (ms @ [m]) b d e" using WholeFile by (simp add: sent_def)
      then have "dest_ok fl config H (ms @ [m]) (bg_file_path b) (F0 (bg_file_path b))
          (snd (end_file fl config H ?st e (dt_fs th (bg_file_path b))))"
        using temp_end_file [of ?st d config "ms @ [m]" e fl H "F0 (bg_file_path b)" "dt_fs th (bg_file_path b)"] all WholeFile m pm
        by (simp add: op_path_def)
      then show ?thesis
        using WholeFile Idle m all by (simp add: defs temp_begin_file advance_def thread_ok_def split: option.splits)
    qed (use all Idle in \<open>simp_all add: disk_step_def thread_ok_def\<close>)
  qed
qed

lemma temp_disk_run:
  assumes "thread_ok fl config H pre F0 th" "\<forall>m \<in> set ms. temp_message m" "dc_partial_mode config \<noteq> Partial"
  shows "thread_ok fl config H (pre @ ms) F0 (snd (disk_run fl config H ms th))"
  using assms
proof (induction ms arbitrary: th pre)
  case (Cons m ms)
  then show ?case using temp_disk_step [OF Cons.prems(1) _ Cons.prems(3), of m] Cons.IH [of "pre @ [m]"] by (simp add: Let_def split_def)
qed simp


section \<open>The content a commit installs\<close>

fun body_message :: "FileMessage \<Rightarrow> bool" where
  "body_message (Chunk _) = True"
| "body_message (SkipMatched _) = True"
| "body_message _ = False"

fun msg_data :: "FileMessage \<Rightarrow> bytes" where
  "msg_data (Chunk d) = d"
| "msg_data (SkipMatched d) = d"
| "msg_data _ = []"

text \<open>What a skipped block says is what the file holds where the stream stands.\<close>

fun skips_ok :: "bytes \<Rightarrow> nat \<Rightarrow> FileMessage list \<Rightarrow> bool" where
  "skips_ok old pos [] = True"
| "skips_ok old pos (SkipMatched d # ms) =
    (pos + length d \<le> length old \<and> take (length d) (drop pos old) = d \<and> skips_ok old (pos + length d) ms)"
| "skips_ok old pos (m # ms) = skips_ok old (pos + length (msg_data m)) ms"

definition file_at :: "bytes \<Rightarrow> nat \<Rightarrow> bytes \<Rightarrow> out_file \<Rightarrow> bool" where
  "file_at old s d f = (f = \<lparr>of_bytes = take s old @ d @ drop (s + length d) old, of_pos = s + length d\<rparr>)"

lemma file_at_write: "file_at old s d f \<Longrightarrow> s \<le> length old \<Longrightarrow> file_at old s (d @ c) (of_write c f)"
  by (cases "c = []") (simp_all add: file_at_def of_write_def min_def ac_simps)

lemma file_at_skip:
  assumes "file_at old s d f" "take (length c) (drop (s + length d) old) = c"
  shows "file_at old s (d @ c) (f\<lparr>of_pos := of_pos f + length c\<rparr>)"
proof -
  have "drop (s + length d) old = c @ drop (s + length d + length c) old"
    using assms(2) append_take_drop_id [of "length c" "drop (s + length d) old"] by (simp add: ac_simps)
  then show ?thesis using assms(1) by (simp add: file_at_def ac_simps)
qed

definition body_inv :: "bytes \<Rightarrow> BeginMessage \<Rightarrow> ChecksumVerifier option \<Rightarrow> bytes \<Rightarrow> open_file \<Rightarrow> bool" where
  "body_inv old b v d st =
    (op_begin st = b \<and> op_needs_rename st = needs_rename_of b \<and> file_at old (bg_append_offset b) d (bw_view (op_writer st)) \<and>
     op_verifier st = map_option (cv_update d) v \<and> op_bytes_written st = length d)"

lemma body_inv_step:
  assumes "body_inv old b v d st" "bg_append_offset b \<le> length old"
  shows "body_inv old b v (d @ c) (taken c st)"
    "take (length c) (drop (bg_append_offset b + length d) old) = c \<Longrightarrow>
      body_inv old b v (d @ c) (advance (skip_matched (length c) (op_writer st)) c st)"
  using assms file_at_write [of old "bg_append_offset b" d "bw_view (op_writer st)" c]
    file_at_skip [of old "bg_append_offset b" d "bw_view (op_writer st)" c]
  by (auto simp: body_inv_def advance_def option_map_comp_cv)

lemma body_run:
  assumes "dt_phase th = Writing st" "body_inv old b v d st" "bg_append_offset b \<le> length old" "\<forall>n. fault_write fl b n = None"
    "\<forall>m \<in> set body. body_message m" "skips_ok old (bg_append_offset b + length d) body"
    "same_files (needs_rename_of b) fs0 (dt_fs th (bg_file_path b))"
  shows "\<exists>st' fs'. disk_run fl config H (body @ ms) th =
      disk_run fl config H ms \<lparr>dt_fs = (dt_fs th)(bg_file_path b := fs'), dt_phase = Writing st'\<rparr> \<and>
    body_inv old b v (d @ concat (map msg_data body)) st' \<and> same_files (needs_rename_of b) fs0 fs'"
  using assms
proof (induction body arbitrary: th st d)
  case Nil
  then show ?case by (intro exI [of _ st] exI [of _ "dt_fs th (bg_file_path b)"]) (cases th, simp)
next
  case (Cons m body)
  have st: "op_begin st = b" "op_path st = bg_file_path b" "op_needs_rename st = needs_rename_of b"
    using Cons.prems(2) by (simp_all add: body_inv_def op_path_def)
  obtain w where w: "body_inv old b v (d @ msg_data m) (advance w (msg_data m) st)"
      "disk_step fl config H (Some m) th =
        (None, \<lparr>dt_fs = (dt_fs th)(bg_file_path b := share_dest (needs_rename_of b) w (dt_fs th (bg_file_path b))),
                dt_phase = Writing (advance w (msg_data m) st)\<rparr>)"
    using Cons.prems(1,4-6) body_inv_step [OF Cons.prems(2,3), of "msg_data m"] st
    by (cases m) (auto simp: disk_step_def process_message_def goes_on_def Let_def)
  have "skips_ok old (bg_append_offset b + length (d @ msg_data m)) body"
    using Cons.prems(5,6) by (cases m) (simp_all add: ac_simps)
  moreover let ?th = "\<lparr>dt_fs = (dt_fs th)(bg_file_path b := share_dest (needs_rename_of b) w (dt_fs th (bg_file_path b))),
      dt_phase = Writing (advance w (msg_data m) st)\<rparr>"
  have "(dt_fs ?th)(bg_file_path b := x) = (dt_fs th)(bg_file_path b := x)" for x by (simp only: disk_thread.select_convs fun_upd_upd)
  moreover have "disk_run fl config H (m # body @ ms) th = disk_run fl config H (body @ ms) ?th" by (simp add: w(2))
  ultimately show ?case
    using Cons.IH [of ?th, OF _ w(1)] Cons.prems(3-5,7) by (simp del: fun_upd_apply add: fun_upd_same) 
qed

lemma sum_prefix_loop_ok: "n \<le> length src \<Longrightarrow> sum_prefix_loop n src v = Inr (cv_update (take n src) v)"
proof (induction n arbitrary: src v rule: less_induct)
  case (less n)
  show ?case
  proof (cases "n = 0")
    case False
    define j where "j = min 262144 n"
    have j: "0 < j" "j \<le> n" using False by (auto simp: j_def)
    have "take j src @ take (n - j) (drop j src) = take n src" using take_add [of j "n - j" src] j(2) by simp
    then show ?thesis
      using False less.prems j less.IH [of "n - j" "drop j src"]
      by (subst sum_prefix_loop.simps) (simp add: j_def [symmetric] read_exact_def Let_def)
  qed (simp add: sum_prefix_loop.simps [of 0])
qed


definition faultless :: "disk_faults \<Rightarrow> BeginMessage \<Rightarrow> bool" where
  "faultless fl b =
    (fault_backup fl b = None \<and> fault_open fl b = None \<and> fault_prefix fl b = None \<and> (\<forall>n. fault_write fl b n = None) \<and>
     fault_flush fl b = None \<and> fault_rename fl b = None \<and> fault_set_len fl b = None)"

text \<open>What the file holds before the first message: the destination when it is written in place.\<close>

definition basis_of :: "BeginMessage \<Rightarrow> dest_files \<Rightarrow> bytes" where
  "basis_of b fs = (if needs_rename_of b then [] else dest_bytes fs)"

definition hashed_prefix :: "DiskCommitConfig \<Rightarrow> BeginMessage \<Rightarrow> dest_files \<Rightarrow> bytes" where
  "hashed_prefix config b fs = (if dc_append_verify config then take (bg_append_offset b) (dest_bytes fs) else [])"

definition backed_up :: "DiskCommitConfig \<Rightarrow> dest_files \<Rightarrow> bytes option" where
  "backed_up config fs = (if dc_backup config \<and> df_dest fs \<noteq> None then df_dest fs else df_backup fs)"

definition inplace_backup :: "DiskCommitConfig \<Rightarrow> BeginMessage \<Rightarrow> dest_files \<Rightarrow> dest_files" where
  "inplace_backup config b fs =
    (if bg_is_inplace b \<and> \<not> dc_delay_updates config then fs\<lparr>df_backup := backed_up config fs\<rparr> else fs)"

lemma make_inplace_backup_ok:
  "faultless fl b \<Longrightarrow> make_inplace_backup fl b config fs = Inr (inplace_backup config b fs)"
  by (auto simp: make_inplace_backup_def faultless_def inplace_backup_def backed_up_def make_backup_copy_def)

lemma inplace_backup_dest [simp]:
  "df_dest (inplace_backup config b fs) = df_dest fs" "dest_bytes (inplace_backup config b fs) = dest_bytes fs"
  by (simp_all add: inplace_backup_def dest_bytes_def)

lemma begin_file_ok:
  assumes "faultless fl b" "\<not> bg_is_device_target b" "bg_append_offset b \<le> length (basis_of b fs)"
  shows "\<exists>st fs'. begin_file fl config b fs = (Begun st, fs') \<and> same_files (needs_rename_of b) (inplace_backup config b fs) fs' \<and>
    body_inv (basis_of b fs) b (map_option (cv_update (hashed_prefix config b fs)) (bg_checksum_verifier b)) [] st"
proof -
  let ?fs = "inplace_backup config b fs" and ?f = "\<lparr>of_bytes = basis_of b fs, of_pos = bg_append_offset b\<rparr>"
  let ?fs' = "share_dest (needs_rename_of b) (bw_new ?f) ?fs"
  have o: "open_output_file fl b ?fs = Inr (?f, needs_rename_of b)"
    using assms by (auto simp: open_output_file_def faultless_def needs_rename_of_def basis_of_def split: if_splits)
  have "dest_bytes ?fs' = dest_bytes fs" by (auto simp: share_dest_def dest_bytes_def bw_new_def basis_of_def)
  moreover have "bg_append_offset b \<le> length (dest_bytes fs)" using assms(3) by (auto simp: basis_of_def split: if_splits)
  ultimately have "sum_append_prefix fl config b ?fs' (bg_checksum_verifier b) =
      Inr (map_option (cv_update (hashed_prefix config b fs)) (bg_checksum_verifier b))"
    using assms(1) by (auto simp: sum_append_prefix_def sum_prefix_loop_ok faultless_def hashed_prefix_def split: option.splits)
  then show ?thesis
    using assms o by (simp add: begin_file_def make_inplace_backup_ok Let_def body_inv_def file_at_def)
qed

lemma end_file_ok:
  assumes "body_inv (basis_of b fs) b (Some v) d st" "same_files (needs_rename_of b) (inplace_backup config b fs) fs'"
    "\<not> bg_is_device_target b" "bg_append_offset b \<le> length (basis_of b fs)" "\<not> dc_delay_updates config"
    "0 < bg_append_offset b \<longrightarrow> bg_target_size b = bg_append_offset b + length d"
    "e = finalize_into H (cv_update d v)" "faultless fl b"
  shows "let (r, fs'') = end_file fl config H st e fs'
    in r = Inr \<lparr>cr_bytes_written = length d, cr_file_entry_index = bg_file_entry_index b, cr_computed_checksum = Some e, cr_delayed = False\<rparr> \<and>
       df_dest fs'' = Some (take (bg_append_offset b) (basis_of b fs) @ d) \<and> df_backup fs'' = backed_up config fs \<and> df_staging fs'' = df_staging fs"
proof -
  have st: "op_begin st = b" "op_needs_rename st = needs_rename_of b" "op_verifier st = Some (cv_update d v)" "op_bytes_written st = length d"
      "of_bytes (bw_view (op_writer st)) = take (bg_append_offset b) (basis_of b fs) @ d @ drop (bg_append_offset b + length d) (basis_of b fs)"
    using assms(1) by (simp_all add: body_inv_def file_at_def)
  show ?thesis
  proof (cases "bg_is_inplace b")
    case True
    then have r: "\<not> needs_rename_of b" by (simp add: needs_rename_of_def)
    then obtain x where "fs' = (inplace_backup config b fs)\<lparr>df_dest := x\<rparr>" using assms(2) by (auto simp: same_files_def)
    then show ?thesis
      using st r True assms(3-7) assms(8) [unfolded faultless_def]
      by (auto simp: end_file_def Let_def split_def verify_whole_file_checksum_def finalize_checksum_def share_dest_def commit_file_def
          remove_partial_dir_basis_def inplace_backup_def set_len_def dest_bytes_def)
  next
    case False
    then have r: "needs_rename_of b" using assms(3) by (simp add: needs_rename_of_def)
    then show ?thesis
      using st r False assms(2-7) assms(8) [unfolded faultless_def]
      by (auto simp: end_file_def Let_def split_def verify_whole_file_checksum_def finalize_checksum_def share_dest_def commit_file_def
          remove_partial_dir_basis_def inplace_backup_def same_files_def basis_of_def backed_up_def make_backup_def split: option.splits)
  qed
qed


section \<open>What the thread guarantees\<close>

text \<open>A thread that has just been started, over one file \<open>f\<close> that holds \<open>[1, 2, 3, 4]\<close>.\<close>

definition demo_thread :: disk_thread where
  "demo_thread =
    \<lparr>dt_fs = (\<lambda>_. \<lparr>df_dest = None, df_partial = None, df_staging = None, df_backup = None\<rparr>)
       (''f'' := \<lparr>df_dest = Some [1, 2, 3, 4], df_partial = None, df_staging = None, df_backup = None\<rparr>),
     dt_phase = Idle\<rparr>"

definition demo_begin :: "bool \<Rightarrow> nat \<Rightarrow> BeginMessage" where
  "demo_begin inplace ofs =
    \<lparr>bg_file_path = ''f'', bg_target_size = 5, bg_file_entry_index = 0, bg_checksum_verifier = Some (CvMd5 []),
     bg_is_device_target = False, bg_is_inplace = inplace, bg_append_offset = ofs\<rparr>"

definition demo_config :: DiskCommitConfig where
  "demo_config = \<lparr>dc_append_verify = False, dc_partial_mode = PartialNone, dc_backup = True, dc_delay_updates = False\<rparr>"



text \<open>The comment on \<open>withhold_failed_commit\<close> says the temporary file is never renamed over the destination;
  with \<open>PartialMode::Partial\<close> it is.\<close>

lemma failed_verification_replaces_destination:
  assumes "op_needs_rename st" "op_verifier st = Some v" "finalize_into H v \<noteq> e" "e \<noteq> []" "dc_partial_mode config = Partial"
    "fault_flush fl (op_begin st) = None" "fault_retain fl (op_begin st) = None"
  shows "df_dest (snd (end_file fl config H st e fs)) = Some (of_bytes (bw_view (op_writer st)))"
  using assms
  by (simp add: end_file_def Let_def split_def verify_whole_file_checksum_def finalize_checksum_def withhold_failed_commit_def retain_partial_file_def)

text \<open>C6: A committed file has the content of its stream.  When nothing fails, a file sent as \<open>Begin\<close>, chunks and skipped
  blocks, and \<open>Commit\<close> with the digest of its data gives one successful result; its destination holds the bytes that
  an append keeps and then the data of the messages, at its exact length, whether it was written to a temporary
  file or in place, where a skipped block has to be what the file already holds; the previous content is in the backup
  if one is configured; no other destination changes.\<close>

theorem commit_installs_stream:
  assumes "dt_phase th = Idle" "faultless fl b" "\<not> bg_is_device_target b" "\<not> dc_delay_updates config"
    "\<forall>m \<in> set body. body_message m" "skips_ok (basis_of b (dt_fs th p)) (bg_append_offset b) body"
    "bg_append_offset b \<le> length (basis_of b (dt_fs th p))" "p = bg_file_path b" "bg_checksum_verifier b = Some v"
    "0 < bg_append_offset b \<longrightarrow> bg_target_size b = bg_append_offset b + length (concat (map msg_data body))"
    "e = finalize_into H (cv_update (hashed_prefix config b (dt_fs th p) @ concat (map msg_data body)) v)"
  shows "\<exists>th'. disk_run fl config H (Begin b # body @ [Commit e]) th =
      ([Inr \<lparr>cr_bytes_written = length (concat (map msg_data body)), cr_file_entry_index = bg_file_entry_index b,
             cr_computed_checksum = Some e, cr_delayed = False\<rparr>], th') \<and>
    dt_phase th' = Idle \<and>
    df_dest (dt_fs th' p) = Some (take (bg_append_offset b) (basis_of b (dt_fs th p)) @ concat (map msg_data body)) \<and>
    df_backup (dt_fs th' p) = backed_up config (dt_fs th p) \<and>
    (\<forall>q. q \<noteq> p \<longrightarrow> dt_fs th' q = dt_fs th q)"
proof -
  let ?fs = "dt_fs th p" and ?v = "cv_update (hashed_prefix config b (dt_fs th p)) v" and ?data = "concat (map msg_data body)"
  obtain st fs1 where st: "begin_file fl config b ?fs = (Begun st, fs1)"
      "same_files (needs_rename_of b) (inplace_backup config b ?fs) fs1" "body_inv (basis_of b ?fs) b (Some ?v) [] st"
    using begin_file_ok [OF assms(2,3,7), of config] assms(9) by auto
  let ?th = "\<lparr>dt_fs = (dt_fs th)(p := fs1), dt_phase = Writing st\<rparr>"
  have b: "disk_step fl config H (Some (Begin b)) th = (None, ?th)"
    using assms(1,8) st(1) by (simp add: disk_step_def process_begin_def goes_on_def Let_def)
  obtain st' fs' where body: "disk_run fl config H (body @ [Commit e]) ?th =
        disk_run fl config H [Commit e] \<lparr>dt_fs = (dt_fs ?th)(p := fs'), dt_phase = Writing st'\<rparr>"
      "body_inv (basis_of b ?fs) b (Some ?v) ?data st'" "same_files (needs_rename_of b) (inplace_backup config b ?fs) fs'"
    using body_run [of ?th st "basis_of b ?fs" b "Some ?v" "[]" fl body "inplace_backup config b ?fs" config H "[Commit e]"] st assms
    by (auto simp: faultless_def)
  have e: "e = finalize_into H (cv_update ?data ?v)" using assms(11) by simp
  let ?r = "\<lparr>cr_bytes_written = length ?data, cr_file_entry_index = bg_file_entry_index b, cr_computed_checksum = Some e, cr_delayed = False\<rparr>"
  obtain fs2 where fs2: "end_file fl config H st' e fs' = (Inr ?r, fs2)" "df_dest fs2 = Some (take (bg_append_offset b) (basis_of b ?fs) @ ?data)"
      "df_backup fs2 = backed_up config ?fs"
    using end_file_ok [OF body(2,3) assms(3,7,4,10) e assms(2)] by (cases "end_file fl config H st' e fs'") simp
  let ?th2 = "\<lparr>dt_fs = (dt_fs ?th)(p := fs'), dt_phase = Writing st'\<rparr>"
  have "op_path st' = p" using body(2) assms(8) by (simp add: body_inv_def op_path_def)
  then have "disk_run fl config H [Commit e] ?th2 = ([Inr ?r], \<lparr>dt_fs = (dt_fs ?th2)(p := fs2), dt_phase = Idle\<rparr>)"
    using fs2(1) commit_step [of ?th2 st' fl config H e] by (simp add: is_terminal_def)
  moreover have "disk_run fl config H (Begin b # body @ [Commit e]) th = disk_run fl config H (body @ [Commit e]) ?th" by (simp add: b)
  ultimately show ?thesis using fs2 by (intro exI [of _ "\<lparr>dt_fs = (dt_fs ?th2)(p := fs2), dt_phase = Idle\<rparr>"]) (simp add: body(1))
qed

theorem commit_installs_stream_witness:
  "\<exists>th'. disk_run no_faults demo_config toy_crates
      (Begin (demo_begin True 0) # [Chunk [7], SkipMatched [2, 3]] @ [Commit (finalize_into toy_crates (CvMd5 [7, 2, 3]))]) demo_thread =
      ([Inr \<lparr>cr_bytes_written = 3, cr_file_entry_index = 0,
             cr_computed_checksum = Some (finalize_into toy_crates (CvMd5 [7, 2, 3])), cr_delayed = False\<rparr>], th') \<and>
    df_dest (dt_fs th' ''f'') = Some [7, 2, 3] \<and> df_backup (dt_fs th' ''f'') = Some [1, 2, 3, 4]"
proof -
  note defs = demo_thread_def demo_config_def demo_begin_def no_faults_def
  have fs: "basis_of (demo_begin True 0) (dt_fs demo_thread ''f'') = [1, 2, 3, 4]"
      "hashed_prefix demo_config (demo_begin True 0) (dt_fs demo_thread ''f'') = []" "backed_up demo_config (dt_fs demo_thread ''f'') = Some [1, 2, 3, 4]"
    by (simp_all add: defs basis_of_def needs_rename_of_def dest_bytes_def hashed_prefix_def backed_up_def)
  have "dt_phase demo_thread = Idle" "faultless no_faults (demo_begin True 0)" "\<not> bg_is_device_target (demo_begin True 0)"
      "\<not> dc_delay_updates demo_config" "bg_append_offset (demo_begin True 0) = 0" "''f'' = bg_file_path (demo_begin True 0)"
      "bg_checksum_verifier (demo_begin True 0) = Some (CvMd5 [])" "bg_file_entry_index (demo_begin True 0) = 0"
    by (simp_all add: defs faultless_def)
  note facts = this fs
  from commit_installs_stream [of demo_thread no_faults "demo_begin True 0" demo_config "[Chunk [7], SkipMatched [2, 3]]" "''f''" "CvMd5 []"
      "finalize_into toy_crates (CvMd5 [7, 2, 3])" toy_crates]
  show ?thesis using facts by (auto simp del: disk_run.simps simp add: cv_update_def)
qed

text \<open>C15: Coalescing is exact.  A file sent as \<open>Begin\<close>, any number of \<open>Chunk\<close>s and \<open>Commit\<close> leaves the same
  files, the same thread and the same single result as one \<open>WholeFile\<close> message with the concatenated data: the
  buffering of the writer and the sizes of the chunks cannot be observed.  This includes a checksum that does not match,
  an output that cannot be opened and a commit that fails (a failed flush only for a temporary file: in place, what was
  flushed before stays); it excludes failing writes, failures between the open and the first message, and errors that end
  the thread.\<close>

theorem chunked_equals_whole:
  assumes "dt_phase th = Idle" "\<forall>n. fault_write fl b n = None"
    "\<forall>err. fst (begin_file fl config b (dt_fs th (bg_file_path b))) \<noteq> Begin_Failed err"
    "\<forall>err. fst (begin_file fl config b (dt_fs th (bg_file_path b))) = Open_Failed err \<longrightarrow> \<not> is_terminal (Inl err)"
    "\<forall>err. commit_fault fl b err \<longrightarrow> \<not> is_terminal (Inl err)" "fault_flush fl b = None \<or> needs_rename_of b"
  shows "disk_run fl config H (Begin b # map Chunk ds @ [Commit e]) th = disk_run fl config H [WholeFile b (concat ds) e] th"
proof (cases "begin_file fl config b (dt_fs th (bg_file_path b))")
  case (Pair bg fs)
  show ?thesis
  proof (cases bg)
    case (Begun st)
    have st: "op_begin st = b" "op_path st = bg_file_path b" "op_needs_rename st = needs_rename_of b"
      using begin_file_cases [OF Pair [unfolded Begun]] by (auto simp: op_path_def)
    have "same_file (taken [] st) st" by (cases "op_verifier st") (simp_all add: same_file_def advance_def)
    moreover have "\<not> is_terminal (fst (end_file fl config H (taken (concat ds) st) e fs))"
      using end_file_fault [of fl config H "taken (concat ds) st" e fs] assms(5) st(1)
      by (cases "fst (end_file fl config H (taken (concat ds) st) e fs)") (auto, simp add: is_terminal_def)
    ultimately show ?thesis
      using assms st Pair Begun chunks_commit [of "\<lparr>dt_fs = (dt_fs th)(op_path st := fs), dt_phase = Writing st\<rparr>" st fl "[]" st fs config H ds e]
      by (simp add: disk_step_def process_begin_def process_whole_file_def goes_on_def Let_def split_def)
  next
    case (Open_Failed err)
    then show ?thesis
      using assms Pair discard_commit [of "\<lparr>dt_fs = (dt_fs th)(bg_file_path b := fs), dt_phase = Discarding b err\<rparr>" b err fl config H ds e]
      by (simp add: disk_step_def process_begin_def process_whole_file_def goes_on_def Let_def)
  qed (use assms Pair in auto)
qed

theorem chunked_equals_whole_witness:
  "disk_run no_faults demo_config toy_crates (Begin (demo_begin False 0) # map Chunk [[7], [], [8, 9]] @ [Commit [1]]) demo_thread =
   disk_run no_faults demo_config toy_crates [WholeFile (demo_begin False 0) [7, 8, 9] [1]] demo_thread"
  using chunked_equals_whole [of demo_thread no_faults "demo_begin False 0" demo_config toy_crates "[[7], [], [8, 9]]" "[1]"]
  by (simp add: demo_thread_def no_faults_def demo_begin_def demo_config_def temp_begin_file temp_begin_def needs_rename_of_def commit_fault_def)

text \<open>C21: The states of the thread are well formed.  In every state it reaches, the buffer is within its capacity, the file
  being written is renamed at the end exactly when it is neither in place nor a device, the writer stands where the
  data received so far ends, the verifier is kept, and an in-place file is the destination.\<close>

theorem disk_thread_well_formed:
  assumes "dt_phase th = Idle"
  shows "thread_wf (snd (disk_run fl config H ms th))"
  using assms by (intro disk_run_wf) (simp add: thread_wf_def)

theorem disk_thread_well_formed_witness:
  "thread_wf (snd (disk_run no_faults demo_config toy_crates [Begin (demo_begin True 2), Chunk [7], SkipMatched [4]] demo_thread))"
  by (rule disk_thread_well_formed) (simp add: demo_thread_def)

end
