(* ===== verification/Pipeline.thy ===== *)
theory Pipeline
  imports Disk_Commit
begin

text \<open>
  The two threads of the pipelined receiver and the bounded channels between them:
  \<open>crates/transfer/src/pipeline/receiver.rs\<close> (the bookkeeping of the results, the drains and the shutdown),
  \<open>pipeline/spsc.rs\<close>, \<open>disk_commit/thread.rs\<close> and the order of calls in \<open>receiver/transfer/pipeline.rs\<close>.
  A step of the system is one operation of one thread on a channel; every interleaving of the steps is an
  execution.  A thread that spins on a full or an empty channel has no step.  The recycling of buffers, which only
  tries to send, is not part of the state.
\<close>

section \<open>The mediator\<close>

record PendingChecksum =
  pc_expected :: bytes
  pc_file_path :: path
  pc_file_index :: nat
  pc_is_inplace :: bool

datatype kept = Discarded | Put_Into_Partial_Dir | Retained

datatype warning = Mkstemp_Failed path | Will_Try_Again path kept | Failed_Verification path kept

record PipelinedReceiver =
  pr_pending_commits :: nat
  pr_expected_checksums :: "PendingChecksum list"
  pr_redo_indices :: "nat list"
  pr_redo_enabled :: bool
  pr_permission_error_count :: nat
  pr_warnings :: "warning list"
  pr_delayed_updates :: "path list"
  pr_success_indices :: "nat list"
  pr_partial_mode :: PartialMode

definition pr_new :: "DiskCommitConfig \<Rightarrow> PipelinedReceiver" where
  "pr_new config =
    \<lparr>pr_pending_commits = 0, pr_expected_checksums = [], pr_redo_indices = [], pr_redo_enabled = True, pr_permission_error_count = 0,
     pr_warnings = [], pr_delayed_updates = [], pr_success_indices = [], pr_partial_mode = dc_partial_mode config\<rparr>"

definition verification_kept_str :: "PartialMode \<Rightarrow> bool \<Rightarrow> kept" where
  "verification_kept_str partial_mode is_inplace =
    (if partial_mode = PartialNone \<and> \<not> is_inplace then Discarded
     else if partial_mode = PartialDir then Put_Into_Partial_Dir
     else Retained)"

definition note_commit_sent :: "PendingChecksum \<Rightarrow> PipelinedReceiver \<Rightarrow> PipelinedReceiver" where
  "note_commit_sent p pr =
    pr\<lparr>pr_pending_commits := pr_pending_commits pr + 1, pr_expected_checksums := pr_expected_checksums pr @ [p]\<rparr>"

definition verify_checksum :: "CommitResult \<Rightarrow> PipelinedReceiver \<Rightarrow> PipelinedReceiver" where
  "verify_checksum result pr =
    (case pr_expected_checksums pr of
       [] \<Rightarrow> pr
     | p # rest \<Rightarrow>
         let pr = pr\<lparr>pr_expected_checksums := rest\<rparr>
         in case cr_computed_checksum result of
              Some computed \<Rightarrow>
                if computed \<noteq> pc_expected p
                then let kept = verification_kept_str (pr_partial_mode pr) (pc_is_inplace p)
                     in if pr_redo_enabled pr
                        then pr\<lparr>pr_warnings := pr_warnings pr @ [Will_Try_Again (pc_file_path p) kept],
                                pr_redo_indices := pr_redo_indices pr @ [pc_file_index p]\<rparr>
                        else pr\<lparr>pr_warnings := pr_warnings pr @ [Failed_Verification (pc_file_path p) kept]\<rparr>
                else pr\<lparr>pr_success_indices := pr_success_indices pr @ [pc_file_index p]\<rparr>
            | None \<Rightarrow> pr\<lparr>pr_success_indices := pr_success_indices pr @ [pc_file_index p]\<rparr>)"

definition collect_delayed_update :: "CommitResult \<Rightarrow> PipelinedReceiver \<Rightarrow> PipelinedReceiver" where
  "collect_delayed_update result pr =
    (if cr_delayed result
     then case pr_expected_checksums pr of
            p # _ \<Rightarrow> pr\<lparr>pr_delayed_updates := pr_delayed_updates pr @ [pc_file_path p]\<rparr>
          | [] \<Rightarrow> pr
     else pr)"

definition is_permission_error :: "disk_error \<Rightarrow> bool" where
  "is_permission_error e = (e = De_PermissionDenied)"

text \<open>One result in \<open>drain_ready_results\<close> and \<open>drain_all_results\<close>: an error ends the drain.\<close>

definition take_result :: "disk_result \<Rightarrow> PipelinedReceiver \<Rightarrow> disk_error option \<times> PipelinedReceiver" where
  "take_result r pr =
    (case r of
       Inr result \<Rightarrow>
         let pr = verify_checksum result (collect_delayed_update result pr)
         in (None, pr\<lparr>pr_pending_commits := pr_pending_commits pr - 1\<rparr>)
     | Inl e \<Rightarrow>
         let (pending, rest) = (case pr_expected_checksums pr of [] \<Rightarrow> (None, []) | p # rest \<Rightarrow> (Some p, rest));
             pr = pr\<lparr>pr_pending_commits := pr_pending_commits pr - 1, pr_expected_checksums := rest\<rparr>
         in if is_permission_error e
            then let p = (case pending of Some p \<Rightarrow> pc_file_path p | None \<Rightarrow> [])
                 in (None, pr\<lparr>pr_warnings := pr_warnings pr @ [Mkstemp_Failed p],
                               pr_permission_error_count := pr_permission_error_count pr + 1\<rparr>)
            else (Some e, pr))"

definition take_redo_indices :: "PipelinedReceiver \<Rightarrow> nat list \<times> PipelinedReceiver" where
  "take_redo_indices pr = (pr_redo_indices pr, pr\<lparr>pr_redo_enabled := False, pr_redo_indices := []\<rparr>)"

section \<open>The threads and the channels\<close>

definition MIN_CHANNEL_CAPACITY :: nat where "MIN_CHANNEL_CAPACITY = 8"
definition MAX_CHANNEL_CAPACITY :: nat where "MAX_CHANNEL_CAPACITY = 4096"

definition effective_channel_capacity :: "nat \<Rightarrow> nat" where
  "effective_channel_capacity channel_capacity = max MIN_CHANNEL_CAPACITY (min MAX_CHANNEL_CAPACITY channel_capacity)"

datatype net_action = Send FileMessage | NoteCommit PendingChecksum | DrainReady | DrainAll

datatype net_state = Running "net_action list" | Closing_Drain | Closing_Send | Closing_Join | Closed

record pipe =
  ps_net :: net_state
  ps_receiver :: PipelinedReceiver
  ps_chan :: "FileMessage list"
  ps_disk :: disk_thread
  ps_out :: "disk_result option"
  ps_results :: "disk_result list"

text \<open>The calls for one file, and for a list of files.\<close>

definition file_program :: "FileMessage list \<times> PendingChecksum \<Rightarrow> net_action list" where
  "file_program f = map Send (fst f) @ [NoteCommit (snd f), DrainReady]"

definition run_program :: "(FileMessage list \<times> PendingChecksum) list \<Rightarrow> net_action list" where
  "run_program files = concat (map file_program files) @ [DrainAll]"

definition spawn :: "DiskCommitConfig \<Rightarrow> (path \<Rightarrow> dest_files) \<Rightarrow> (FileMessage list \<times> PendingChecksum) list \<Rightarrow> pipe" where
  "spawn config fs files =
    \<lparr>ps_net = Running (run_program files), ps_receiver = pr_new config, ps_chan = [], ps_disk = \<lparr>dt_fs = fs, dt_phase = Idle\<rparr>,
     ps_out = None, ps_results = []\<rparr>"

text \<open>The disk thread has ended, which drops its ends of the channels.\<close>

definition thread_dead :: "pipe \<Rightarrow> bool" where
  "thread_dead s = (dt_phase (ps_disk s) = Stopped \<and> ps_out s = None)"

text \<open>Take one result; \<open>next\<close> is where the network thread goes on, \<open>failed\<close> where it goes after an error.\<close>

definition net_take :: "net_state \<Rightarrow> net_state \<Rightarrow> disk_result \<Rightarrow> disk_result list \<Rightarrow> pipe \<Rightarrow> pipe" where
  "net_take next failed r rs s =
    (let (err, pr) = take_result r (ps_receiver s)
     in s\<lparr>ps_results := rs, ps_receiver := pr, ps_net := (case err of None \<Rightarrow> next | Some _ \<Rightarrow> failed)\<rparr>)"

definition net_send :: "nat \<Rightarrow> FileMessage \<Rightarrow> net_state \<Rightarrow> net_state \<Rightarrow> pipe \<Rightarrow> pipe option" where
  "net_send cap m next failed s =
    (if thread_dead s then Some (s\<lparr>ps_net := failed\<rparr>)
     else if length (ps_chan s) < cap then Some (s\<lparr>ps_chan := ps_chan s @ [m], ps_net := next\<rparr>)
     else None)"

definition net_drain_all :: "net_state \<Rightarrow> net_state \<Rightarrow> net_state \<Rightarrow> pipe \<Rightarrow> pipe option" where
  "net_drain_all here next failed s =
    (if pr_pending_commits (ps_receiver s) = 0 then Some (s\<lparr>ps_net := next\<rparr>)
     else case ps_results s of
            r # rs \<Rightarrow> Some (net_take here failed r rs s)
          | [] \<Rightarrow> if thread_dead s then Some (s\<lparr>ps_net := failed\<rparr>) else None)"

definition net_drain_ready :: "net_state \<Rightarrow> net_state \<Rightarrow> net_state \<Rightarrow> pipe \<Rightarrow> pipe option" where
  "net_drain_ready here next failed s =
    (case ps_results s of
       r # rs \<Rightarrow> Some (net_take here failed r rs s)
     | [] \<Rightarrow> if thread_dead s \<and> 0 < pr_pending_commits (ps_receiver s) then Some (s\<lparr>ps_net := failed\<rparr>)
            else Some (s\<lparr>ps_net := next\<rparr>))"

definition net_step :: "nat \<Rightarrow> pipe \<Rightarrow> pipe option" where
  "net_step cap s =
    (case ps_net s of
       Running (Send m # as) \<Rightarrow> net_send cap m (Running as) Closing_Drain s
     | Running (NoteCommit p # as) \<Rightarrow> Some (s\<lparr>ps_receiver := note_commit_sent p (ps_receiver s), ps_net := Running as\<rparr>)
     | Running (DrainReady # as) \<Rightarrow> net_drain_ready (ps_net s) (Running as) Closing_Drain s
     | Running (DrainAll # as) \<Rightarrow> net_drain_all (ps_net s) (Running as) Closing_Drain s
     | Running [] \<Rightarrow> Some (s\<lparr>ps_net := Closing_Drain\<rparr>)
     | Closing_Drain \<Rightarrow> net_drain_all Closing_Drain Closing_Send Closing_Send s
     | Closing_Send \<Rightarrow> net_send cap Shutdown Closing_Join Closing_Join s
     | Closing_Join \<Rightarrow> if thread_dead s then Some (s\<lparr>ps_net := Closed\<rparr>) else None
     | Closed \<Rightarrow> None)"

definition disk_turn :: "disk_faults \<Rightarrow> DiskCommitConfig \<Rightarrow> hash_crates \<Rightarrow> nat \<Rightarrow> pipe \<Rightarrow> pipe option" where
  "disk_turn fl config H cap s =
    (case ps_out s of
       Some r \<Rightarrow> if length (ps_results s) < cap * 2 then Some (s\<lparr>ps_results := ps_results s @ [r], ps_out := None\<rparr>) else None
     | None \<Rightarrow>
         if dt_phase (ps_disk s) = Stopped then None
         else case ps_chan s of
                [] \<Rightarrow> None
              | m # ms \<Rightarrow>
                  let (r, th) = disk_step fl config H (Some m) (ps_disk s)
                  in Some (s\<lparr>ps_chan := ms, ps_disk := th, ps_out := r\<rparr>))"

inductive pipe_step :: "disk_faults \<Rightarrow> DiskCommitConfig \<Rightarrow> hash_crates \<Rightarrow> nat \<Rightarrow> pipe \<Rightarrow> pipe \<Rightarrow> bool"
  for fl config H cap where
  network: "net_step cap s = Some s' \<Longrightarrow> pipe_step fl config H cap s s'"
| disk: "disk_turn fl config H cap s = Some s' \<Longrightarrow> pipe_step fl config H cap s s'"

inductive_cases pipe_stepE: "pipe_step fl config H cap s s'"

section \<open>Every execution ends\<close>

primrec action_weight :: "net_action \<Rightarrow> nat" where
  "action_weight (Send _) = 5"
| "action_weight (NoteCommit _) = 1"
| "action_weight DrainReady = 1"
| "action_weight DrainAll = 1"

primrec net_weight :: "net_state \<Rightarrow> nat" where
  "net_weight (Running as) = 13 + sum_list (map action_weight as)"
| "net_weight Closing_Drain = 12"
| "net_weight Closing_Send = 11"
| "net_weight Closing_Join = 5"
| "net_weight Closed = 0"

text \<open>What is left to do: a message passes through the channel, the disk thread and the result channel.\<close>

definition work_left :: "pipe \<Rightarrow> nat" where
  "work_left s = net_weight (ps_net s) + 4 * length (ps_chan s) + (case ps_out s of None \<Rightarrow> 0 | Some _ \<Rightarrow> 2) + length (ps_results s)"

lemma net_take_weight:
  "ps_results s = r # rs \<Longrightarrow> net_weight here \<le> net_weight (ps_net s) \<Longrightarrow> net_weight failed \<le> net_weight (ps_net s) \<Longrightarrow>
    work_left (net_take here failed r rs s) < work_left s"
  by (simp add: net_take_def work_left_def Let_def split_def split: option.splits)

lemma net_step_weight: "net_step cap s = Some s' \<Longrightarrow> work_left s' < work_left s"
  by (auto simp: net_step_def net_send_def net_drain_all_def net_drain_ready_def split: net_state.splits list.splits net_action.splits if_splits
      intro!: net_take_weight)
    (auto simp: work_left_def)

lemma disk_turn_weight: "disk_turn fl config H cap s = Some s' \<Longrightarrow> work_left s' < work_left s"
  by (auto simp: disk_turn_def work_left_def Let_def split_def split: option.splits list.splits if_splits)

lemma pipe_step_weight: "pipe_step fl config H cap s s' \<Longrightarrow> work_left s' < work_left s"
  by (auto elim!: pipe_stepE dest: net_step_weight disk_turn_weight)


lemma pipe_steps_weight: "(pipe_step fl config H cap ^^ n) s s' \<Longrightarrow> n + work_left s' \<le> work_left s"
proof (induction n arbitrary: s')
  case (Suc n)
  then obtain t where "(pipe_step fl config H cap ^^ n) s t" "pipe_step fl config H cap t s'" by auto
  then show ?case using Suc.IH pipe_step_weight by fastforce
qed simp

lemma run_program_weight: "sum_list (map action_weight (run_program files)) = 1 + (\<Sum>f\<leftarrow>files. 5 * length (fst f) + 2)"
proof -
  have "sum_list (map (action_weight \<circ> Send) ms) = 5 * length ms" for ms by (induction ms) simp_all
  then have "sum_list (map action_weight (file_program f)) = 5 * length (fst f) + 2" for f by (simp add: file_program_def)
  then show ?thesis by (induction files) (simp_all add: run_program_def)
qed

section \<open>The shape of the traffic\<close>

fun ender :: "FileMessage \<Rightarrow> bool" where
  "ender (Commit _) = True"
| "ender (WholeFile _ _ _) = True"
| "ender _ = False"

text \<open>Whether a file is open before and after a message.\<close>

fun after_msg :: "bool \<Rightarrow> FileMessage \<Rightarrow> bool option" where
  "after_msg False (Begin _) = Some True"
| "after_msg False (WholeFile _ _ _) = Some False"
| "after_msg True (Chunk _) = Some True"
| "after_msg True (SkipMatched _) = Some True"
| "after_msg True (Commit _) = Some False"
| "after_msg _ _ = None"

fun aligned :: "bool \<Rightarrow> FileMessage list \<Rightarrow> bool" where
  "aligned i [] = (\<not> i)"
| "aligned i (m # ms) = (case after_msg i m of Some j \<Rightarrow> aligned j ms | None \<Rightarrow> False)"

abbreviation enders :: "FileMessage list \<Rightarrow> nat" where
  "enders ms \<equiv> length (filter ender ms)"

text \<open>The messages of one file.\<close>

definition file_messages :: "FileMessage list \<Rightarrow> bool" where
  "file_messages ms = (aligned False ms \<and> enders ms = 1)"

lemma aligned_append: "aligned i xs \<Longrightarrow> aligned False ys \<Longrightarrow> aligned i (xs @ ys)"
  by (induction xs arbitrary: i) (auto split: option.splits)

lemma aligned_excl: "aligned True ys \<Longrightarrow> \<not> aligned False ys"
  by (cases ys; cases "hd ys") auto

lemma aligned_split: "aligned i (xs @ ys) \<Longrightarrow> aligned False ys \<Longrightarrow> aligned i xs"
  using aligned_excl by (induction xs arbitrary: i) (auto split: option.splits)

fun sends :: "net_action list \<Rightarrow> FileMessage list" where
  "sends [] = []"
| "sends (Send m # as) = m # sends as"
| "sends (_ # as) = sends as"

fun noted_in :: "net_action list \<Rightarrow> PendingChecksum list" where
  "noted_in [] = []"
| "noted_in (NoteCommit p # as) = p # noted_in as"
| "noted_in (_ # as) = noted_in as"

definition balanced :: "net_action list \<Rightarrow> bool" where
  "balanced as = (length (noted_in as) = enders (sends as) \<and> aligned False (sends as))"

text \<open>\<open>k\<close> more files may end before the next drain.\<close>

fun ok_program :: "nat \<Rightarrow> net_action list \<Rightarrow> bool" where
  "ok_program k [] = True"
| "ok_program k (Send m # as) = (if ender m then 0 < k \<and> ok_program (k - 1) as else ok_program k as)"
| "ok_program k (NoteCommit _ # as) = ok_program k as"
| "ok_program k (DrainReady # as) = (balanced as \<and> ok_program 1 as)"
| "ok_program k (DrainAll # as) = (balanced as \<and> ok_program k as)"

lemma sends_append [simp]: "sends (as @ bs) = sends as @ sends bs"
  by (induction as rule: sends.induct) auto

lemma notes_append [simp]: "noted_in (as @ bs) = noted_in as @ noted_in bs"
  by (induction as rule: noted_in.induct) auto

lemma sends_map_Send [simp]: "sends (map Send ms) = ms" "noted_in (map Send ms) = []"
  by (induction ms) auto

lemma run_program_traffic: "sends (run_program files) = concat (map fst files)" "noted_in (run_program files) = map snd files"
  by (induction files) (auto simp: run_program_def file_program_def)

lemma ok_program_sends: "enders ms \<le> k \<Longrightarrow> ok_program (k - enders ms) as \<Longrightarrow> ok_program k (map Send ms @ as)"
  by (induction ms arbitrary: k) (auto simp: Suc_le_eq dest: Suc_le_lessD)

lemma balanced_run_program: "\<forall>f \<in> set files. file_messages (fst f) \<Longrightarrow> balanced (run_program files)"
  by (induction files) (auto simp: balanced_def run_program_traffic file_messages_def intro: aligned_append)

lemma ok_run_program: "\<forall>f \<in> set files. file_messages (fst f) \<Longrightarrow> ok_program 1 (run_program files)"
proof (induction files)
  case Nil
  then show ?case by (simp add: run_program_def balanced_def)
next
  case (Cons f files)
  have "run_program (f # files) = map Send (fst f) @ NoteCommit (snd f) # DrainReady # run_program files"
    by (simp add: run_program_def file_program_def)
  then show ?case using Cons balanced_run_program [of files] by (auto simp: file_messages_def intro: ok_program_sends)
qed

section \<open>The disk thread keeps in step\<close>

definition in_file :: "disk_phase \<Rightarrow> bool" where
  "in_file ph = (case ph of Writing _ \<Rightarrow> True | Discarding _ _ \<Rightarrow> True | _ \<Rightarrow> False)"

definition phase_ok :: "disk_phase \<Rightarrow> bool" where
  "phase_ok ph = (case ph of Stopped \<Rightarrow> False | Discarding _ e \<Rightarrow> \<not> is_terminal (Inl e) | _ \<Rightarrow> True)"

text \<open>Only opening an output and committing a file fail, with errors that do not end the thread: after such a failure
  all messages of the file have been received.\<close>

definition only_drained_faults :: "disk_faults \<Rightarrow> DiskCommitConfig \<Rightarrow> bool" where
  "only_drained_faults fl config =
    (\<not> dc_append_verify config \<and>
     (\<forall>b. (\<forall>n. fault_write fl b n = None) \<and> (bg_is_inplace b \<longrightarrow> fault_backup fl b = None) \<and>
       (\<forall>e. fault_open fl b = Some e \<or> commit_fault fl b e \<longrightarrow> \<not> is_terminal (Inl e))))"

lemma begin_file_only_drained_faults:
  assumes "only_drained_faults fl config" "begin_file fl config b fs = (bg, fs')"
  shows "(\<exists>st. bg = Begun st) \<or> (\<exists>e. bg = Open_Failed e \<and> \<not> is_terminal (Inl e))"
  using assms
  by (auto simp: only_drained_faults_def begin_file_def make_inplace_backup_def open_output_file_def sum_append_prefix_def is_terminal_def Let_def
      split: if_splits option.splits)

lemma end_file_goes_on:
  assumes "only_drained_faults fl config"
  shows "\<not> is_terminal (fst (end_file fl config H st e fs))"
proof (cases "fst (end_file fl config H st e fs)")
  case (Inl err)
  then show ?thesis using assms end_file_fault [OF Inl] by (simp add: only_drained_faults_def)
qed (simp add: is_terminal_def)

lemma disk_step_aligned:
  assumes "only_drained_faults fl config" "phase_ok (dt_phase th)" "after_msg (in_file (dt_phase th)) m = Some j"
  shows "(fst (disk_step fl config H (Some m) th) \<noteq> None) = ender m \<and>
    phase_ok (dt_phase (snd (disk_step fl config H (Some m) th))) \<and> in_file (dt_phase (snd (disk_step fl config H (Some m) th))) = j"
proof (cases "dt_phase th")
  case Idle
  then show ?thesis
    using assms(3) begin_file_only_drained_faults [OF assms(1)]
    by (cases m; cases "begin_file fl config (case m of Begin b \<Rightarrow> b) (dt_fs th (bg_file_path (case m of Begin b \<Rightarrow> b)))")
      (fastforce simp: disk_step_def in_file_def phase_ok_def process_begin_def goes_on_def Let_def split_def split: begun.splits)+
next
  case (Writing st)
  then show ?thesis
    using assms(2,3) assms(1) [unfolded only_drained_faults_def] end_file_goes_on [OF assms(1)]
    by (cases m) (auto simp: disk_step_def in_file_def phase_ok_def process_message_def goes_on_def returns_def Let_def split_def)
next
  case (Discarding b e)
  then show ?thesis
    using assms(2,3) by (cases m) (auto simp: disk_step_def in_file_def phase_ok_def discard_message_def returns_def Let_def)
qed (use assms in \<open>simp add: phase_ok_def\<close>)


section \<open>The invariant of the two threads\<close>

text \<open>Files that were sent and whose result was not taken.\<close>

definition outstanding :: "pipe \<Rightarrow> nat" where
  "outstanding s = length (ps_results s) + (case ps_out s of None \<Rightarrow> 0 | Some _ \<Rightarrow> 1) + enders (ps_chan s)"

definition disk_ok :: "pipe \<Rightarrow> FileMessage list \<Rightarrow> bool" where
  "disk_ok s ms = (phase_ok (dt_phase (ps_disk s)) \<and> aligned (in_file (dt_phase (ps_disk s))) ms)"

text \<open>However the rest of the program goes on, no more than \<open>cap + 2\<close> files are outstanding.\<close>

definition room :: "nat \<Rightarrow> nat \<Rightarrow> net_action list \<Rightarrow> bool" where
  "room cap n as = (\<exists>k. n + k \<le> cap + 2 \<and> ok_program k as)"

lemma room_antimono: "room cap n as \<Longrightarrow> n' \<le> n \<Longrightarrow> room cap n' as"
  unfolding room_def using add_le_mono1 le_trans by blast

lemma room_bound: "room cap n as \<Longrightarrow> n \<le> cap + 2"
  by (auto simp: room_def)

lemma room_send:
  assumes "room cap n (Send m # as)" shows "room cap (n + (if ender m then 1 else 0)) as"
proof -
  obtain k where "n + k \<le> cap + 2" "ok_program k (Send m # as)" using assms by (auto simp: room_def)
  then show ?thesis unfolding room_def by (intro exI [of _ "k - (if ender m then 1 else 0)"]) (auto split: if_splits)
qed

lemma room_note [simp]: "room cap n (NoteCommit p # as) = room cap n as"
  by (simp add: room_def)

lemma room_drain_ready: "room cap n (DrainReady # as) \<Longrightarrow> n' \<le> cap + 1 \<Longrightarrow> room cap n' as"
  by (auto simp: room_def intro!: exI [of _ 1])

lemma room_drain:
  "room cap n (DrainAll # as) \<Longrightarrow> room cap n as" "room cap n (DrainReady # as) \<Longrightarrow> balanced as" "room cap n (DrainAll # as) \<Longrightarrow> balanced as"
  by (auto simp: room_def)

definition pipe_inv :: "nat \<Rightarrow> pipe \<Rightarrow> bool" where
  "pipe_inv cap s =
    (length (pr_expected_checksums (ps_receiver s)) = pr_pending_commits (ps_receiver s) \<and>
     (case ps_net s of
        Running as \<Rightarrow>
          disk_ok s (ps_chan s @ sends as) \<and> length (ps_chan s) \<le> cap \<and>
          pr_pending_commits (ps_receiver s) + length (noted_in as) = outstanding s + enders (sends as) \<and>
          room cap (outstanding s) as
      | Closing_Drain \<Rightarrow> disk_ok s (ps_chan s) \<and> outstanding s \<le> cap + 2 \<and> pr_pending_commits (ps_receiver s) = outstanding s
      | Closing_Send \<Rightarrow> disk_ok s (ps_chan s) \<and> outstanding s \<le> cap + 2
      | Closing_Join \<Rightarrow>
          outstanding s \<le> cap + 2 \<and>
          ((\<exists>ms. ps_chan s = ms @ [Shutdown] \<and> disk_ok s ms) \<or> ps_chan s = [] \<and> dt_phase (ps_disk s) = Stopped)
      | Closed \<Rightarrow> thread_dead s \<and> ps_chan s = []))"

lemma take_result_fields:
  "pr_pending_commits (snd (take_result r pr)) = pr_pending_commits pr - 1"
  "pr_expected_checksums (snd (take_result r pr)) = tl (pr_expected_checksums pr)"
  by (auto simp: take_result_def verify_checksum_def collect_delayed_update_def Let_def split: sum.splits list.splits option.splits)

lemma net_take_fields [simp]:
  "ps_chan (net_take a b r rs s) = ps_chan s" "ps_disk (net_take a b r rs s) = ps_disk s" "ps_out (net_take a b r rs s) = ps_out s"
  "ps_results (net_take a b r rs s) = rs" "ps_receiver (net_take a b r rs s) = snd (take_result r (ps_receiver s))"
  "ps_net (net_take a b r rs s) = (if fst (take_result r (ps_receiver s)) = None then a else b)"
  by (auto simp: net_take_def Let_def split_def split: option.splits)

lemma alive: "disk_ok s ms \<Longrightarrow> \<not> thread_dead s"
  by (auto simp: disk_ok_def thread_dead_def phase_ok_def)

lemma running_drain_inv:
  assumes I: "pipe_inv cap s" and net: "ps_net s = Running as" and r: "ps_results s = r # rs" and d: "as = DrainReady # as' \<or> as = DrainAll # as'"
  shows "pipe_inv cap (net_take (Running as) Closing_Drain r rs s)"
proof -
  let ?s = "net_take (Running as) Closing_Drain r rs s"
  have room: "room cap (outstanding s) as" using I net by (simp add: pipe_inv_def)
  have o: "outstanding s = Suc (outstanding ?s)" by (simp add: outstanding_def r)
  have bal: "balanced as'" "sends as = sends as'" "noted_in as = noted_in as'" using room d by (auto dest: room_drain)
  then have pending: "pr_pending_commits (ps_receiver s) = outstanding s" using I net by (simp add: pipe_inv_def balanced_def)
  then show ?thesis
    using I net bal o aligned_split [of _ "ps_chan s" "sends as'"] room_antimono [OF room] room_bound [OF room]
    by (auto simp: pipe_inv_def disk_ok_def take_result_fields balanced_def)
qed

lemma running_next_inv:
  assumes I: "pipe_inv cap s" and net: "ps_net s = Running as" and d: "as = DrainReady # as' \<and> ps_results s = [] \<or> as = DrainAll # as'"
  shows "pipe_inv cap (s\<lparr>ps_net := Running as'\<rparr>)"
proof -
  have room: "room cap (outstanding s) as" "length (ps_chan s) \<le> cap" using I net by (simp_all add: pipe_inv_def)
  then have "enders (ps_chan s) \<le> cap" using length_filter_le le_trans by blast
  then have "ps_results s = [] \<Longrightarrow> outstanding s \<le> cap + 1" by (simp add: outstanding_def split: option.splits)
  then have "room cap (outstanding s) as'" using room d by (auto dest: room_drain_ready room_drain)
  moreover have "outstanding (s\<lparr>ps_net := Running as'\<rparr>) = outstanding s" by (simp add: outstanding_def)
  ultimately show ?thesis using I net d by (auto simp: pipe_inv_def disk_ok_def)
qed

lemma running_send_inv:
  assumes I: "pipe_inv cap s" and net: "ps_net s = Running (Send m # as)" and free: "length (ps_chan s) < cap"
  shows "pipe_inv cap (s\<lparr>ps_chan := ps_chan s @ [m], ps_net := Running as\<rparr>)"
proof -
  let ?s = "s\<lparr>ps_chan := ps_chan s @ [m], ps_net := Running as\<rparr>"
  have "outstanding ?s = outstanding s + (if ender m then 1 else 0)" by (simp add: outstanding_def)
  moreover have "room cap (outstanding s) (Send m # as)" using I net by (simp add: pipe_inv_def)
  ultimately show ?thesis using I net free room_send [of cap "outstanding s" m as] by (auto simp: pipe_inv_def disk_ok_def split: if_splits)
qed

lemma running_step_inv:
  assumes inv: "pipe_inv cap s" and net: "ps_net s = Running as" and step: "net_step cap s = Some s'"
  shows "pipe_inv cap s'"
proof -
  have live: "\<not> thread_dead s" using inv net alive by (auto simp: pipe_inv_def)
  show ?thesis
  proof (cases as)
    case Nil
    then show ?thesis using inv step net by (auto simp: net_step_def pipe_inv_def disk_ok_def outstanding_def dest: room_bound)
  next
    case (Cons a as')
    show ?thesis
    proof (cases a)
      case (Send m)
      then have "length (ps_chan s) < cap" "s' = s\<lparr>ps_chan := ps_chan s @ [m], ps_net := Running as'\<rparr>"
        using step net Cons live by (simp_all add: net_step_def net_send_def split: if_splits)
      then show ?thesis using running_send_inv [OF inv] net Cons Send by simp
    next
      case (NoteCommit p)
      then show ?thesis
        using step net Cons inv by (auto simp: net_step_def pipe_inv_def disk_ok_def note_commit_sent_def outstanding_def)
    next
      case DrainReady
      then show ?thesis
        using step net Cons live running_next_inv [OF inv net, of as'] running_drain_inv [OF inv net, of _ _ as']
        by (cases "ps_results s") (auto simp: net_step_def net_drain_ready_def)
    next
      case DrainAll
      then show ?thesis
        using step net Cons live running_next_inv [OF inv net, of as'] running_drain_inv [OF inv net, of _ _ as']
        by (cases "ps_results s") (auto simp: net_step_def net_drain_all_def split: if_splits)
    qed
  qed
qed

lemma net_step_inv:
  assumes inv: "pipe_inv cap s" and step: "net_step cap s = Some s'"
  shows "pipe_inv cap s'"
proof (cases "ps_net s")
  case (Running as)
  then show ?thesis using running_step_inv [OF inv _ step] by blast
next
  case Closing_Drain
  note I = inv [unfolded pipe_inv_def Closing_Drain net_state.case]
  have live: "\<not> thread_dead s" using I alive by blast
  show ?thesis
  proof (cases "pr_pending_commits (ps_receiver s) = 0")
    case False
    then obtain r rs where "ps_results s = r # rs" "s' = net_take Closing_Drain Closing_Send r rs s"
      using step Closing_Drain live by (auto simp: net_step_def net_drain_all_def split: list.splits)
    then show ?thesis using I by (auto simp: pipe_inv_def disk_ok_def outstanding_def take_result_fields)
  qed (use I step Closing_Drain in \<open>auto simp: net_step_def net_drain_all_def pipe_inv_def disk_ok_def outstanding_def\<close>)
next
  case Closing_Send
  note I = inv [unfolded pipe_inv_def Closing_Send net_state.case]
  have "\<not> thread_dead s" using I alive by blast
  then show ?thesis
    using I step Closing_Send by (auto simp: net_step_def net_send_def pipe_inv_def disk_ok_def outstanding_def split: if_splits)
next
  case Closing_Join
  then show ?thesis using step inv alive [of s] by (auto simp: net_step_def pipe_inv_def thread_dead_def split: if_splits)
qed (use step in \<open>simp add: net_step_def\<close>)

lemma disk_recv_inv:
  assumes fl: "only_drained_faults fl config" and inv: "pipe_inv cap s" and chan: "ps_chan s = m # ms" "ps_out s = None"
    and st: "dt_phase (ps_disk s) \<noteq> Stopped" and d: "disk_step fl config H (Some m) (ps_disk s) = (r, th)"
  shows "pipe_inv cap (s\<lparr>ps_chan := ms, ps_disk := th, ps_out := r\<rparr>)"
proof -
  let ?s = "s\<lparr>ps_chan := ms, ps_disk := th, ps_out := r\<rparr>"
  have step: "disk_ok ?s xs \<and> outstanding ?s = outstanding s" if "disk_ok s (m # xs)" for xs
    using that disk_step_aligned [OF fl, of "ps_disk s" m _ H] chan
    by (auto simp: disk_ok_def outstanding_def d split: option.splits)
  show ?thesis
  proof (cases "ps_net s = Closing_Join \<and> ms = []")
    case True
    then have "m = Shutdown" "phase_ok (dt_phase (ps_disk s))" "\<not> in_file (dt_phase (ps_disk s))"
      using inv chan st by (auto simp: pipe_inv_def disk_ok_def)
    then have "dt_phase th = Stopped" "r = None"
      using d by (auto simp: disk_step_def phase_ok_def in_file_def split: disk_phase.splits)
    then show ?thesis using True inv chan by (auto simp: pipe_inv_def outstanding_def)
  next
    case False
    show ?thesis
    proof (cases "ps_net s")
      case (Running as)
      then show ?thesis using inv chan step [of "ms @ sends as"] by (simp add: pipe_inv_def)
    next
      case Closing_Join
      then obtain xs where "ms = xs @ [Shutdown]" "disk_ok s (m # xs)"
        using inv chan st False by (auto simp: pipe_inv_def Cons_eq_append_conv)
      then show ?thesis using Closing_Join inv step [of xs] by (simp add: pipe_inv_def)
    qed (use inv chan step [of ms] in \<open>simp_all add: pipe_inv_def\<close>)
  qed
qed

lemma disk_turn_inv:
  assumes fl: "only_drained_faults fl config" and inv: "pipe_inv cap s" and step: "disk_turn fl config H cap s = Some s'"
  shows "pipe_inv cap s'"
proof (cases "ps_out s")
  case (Some r)
  then have s': "s' = s\<lparr>ps_results := ps_results s @ [r], ps_out := None\<rparr>" using step by (simp add: disk_turn_def split: if_splits)
  then have "outstanding s' = outstanding s" "\<And>ms. disk_ok s' ms = disk_ok s ms" using Some by (simp_all add: outstanding_def disk_ok_def)
  then show ?thesis using inv s' Some by (simp add: pipe_inv_def thread_dead_def split: net_state.splits)
next
  case None
  then obtain m ms where m: "ps_chan s = m # ms" "dt_phase (ps_disk s) \<noteq> Stopped"
    using step by (auto simp: disk_turn_def split: if_splits list.splits)
  obtain r th where d: "disk_step fl config H (Some m) (ps_disk s) = (r, th)" by force
  then have "s' = s\<lparr>ps_chan := ms, ps_disk := th, ps_out := r\<rparr>" using step None m by (simp add: disk_turn_def)
  then show ?thesis using disk_recv_inv [OF fl inv m(1) None m(2) d] by simp
qed

lemma pipe_steps_inv:
  assumes "(pipe_step fl config H cap)\<^sup>*\<^sup>* s s'" "only_drained_faults fl config" "pipe_inv cap s"
  shows "pipe_inv cap s'"
  using assms
proof (induction rule: rtranclp_induct)
  case (step t s')
  then show ?case using net_step_inv [of cap t s'] disk_turn_inv [of fl config cap t H s'] by (elim pipe_stepE) simp_all
qed

lemma spawn_inv:
  assumes "\<forall>f \<in> set files. file_messages (fst f)"
  shows "pipe_inv cap (spawn config fs files)"
proof -
  have "room cap 0 (run_program files)" unfolding room_def using ok_run_program [OF assms] by (intro exI [of _ 1]) simp
  then show ?thesis
    using balanced_run_program [OF assms]
    by (simp add: pipe_inv_def spawn_def pr_new_def disk_ok_def phase_ok_def in_file_def outstanding_def balanced_def)
qed

text \<open>In a state with the invariant one of the threads can move.\<close>

lemma inv_progress:
  assumes inv: "pipe_inv cap s" and cap: "2 \<le> cap" and open_net: "ps_net s \<noteq> Closed"
  shows "\<exists>s'. pipe_step fl config H cap s s'"
proof (rule ccontr)
  assume "\<not> ?thesis"
  then have stuck: "net_step cap s = None" "disk_turn fl config H cap s = None" by (meson not_Some_eq pipe_step.intros)+
  have small: "outstanding s \<le> cap + 2" using inv open_net by (cases "ps_net s") (auto simp: pipe_inv_def dest: room_bound)
  have out: "ps_out s = None" using stuck(2) small cap by (auto simp: disk_turn_def outstanding_def split: if_splits option.splits)
  then have rest: "dt_phase (ps_disk s) = Stopped \<or> ps_chan s = []"
    using stuck(2) by (auto simp: disk_turn_def Let_def split_def split: if_splits list.splits)
  show False
  proof (cases "ps_net s")
    case (Running as)
    then have ok: "ps_chan s = []" using inv rest by (auto simp: pipe_inv_def disk_ok_def phase_ok_def)
    have "as = DrainAll # as' \<Longrightarrow> ps_results s = [] \<Longrightarrow> pr_pending_commits (ps_receiver s) = 0" for as'
      using inv Running ok out by (auto simp: pipe_inv_def outstanding_def balanced_def dest!: room_drain(3))
    then show False
      using stuck(1) Running ok cap
      by (auto simp: net_step_def net_send_def net_drain_ready_def net_drain_all_def split: list.splits net_action.splits if_splits)
  next
    case Closing_Drain
    then have "ps_chan s = []" "pr_pending_commits (ps_receiver s) = outstanding s"
      using inv rest by (auto simp: pipe_inv_def disk_ok_def phase_ok_def)
    then show False using stuck(1) Closing_Drain out by (auto simp: net_step_def net_drain_all_def outstanding_def split: list.splits if_splits)
  next
    case Closing_Send
    then have "ps_chan s = []" using inv rest by (auto simp: pipe_inv_def disk_ok_def phase_ok_def)
    then show False using stuck(1) Closing_Send cap by (auto simp: net_step_def net_send_def split: if_splits)
  next
    case Closing_Join
    then have "dt_phase (ps_disk s) = Stopped" using inv rest by (auto simp: pipe_inv_def disk_ok_def phase_ok_def)
    then show False using stuck(1) Closing_Join out by (simp add: net_step_def thread_dead_def)
  qed (use open_net in simp)
qed


section \<open>What the mediator learns\<close>

definition account :: "DiskCommitConfig \<Rightarrow> PendingChecksum list \<Rightarrow> disk_result list \<Rightarrow> PipelinedReceiver" where
  "account config noted got =
    foldl (\<lambda>pr r. snd (take_result r pr)) ((pr_new config)\<lparr>pr_pending_commits := length noted, pr_expected_checksums := noted\<rparr>) got"

definition fatal :: "disk_result \<Rightarrow> bool" where
  "fatal r = (case r of Inl e \<Rightarrow> \<not> is_permission_error e | Inr _ \<Rightarrow> False)"

definition confirmed :: "PendingChecksum \<times> disk_result \<Rightarrow> bool" where
  "confirmed pr = (case snd pr of Inr c \<Rightarrow> (case cr_computed_checksum c of None \<Rightarrow> True | Some d \<Rightarrow> d = pc_expected (fst pr)) | Inl _ \<Rightarrow> False)"

definition rejected :: "PendingChecksum \<times> disk_result \<Rightarrow> bool" where
  "rejected pr = (\<not> confirmed pr \<and> \<not> (case snd pr of Inl _ \<Rightarrow> True | Inr _ \<Rightarrow> False))"

lemma take_result_fatal: "(fst (take_result r pr) \<noteq> None) = fatal r"
  by (auto simp: take_result_def fatal_def Let_def split: sum.splits list.splits)

lemma take_result_note:
  assumes "pr_expected_checksums pr \<noteq> []" "0 < pr_pending_commits pr"
  shows "snd (take_result r (note_commit_sent p pr)) = note_commit_sent p (snd (take_result r pr))"
  using assms
  by (cases "pr_expected_checksums pr")
    (auto simp: take_result_def note_commit_sent_def verify_checksum_def collect_delayed_update_def Let_def split: sum.splits option.splits)

lemma account_fields:
  "pr_pending_commits (account config noted got) = length noted - length got"
  "pr_expected_checksums (account config noted got) = drop (length got) noted"
  by (induction got rule: rev_induct) (simp_all add: account_def take_result_fields drop_Suc tl_drop)

lemma account_note:
  "length got \<le> length noted \<Longrightarrow> account config (noted @ [p]) got = note_commit_sent p (account config noted got)"
proof (induction got rule: rev_induct)
  case Nil
  then show ?case by (simp add: account_def note_commit_sent_def)
next
  case (snoc r got)
  then have "account config (noted @ [p]) got = note_commit_sent p (account config noted got)" by simp
  then show ?case
    using snoc.prems take_result_note [of "account config noted got" r p] account_fields [of config noted got]
    by (simp add: account_def)
qed

lemma account_snoc: "account config noted (got @ [r]) = snd (take_result r (account config noted got))"
  by (simp add: account_def)

lemma take_result_lists:
  assumes "pr_expected_checksums pr = p # rest" "pr_redo_enabled pr"
  shows "pr_success_indices (snd (take_result r pr)) = pr_success_indices pr @ (if confirmed (p, r) then [pc_file_index p] else [])"
    "pr_redo_indices (snd (take_result r pr)) = pr_redo_indices pr @ (if rejected (p, r) then [pc_file_index p] else [])"
    "pr_redo_enabled (snd (take_result r pr))"
  using assms
  by (auto simp: take_result_def verify_checksum_def collect_delayed_update_def confirmed_def rejected_def Let_def
      split: sum.splits option.splits)

lemma taken_lists:
  assumes "length got \<le> length (pr_expected_checksums pr)" "pr_redo_enabled pr"
  shows "pr_success_indices (foldl (\<lambda>pr r. snd (take_result r pr)) pr got) =
      pr_success_indices pr @ map (pc_file_index \<circ> fst) (filter confirmed (zip (pr_expected_checksums pr) got))"
    "pr_redo_indices (foldl (\<lambda>pr r. snd (take_result r pr)) pr got) =
      pr_redo_indices pr @ map (pc_file_index \<circ> fst) (filter rejected (zip (pr_expected_checksums pr) got))"
  using assms
proof (induction got arbitrary: pr)
  case (Cons r got)
  case 1
  then obtain p rest where "pr_expected_checksums pr = p # rest" by (cases "pr_expected_checksums pr") auto
  then show ?case using Cons.IH [of "snd (take_result r pr)"] 1 take_result_lists [of pr p rest r] by (simp add: take_result_fields)
next
  case (Cons r got)
  case 2
  then obtain p rest where "pr_expected_checksums pr = p # rest" by (cases "pr_expected_checksums pr") auto
  then show ?case using Cons.IH [of "snd (take_result r pr)"] 2 take_result_lists [of pr p rest r] by (simp add: take_result_fields)
qed simp_all

lemma account_lists:
  assumes "length got \<le> length noted"
  shows "pr_success_indices (account config noted got) = map (pc_file_index \<circ> fst) (filter confirmed (zip noted got))"
    "pr_redo_indices (account config noted got) = map (pc_file_index \<circ> fst) (filter rejected (zip noted got))"
  using taken_lists [of got "(pr_new config)\<lparr>pr_pending_commits := length noted, pr_expected_checksums := noted\<rparr>"] assms
  by (simp_all add: account_def pr_new_def)


section \<open>The interleaving cannot be observed\<close>

lemma disk_run_append:
  "disk_run fl config H (xs @ ys) th =
    (fst (disk_run fl config H xs th) @ fst (disk_run fl config H ys (snd (disk_run fl config H xs th))),
     snd (disk_run fl config H ys (snd (disk_run fl config H xs th))))"
  by (induction xs arbitrary: th) (auto simp: Let_def split_def split: option.splits)

definition sequential ::
  "disk_faults \<Rightarrow> DiskCommitConfig \<Rightarrow> hash_crates \<Rightarrow> (path \<Rightarrow> dest_files) \<Rightarrow> (FileMessage list \<times> PendingChecksum) list \<Rightarrow>
    disk_result list \<times> disk_thread" where
  "sequential fl config H fs files = disk_run fl config H (concat (map fst files)) \<lparr>dt_fs = fs, dt_phase = Idle\<rparr>"

definition run_history ::
  "disk_faults \<Rightarrow> DiskCommitConfig \<Rightarrow> hash_crates \<Rightarrow> (path \<Rightarrow> dest_files) \<Rightarrow> (FileMessage list \<times> PendingChecksum) list \<Rightarrow>
    net_action list \<Rightarrow> pipe \<Rightarrow> bool" where
  "run_history fl config H fs files as s =
    ((\<exists>fin noted got.
       disk_run fl config H fin \<lparr>dt_fs = fs, dt_phase = Idle\<rparr> =
         (got @ ps_results s @ (case ps_out s of None \<Rightarrow> [] | Some r \<Rightarrow> [r]), ps_disk s) \<and>
       ps_receiver s = account config noted got \<and> length got \<le> length noted \<and>
       fin @ ps_chan s @ sends as = concat (map fst files) \<and> noted @ noted_in as = map snd files) \<and>
     (if as = [] then pr_pending_commits (ps_receiver s) = 0 else last as = DrainAll))"

definition end_history ::
  "disk_faults \<Rightarrow> DiskCommitConfig \<Rightarrow> hash_crates \<Rightarrow> (path \<Rightarrow> dest_files) \<Rightarrow> (FileMessage list \<times> PendingChecksum) list \<Rightarrow> pipe \<Rightarrow> bool" where
  "end_history fl config H fs files s =
    (let (rs, th) = sequential fl config H fs files
     in (\<exists>r \<in> set rs. fatal r) \<or>
        ps_receiver s = account config (map snd files) rs \<and> length rs \<le> length files \<and> dt_fs (ps_disk s) = dt_fs th \<and>
        pr_pending_commits (ps_receiver s) = 0 \<and> ps_out s = None \<and> (ps_chan s = [] \<or> ps_chan s = [Shutdown]) \<and>
        (dt_phase (ps_disk s) = Idle \<or> dt_phase (ps_disk s) = Stopped))"

definition history ::
  "disk_faults \<Rightarrow> DiskCommitConfig \<Rightarrow> hash_crates \<Rightarrow> (path \<Rightarrow> dest_files) \<Rightarrow> (FileMessage list \<times> PendingChecksum) list \<Rightarrow> pipe \<Rightarrow> bool" where
  "history fl config H fs files s =
    (case ps_net s of Running as \<Rightarrow> run_history fl config H fs files as s | _ \<Rightarrow> end_history fl config H fs files s)"

lemma take_history:
  assumes h: "run_history fl config H fs files as s" and r: "ps_results s = r # rs" and p: "0 < pr_pending_commits (ps_receiver s)"
    and as: "as \<noteq> []" and net: "ps_net s = Running as"
  shows "history fl config H fs files (net_take (Running as) Closing_Drain r rs s)"
proof -
  obtain fin noted got where f: "disk_run fl config H fin \<lparr>dt_fs = fs, dt_phase = Idle\<rparr> =
         (got @ ps_results s @ (case ps_out s of None \<Rightarrow> [] | Some r \<Rightarrow> [r]), ps_disk s)"
       "ps_receiver s = account config noted got" "length got \<le> length noted"
       "fin @ ps_chan s @ sends as = concat (map fst files)" "noted @ noted_in as = map snd files"
    using h by (auto simp: run_history_def)
  have "r \<in> set (fst (sequential fl config H fs files))"
    unfolding sequential_def f(4) [symmetric] disk_run_append by (simp add: f(1) r)
  then have "fatal r \<Longrightarrow> end_history fl config H fs files s'" for s' by (auto simp: end_history_def split_def Let_def)
  moreover have "length (got @ [r]) \<le> length noted" using p f(2,3) by (simp add: account_fields)
  then have "run_history fl config H fs files as (net_take (Running as) Closing_Drain r rs s)"
    using f h as unfolding run_history_def
    by (intro conjI exI [of _ fin] exI [of _ noted] exI [of _ "got @ [r]"]) (simp_all add: r account_snoc)
  ultimately show ?thesis using take_result_fatal [of r "ps_receiver s"] by (simp add: history_def)
qed

lemma aligned_no_enders: "aligned i ms \<Longrightarrow> enders ms = 0 \<Longrightarrow> ms = [] \<and> \<not> i"
proof (induction ms arbitrary: i)
  case (Cons m ms)
  then show ?case by (cases m; cases i) auto
qed simp

lemma run_end_history:
  assumes h: "run_history fl config H fs files [] s" and inv: "pipe_inv cap s" and net: "ps_net s = Running []"
  shows "end_history fl config H fs files (s\<lparr>ps_net := Closing_Drain\<rparr>)"
proof -
  obtain fin noted got where f: "disk_run fl config H fin \<lparr>dt_fs = fs, dt_phase = Idle\<rparr> =
         (got @ ps_results s @ (case ps_out s of None \<Rightarrow> [] | Some r \<Rightarrow> [r]), ps_disk s)"
       "ps_receiver s = account config noted got" "length got \<le> length noted"
       "fin @ ps_chan s = concat (map fst files)" "noted = map snd files" "pr_pending_commits (ps_receiver s) = 0"
    using h by (auto simp: run_history_def)
  have z: "outstanding s = 0" "disk_ok s (ps_chan s)" using inv net f(6) by (auto simp: pipe_inv_def)
  then have o: "ps_results s = []" "ps_out s = None" "enders (ps_chan s) = 0" by (auto simp: outstanding_def split: option.splits)
  have "ps_chan s = []" "dt_phase (ps_disk s) = Idle"
    using z(2) o(3) aligned_no_enders by (auto simp: disk_ok_def phase_ok_def in_file_def split: disk_phase.splits)
  then show ?thesis using f o by (simp add: end_history_def sequential_def)
qed

lemma run_history_next:
  assumes "run_history fl config H fs files (a # as) s" "a = DrainReady \<or> a = DrainAll \<and> pr_pending_commits (ps_receiver s) = 0"
  shows "run_history fl config H fs files as (s\<lparr>ps_net := n\<rparr>)"
proof -
  have "sends (a # as) = sends as" "noted_in (a # as) = noted_in as" using assms(2) by auto
  then show ?thesis using assms unfolding run_history_def by (simp split: if_splits)
qed

lemma run_history_send:
  "run_history fl config H fs files (Send m # as) s \<Longrightarrow> run_history fl config H fs files as (s\<lparr>ps_chan := ps_chan s @ [m], ps_net := n\<rparr>)"
  unfolding run_history_def by (simp split: if_splits)

lemma run_history_note:
  assumes "run_history fl config H fs files (NoteCommit p # as) s"
  shows "run_history fl config H fs files as (s\<lparr>ps_receiver := note_commit_sent p (ps_receiver s), ps_net := n\<rparr>)"
proof -
  obtain fin noted got where f: "disk_run fl config H fin \<lparr>dt_fs = fs, dt_phase = Idle\<rparr> =
         (got @ ps_results s @ (case ps_out s of None \<Rightarrow> [] | Some r \<Rightarrow> [r]), ps_disk s)"
       "ps_receiver s = account config noted got" "length got \<le> length noted"
       "fin @ ps_chan s @ sends as = concat (map fst files)" "(noted @ [p]) @ noted_in as = map snd files" "as \<noteq> []" "last as = DrainAll"
    using assms by (auto simp: run_history_def split: if_splits)
  then show ?thesis
    unfolding run_history_def using account_note [OF f(3), of config p]
    by (intro conjI exI [of _ fin] exI [of _ "noted @ [p]"] exI [of _ got]) simp_all
qed

lemma running_step_history:
  assumes h: "run_history fl config H fs files as s" and inv: "pipe_inv cap s" and net: "ps_net s = Running as" and step: "net_step cap s = Some s'"
  shows "history fl config H fs files s'"
proof -
  have live: "\<not> thread_dead s" using inv net alive by (auto simp: pipe_inv_def)
  have room: "room cap (outstanding s) as" using inv net by (simp add: pipe_inv_def)
  show ?thesis
  proof (cases as)
    case Nil
    then show ?thesis using run_end_history [OF _ inv, of fl config H fs files] h net step by (auto simp: net_step_def history_def)
  next
    case (Cons a as')
    have pending: "ps_results s = r # rs \<Longrightarrow> a = DrainReady \<Longrightarrow> 0 < pr_pending_commits (ps_receiver s)" for r rs
      using inv net room Cons by (auto simp: pipe_inv_def balanced_def outstanding_def dest!: room_drain(2))
    show ?thesis
    proof (cases a)
      case (Send m)
      then show ?thesis
        using step net Cons live h by (auto simp: net_step_def net_send_def history_def run_history_send split: if_splits)
    next
      case (NoteCommit p)
      then show ?thesis using step net Cons h by (auto simp: net_step_def history_def run_history_note)
    next
      case DrainReady
      then show ?thesis
        using step net Cons live h pending take_history [OF h _ _ _ net]
        by (cases "ps_results s") (auto simp: net_step_def net_drain_ready_def history_def run_history_next)
    next
      case DrainAll
      then show ?thesis
        using step net Cons live h take_history [OF h _ _ _ net]
        by (cases "ps_results s") (auto simp: net_step_def net_drain_all_def history_def run_history_next split: if_splits)
    qed
  qed
qed

lemma net_step_history:
  assumes h: "history fl config H fs files s" and inv: "pipe_inv cap s" and step: "net_step cap s = Some s'"
  shows "history fl config H fs files s'"
proof (cases "ps_net s")
  case (Running as)
  then show ?thesis using running_step_history [OF _ inv _ step] h by (simp add: history_def)
next
  case Closing_Drain
  then show ?thesis
    using h step inv alive [of s "ps_chan s"]
    by (auto simp: net_step_def net_drain_all_def history_def end_history_def pipe_inv_def Let_def split_def split: if_splits list.splits)
next
  case Closing_Send
  moreover have "ps_chan s \<noteq> [Shutdown]" using inv Closing_Send by (cases "in_file (dt_phase (ps_disk s))") (auto simp: pipe_inv_def disk_ok_def)
  ultimately show ?thesis
    using h step by (auto simp: net_step_def net_send_def history_def end_history_def Let_def split_def split: if_splits)
qed (use h step in \<open>auto simp: net_step_def history_def end_history_def Let_def split_def split: if_splits\<close>)

lemma disk_turn_history:
  assumes h: "history fl config H fs files s" and step: "disk_turn fl config H cap s = Some s'"
  shows "history fl config H fs files s'"
proof (cases "ps_out s")
  case (Some r)
  then have s': "s' = s\<lparr>ps_results := ps_results s @ [r], ps_out := None\<rparr>" using step by (simp add: disk_turn_def split: if_splits)
  show ?thesis
    using h Some by (cases "ps_net s") (simp_all add: s' history_def run_history_def end_history_def Let_def split_def)
next
  case None
  then obtain m ms where m: "ps_chan s = m # ms" "dt_phase (ps_disk s) \<noteq> Stopped"
    using step by (auto simp: disk_turn_def split: if_splits list.splits)
  obtain r th where d: "disk_step fl config H (Some m) (ps_disk s) = (r, th)" by force
  then have s': "s' = s\<lparr>ps_chan := ms, ps_disk := th, ps_out := r\<rparr>" using step None m by (simp add: disk_turn_def)
  show ?thesis
  proof (cases "ps_net s")
    case (Running as)
    then obtain fin noted got where f: "disk_run fl config H fin \<lparr>dt_fs = fs, dt_phase = Idle\<rparr> = (got @ ps_results s, ps_disk s)"
         "ps_receiver s = account config noted got" "length got \<le> length noted"
         "(fin @ [m]) @ ms @ sends as = concat (map fst files)" "noted @ noted_in as = map snd files"
         "if as = [] then pr_pending_commits (ps_receiver s) = 0 else last as = DrainAll"
      using h None m by (auto simp: history_def run_history_def)
    have "disk_run fl config H (fin @ [m]) \<lparr>dt_fs = fs, dt_phase = Idle\<rparr> = (got @ ps_results s @ (case r of None \<Rightarrow> [] | Some r \<Rightarrow> [r]), th)"
      using f(1) d by (simp add: disk_run_append split: option.splits)
    then have "run_history fl config H fs files as s'"
      using f unfolding run_history_def s'
      by (intro conjI exI [of _ "fin @ [m]"] exI [of _ noted] exI [of _ got]) (simp_all split: if_splits)
    then show ?thesis using Running by (simp add: history_def s')
  qed (use h m d in \<open>auto simp: s' history_def end_history_def disk_step_def Let_def split_def\<close>)
qed


lemma spawn_history: "history fl config H fs files (spawn config fs files)"
proof -
  have "run_program files \<noteq> []" "last (run_program files) = DrainAll" by (simp_all add: run_program_def)
  moreover have "account config [] [] = pr_new config" by (simp add: account_def pr_new_def)
  ultimately show ?thesis
    unfolding history_def run_history_def spawn_def
    by (simp, intro exI [of _ "[]"]) (simp add: run_program_traffic)
qed

lemma reach_history:
  assumes "(pipe_step fl config H cap)\<^sup>*\<^sup>* (spawn config fs files) s" "only_drained_faults fl config" "\<forall>f \<in> set files. file_messages (fst f)"
  shows "history fl config H fs files s"
  using assms
proof (induction rule: rtranclp_induct)
  case (step t s)
  have "pipe_inv cap t" using pipe_steps_inv [OF step.hyps(1)] spawn_inv step.prems by blast
  then show ?case
    using step net_step_history [of fl config H fs files t cap s] disk_turn_history [of fl config H fs files t cap s]
    by (elim pipe_stepE) simp_all
qed (rule spawn_history)

text \<open>One answer for each file.\<close>

lemma disk_run_answers:
  assumes "only_drained_faults fl config" "phase_ok (dt_phase th)" "aligned (in_file (dt_phase th)) ms"
  shows "length (fst (disk_run fl config H ms th)) = enders ms"
  using assms(2,3)
proof (induction ms arbitrary: th)
  case (Cons m ms)
  obtain j where j: "after_msg (in_file (dt_phase th)) m = Some j" "aligned j ms" using Cons.prems(2) by (auto split: option.splits)
  show ?case
    using disk_step_aligned [OF assms(1) Cons.prems(1) j(1), of H] Cons.IH [of "snd (disk_step fl config H (Some m) th)"] j(2)
    by (auto simp: Let_def split_def split: option.splits)
qed simp

lemma sequential_answers:
  assumes "only_drained_faults fl config" "\<forall>f \<in> set files. file_messages (fst f)"
  shows "length (fst (sequential fl config H fs files)) = length files"
  unfolding sequential_def
  using disk_run_answers [OF assms(1), of "\<lparr>dt_fs = fs, dt_phase = Idle\<rparr>" "concat (map fst files)" H] balanced_run_program [OF assms(2)]
  by (simp add: balanced_def run_program_traffic phase_ok_def in_file_def)

section \<open>After an early error the threads wait for each other\<close>

lemma ends_stuck: "\<exists>s'. (pipe_step fl config H cap)\<^sup>*\<^sup>* s s' \<and> (\<forall>s''. \<not> pipe_step fl config H cap s' s'')"
proof (induction "work_left s" arbitrary: s rule: less_induct)
  case less
  show ?case
  proof (cases "\<exists>t. pipe_step fl config H cap s t")
    case True
    then obtain t where t: "pipe_step fl config H cap s t" by blast
    then show ?thesis using less [of t] pipe_step_weight [OF t] by (meson converse_rtranclp_into_rtranclp)
  qed blast
qed

text \<open>Both threads wait: the network thread to send, with the message channel full, and the disk thread to answer, with
  the result channel full.  Neither will ever take anything from the other's channel.\<close>

definition blocked :: "nat \<Rightarrow> pipe \<Rightarrow> bool" where
  "blocked cap s =
    (\<exists>m as r. ps_net s = Running (Send m # as) \<and> length (ps_chan s) = cap \<and> ps_out s = Some r \<and> length (ps_results s) = cap * 2)"

text \<open>A file of which chunk \<open>k\<close> cannot be written, sent when the disk thread is idle and has received all messages.\<close>

definition chunk_fails :: "disk_faults \<Rightarrow> DiskCommitConfig \<Rightarrow> BeginMessage \<Rightarrow> bytes list \<Rightarrow> nat \<Rightarrow> pipe \<Rightarrow> bool" where
  "chunk_fails fl config b ds k s =
    (dt_phase (ps_disk s) = Idle \<and> ps_out s = None \<and> ps_chan s = [] \<and>
     (\<exists>st. fst (begin_file fl config b (dt_fs (ps_disk s) (bg_file_path b))) = Begun st) \<and> k < length ds \<and>
     (\<forall>i < k. fault_write fl b (length (concat (take i ds))) = None) \<and>
     (\<exists>e. fault_write fl b (length (concat (take k ds))) = Some e \<and> \<not> is_terminal (Inl e)))"

text \<open>\<open>n\<close> messages of the file were received since \<open>s0\<close>; those after the failed chunk find no open file.\<close>

definition fail_stage :: "BeginMessage \<Rightarrow> bytes list \<Rightarrow> nat \<Rightarrow> pipe \<Rightarrow> nat \<Rightarrow> pipe \<Rightarrow> bool" where
  "fail_stage b ds k s0 n s =
    (if n = 0 then ps_disk s = ps_disk s0 \<and> length (ps_results s) = length (ps_results s0) \<and> ps_out s = None
     else if n \<le> k + 1
     then (\<exists>st. dt_phase (ps_disk s) = Writing st \<and> op_begin st = b \<and> op_bytes_written st = length (concat (take (n - 1) ds))) \<and>
          length (ps_results s) = length (ps_results s0) \<and> ps_out s = None
     else dt_phase (ps_disk s) = Idle \<and>
          n + length (ps_results s0) = k + 1 + length (ps_results s) + (if ps_out s = None then 0 else 1))"

definition failing :: "nat \<Rightarrow> BeginMessage \<Rightarrow> bytes list \<Rightarrow> bytes \<Rightarrow> nat \<Rightarrow> net_action list \<Rightarrow> pipe \<Rightarrow> pipe \<Rightarrow> bool" where
  "failing cap b ds c k tail s0 s =
    (\<exists>n rest. ps_net s = Running (map Send rest @ tail) \<and> ps_chan s @ rest = drop n (Begin b # map Chunk ds @ [Commit c]) \<and>
      n \<le> length ds + 2 \<and> length (ps_chan s) \<le> cap \<and> length (ps_results s) \<le> cap * 2 \<and> fail_stage b ds k s0 n s)"

text \<open>The network thread is still sending the messages of this file, and the disk thread lives.\<close>

lemma failing_sends:
  assumes f: "failing cap b ds c k tail s0 s" and cf: "chunk_fails fl config b ds k s0" and len: "3 * cap + k < length ds + length (ps_results s0)"
  obtains n m rest where "ps_net s = Running (Send m # map Send rest @ tail)" "\<not> thread_dead s"
    "ps_chan s @ m # rest = drop n (Begin b # map Chunk ds @ [Commit c])" "n \<le> length ds + 2" "length (ps_chan s) \<le> cap"
    "length (ps_results s) \<le> cap * 2" "fail_stage b ds k s0 n s"
proof -
  obtain n rest where r: "ps_net s = Running (map Send rest @ tail)" "ps_chan s @ rest = drop n (Begin b # map Chunk ds @ [Commit c])"
      "n \<le> length ds + 2" "length (ps_chan s) \<le> cap" "length (ps_results s) \<le> cap * 2" "fail_stage b ds k s0 n s"
    using f unfolding failing_def by blast
  have live: "\<not> thread_dead s" using r(6) cf by (auto simp: fail_stage_def thread_dead_def chunk_fails_def split: if_splits)
  have "n + length (ps_results s0) \<le> k + 2 + length (ps_results s)" using r(6) by (auto simp: fail_stage_def split: if_splits)
  moreover have "length (ps_chan s) + length rest = length ds + 2 - n" using arg_cong [OF r(2), of length] by simp
  ultimately have "rest \<noteq> []" using r(3-5) len by auto
  then show ?thesis using r live that by (cases rest) auto
qed

lemma failing_net_step:
  assumes "failing cap b ds c k tail s0 s" "chunk_fails fl config b ds k s0" "3 * cap + k < length ds + length (ps_results s0)"
    and step: "net_step cap s = Some s'"
  shows "failing cap b ds c k tail s0 s'"
proof -
  obtain n m rest where r: "ps_net s = Running (Send m # map Send rest @ tail)" "\<not> thread_dead s"
    "ps_chan s @ m # rest = drop n (Begin b # map Chunk ds @ [Commit c])" "n \<le> length ds + 2" "length (ps_chan s) \<le> cap"
    "length (ps_results s) \<le> cap * 2" "fail_stage b ds k s0 n s" using failing_sends [OF assms(1-3)] .
  then have s': "s' = s\<lparr>ps_chan := ps_chan s @ [m], ps_net := Running (map Send rest @ tail)\<rparr>" "length (ps_chan s) < cap"
    using step by (simp_all add: net_step_def net_send_def split: if_splits)
  have "fail_stage b ds k s0 n s' = fail_stage b ds k s0 n s" by (simp add: fail_stage_def s')
  then show ?thesis using r s' unfolding failing_def by (intro exI [of _ n] exI [of _ rest]) simp
qed

lemma fail_stage_recv:
  assumes stage: "fail_stage b ds k s0 n s" and cf: "chunk_fails fl config b ds k s0" and out: "ps_out s = None"
    and m: "n < length ds + 2" "m = (Begin b # map Chunk ds @ [Commit c]) ! n" and d: "disk_step fl config H (Some m) (ps_disk s) = (x, th)"
  shows "fail_stage b ds k s0 (Suc n) (s\<lparr>ps_chan := ms, ps_disk := th, ps_out := x\<rparr>)"
proof -
  consider (first) "n = 0" | (chunk) "0 < n" "n \<le> k + 1" | (after) "k + 1 < n" by linarith
  then show ?thesis
  proof cases
    case first
    obtain st fs where bf: "begin_file fl config b (dt_fs (ps_disk s0) (bg_file_path b)) = (Begun st, fs)"
      using cf by (cases "begin_file fl config b (dt_fs (ps_disk s0) (bg_file_path b))") (auto simp: chunk_fails_def)
    have "op_begin st = b" "op_bytes_written st = 0" using begin_file_cases [OF bf] by auto
    then show ?thesis
      using stage d m bf first cf
      by (auto simp: fail_stage_def chunk_fails_def disk_step_def process_begin_def goes_on_def Let_def)
  next
    case chunk
    then obtain st where st: "dt_phase (ps_disk s) = Writing st" "op_begin st = b" "op_bytes_written st = length (concat (take (n - 1) ds))"
        "length (ps_results s) = length (ps_results s0)"
      using stage by (auto simp: fail_stage_def)
    have k: "k < length ds" using cf by (simp add: chunk_fails_def)
    obtain i where i: "n = Suc i" "i < length ds" using chunk k by (cases n) auto
    then have mi: "m = Chunk (ds ! i)" "length (concat (take (Suc i) ds)) = length (concat (take i ds)) + length (ds ! i)"
      using m by (simp_all add: nth_append take_Suc_conv_app_nth)
    show ?thesis
    proof (cases "i < k")
      case True
      then have "fault_write fl b (length (concat (take i ds))) = None" using cf by (simp add: chunk_fails_def)
      then show ?thesis using st d mi i chunk True out
        by (auto simp: fail_stage_def disk_step_def process_message_def goes_on_def advance_def Let_def)
    next
      case False
      then have "i = k" using i chunk by simp
      moreover obtain e where "fault_write fl b (length (concat (take k ds))) = Some e" "\<not> is_terminal (Inl e)"
        using cf by (auto simp: chunk_fails_def)
      ultimately show ?thesis using st d mi i out
        by (auto simp: fail_stage_def disk_step_def process_message_def returns_def Let_def)
    qed
  next
    case after
    have "(\<exists>d. m = Chunk d) \<or> m = Commit c" using m after by (cases n) (auto simp: nth_append nth_Cons')
    then show ?thesis using stage d after out by (auto simp: fail_stage_def disk_step_def)
  qed
qed

lemma failing_disk_turn:
  assumes f: "failing cap b ds c k tail s0 s" and cf: "chunk_fails fl config b ds k s0" and step: "disk_turn fl config H cap s = Some s'"
  shows "failing cap b ds c k tail s0 s'"
proof -
  let ?body = "Begin b # map Chunk ds @ [Commit c]"
  obtain n rest where r: "ps_net s = Running (map Send rest @ tail)" "ps_chan s @ rest = drop n ?body"
      "n \<le> length ds + 2" "length (ps_chan s) \<le> cap" "length (ps_results s) \<le> cap * 2" "fail_stage b ds k s0 n s"
    using f unfolding failing_def by blast
  show ?thesis
  proof (cases "ps_out s")
    case (Some x)
    then have "s' = s\<lparr>ps_results := ps_results s @ [x], ps_out := None\<rparr>" "length (ps_results s) < cap * 2"
      using step by (simp_all add: disk_turn_def split: if_splits)
    then show ?thesis
      using r Some unfolding failing_def by (intro exI [of _ n] exI [of _ rest]) (auto simp: fail_stage_def split: if_splits)
  next
    case None
    then obtain m ms where m: "ps_chan s = m # ms" "dt_phase (ps_disk s) \<noteq> Stopped"
      using step by (auto simp: disk_turn_def split: if_splits list.splits)
    obtain x th where d: "disk_step fl config H (Some m) (ps_disk s) = (x, th)" by force
    have s': "s' = s\<lparr>ps_chan := ms, ps_disk := th, ps_out := x\<rparr>" using step None m d by (simp add: disk_turn_def)
    have n: "n < length ?body" "m = ?body ! n" "ms @ rest = drop (Suc n) ?body"
      using r(2) m(1) by (metis Cons_nth_drop_Suc append_Cons drop_eq_Nil list.distinct(1) list.inject not_le_imp_less)+
    have "fail_stage b ds k s0 (Suc n) s'" unfolding s' using fail_stage_recv [OF r(6) cf None _ n(2) d] n(1) by simp
    then show ?thesis
      using r m n unfolding failing_def s' by (intro exI [of _ "Suc n"] exI [of _ rest]) simp
  qed
qed

lemma failing_run:
  assumes "(pipe_step fl config H cap)\<^sup>*\<^sup>* s0 s" "chunk_fails fl config b ds k s0" "3 * cap + k < length ds + length (ps_results s0)"
    "ps_net s0 = Running (map Send (Begin b # map Chunk ds @ [Commit c]) @ tail)" "length (ps_results s0) \<le> cap * 2"
  shows "failing cap b ds c k tail s0 s"
  using assms(1)
proof (induction rule: rtranclp_induct)
  case base
  show ?case
    unfolding failing_def using assms(2,4,5)
    by (intro exI [of _ 0] exI [of _ "Begin b # map Chunk ds @ [Commit c]"]) (simp add: fail_stage_def chunk_fails_def)
next
  case (step t s)
  then show ?case
    using failing_net_step [OF _ assms(2,3)] failing_disk_turn [OF _ assms(2)] by (elim pipe_stepE) blast+
qed

lemma failing_blocked:
  assumes "failing cap b ds c k tail s0 s" "chunk_fails fl config b ds k s0" "3 * cap + k < length ds + length (ps_results s0)" "0 < cap"
  shows "blocked cap s \<longleftrightarrow> \<not> (\<exists>s'. pipe_step fl config H cap s s')"
proof
  obtain n m rest where r: "ps_net s = Running (Send m # map Send rest @ tail)" "\<not> thread_dead s"
    "length (ps_chan s) \<le> cap" "length (ps_results s) \<le> cap * 2" "fail_stage b ds k s0 n s" using failing_sends [OF assms(1-3)] .
  show "\<not> (\<exists>s'. pipe_step fl config H cap s s')" if "blocked cap s"
    using that r(2) by (auto simp: blocked_def net_step_def net_send_def disk_turn_def elim!: pipe_stepE)
  assume "\<not> (\<exists>s'. pipe_step fl config H cap s s')"
  then have stuck: "net_step cap s = None" "disk_turn fl config H cap s = None" by (meson not_Some_eq pipe_step.intros)+
  have chan: "length (ps_chan s) = cap" using stuck(1) r(1-3) by (auto simp: net_step_def net_send_def split: if_splits)
  have "ps_out s \<noteq> None"
  proof
    assume "ps_out s = None"
    then show False using stuck(2) r(2) chan assms(4)
      by (auto simp: disk_turn_def thread_dead_def Let_def split_def split: if_splits list.splits)
  qed
  then show "blocked cap s" using stuck(2) r chan by (auto simp: blocked_def disk_turn_def split: if_splits)
qed

section \<open>What the two threads guarantee\<close>

lemma capacity_bound: "8 \<le> effective_channel_capacity n"
  by (simp add: effective_channel_capacity_def MIN_CHANNEL_CAPACITY_def)

definition demo_faults :: disk_faults where
  "demo_faults = no_faults\<lparr>fault_write := \<lambda>_ n. if n < 2 then None else Some (De_Os 28)\<rparr>"

definition demo_pending :: PendingChecksum where
  "demo_pending = \<lparr>pc_expected = [1], pc_file_path = ''f'', pc_file_index = 0, pc_is_inplace = False\<rparr>"

definition demo_files :: "(FileMessage list \<times> PendingChecksum) list" where
  "demo_files =
    [([WholeFile (demo_begin False 0) [7] [1]], demo_pending),
     ([Begin (demo_begin False 0), Chunk [7], Chunk [8, 9], Commit [1]], demo_pending)]"

lemma runs_to_the_end:
  assumes "only_drained_faults fl config" "\<forall>f \<in> set files. file_messages (fst f)"
    "(pipe_step fl config H (effective_channel_capacity n))\<^sup>*\<^sup>* (spawn config fs files) s"
  shows "(\<exists>s'. pipe_step fl config H (effective_channel_capacity n) s s') \<or> ps_net s = Closed"
    "\<exists>s'. (pipe_step fl config H (effective_channel_capacity n))\<^sup>*\<^sup>* s s' \<and> ps_net s' = Closed"
proof -
  let ?cap = "effective_channel_capacity n"
  have cap: "2 \<le> ?cap" using capacity_bound [of n] by simp
  have inv: "pipe_inv ?cap t" if "(pipe_step fl config H ?cap)\<^sup>*\<^sup>* (spawn config fs files) t" for t
    using pipe_steps_inv [OF that assms(1)] spawn_inv [OF assms(2)] by blast
  show "(\<exists>s'. pipe_step fl config H ?cap s s') \<or> ps_net s = Closed" using inv_progress [OF inv [OF assms(3)] cap] by blast
  obtain t where t: "(pipe_step fl config H ?cap)\<^sup>*\<^sup>* s t" "\<forall>s''. \<not> pipe_step fl config H ?cap t s''" using ends_stuck by blast
  then show "\<exists>s'. (pipe_step fl config H ?cap)\<^sup>*\<^sup>* s s' \<and> ps_net s' = Closed"
    using inv_progress [OF inv [OF rtranclp_trans [OF assms(3) t(1)]] cap] by blast
qed

text \<open>C7: The receiver always finishes.  If nothing fails but opening outputs and committing files, with errors that do not
  end the thread, and \<open>--append-verify\<close> is off, no execution gets stuck: in every reachable state one
  of the threads can go on or the session is closed, so every execution that goes on as long as it can ends with
  the session closed.  The bounded channels cannot block each other, although the network thread takes results only
  between files: at most \<open>capacity + 2\<close> files are outstanding and the result channel holds twice the capacity.\<close>

theorem pipeline_finishes:
  assumes "only_drained_faults fl config" "\<forall>f \<in> set files. file_messages (fst f)"
    "(pipe_step fl config H (effective_channel_capacity n))\<^sup>*\<^sup>* (spawn config fs files) s"
  shows "((\<exists>s'. pipe_step fl config H (effective_channel_capacity n) s s') \<or> ps_net s = Closed) \<and>
    (\<exists>s'. (pipe_step fl config H (effective_channel_capacity n))\<^sup>*\<^sup>* s s' \<and> ps_net s' = Closed)"
  using runs_to_the_end [OF assms] by blast

lemma demo_files_ok: "\<forall>f \<in> set demo_files. file_messages (fst f)"
  by (simp add: demo_files_def file_messages_def)

lemma demo_only_open: "only_drained_faults no_faults demo_config"
  by (simp add: only_drained_faults_def demo_config_def)

theorem pipeline_finishes_witness:
  "\<exists>s. (pipe_step no_faults demo_config toy_crates (effective_channel_capacity 8))\<^sup>*\<^sup>* (spawn demo_config (dt_fs demo_thread) demo_files) s \<and> ps_net s = Closed"
  using pipeline_finishes [OF demo_only_open demo_files_ok rtranclp.rtrancl_refl] by blast



text \<open>C8: The interleaving cannot be observed.  When a session of files closes and no result was fatal, under the same
  conditions on the faults, the files are what the
  disk thread alone would have made of the messages in order, and the mediator has matched every result with the
  checksum of its own file: it confirms exactly the files whose digest is the expected one, in order, and asks
  again for exactly those whose digest is another.\<close>

theorem pipeline_refines_sequential:
  assumes "only_drained_faults fl config" "\<forall>f \<in> set files. file_messages (fst f)"
    "(pipe_step fl config H (effective_channel_capacity n))\<^sup>*\<^sup>* (spawn config fs files) s" "ps_net s = Closed"
    "sequential fl config H fs files = (rs, th)" "\<forall>r \<in> set rs. \<not> fatal r"
  shows "dt_fs (ps_disk s) = dt_fs th \<and>
    pr_success_indices (ps_receiver s) = map (pc_file_index \<circ> fst) (filter confirmed (zip (map snd files) rs)) \<and>
    pr_redo_indices (ps_receiver s) = map (pc_file_index \<circ> fst) (filter rejected (zip (map snd files) rs))"
proof -
  have "history fl config H fs files s" using reach_history [OF assms(3,1,2)] .
  then have "ps_receiver s = account config (map snd files) rs" "length rs \<le> length (map snd files)" "dt_fs (ps_disk s) = dt_fs th"
    using assms(4-6) by (auto simp: history_def end_history_def)
  then show ?thesis using account_lists [of rs "map snd files" config] by simp
qed

lemma end_file_no_faults [simp]:
  "\<not> fatal (fst (end_file no_faults config H st e fs))" "\<not> is_terminal (fst (end_file no_faults config H st e fs))"
  using end_file_fault [of no_faults config H st e fs]
  by (cases "fst (end_file no_faults config H st e fs)"; auto simp: fatal_def is_terminal_def)+

lemma no_faults_step:
  assumes "temp_message m" "after_msg (in_file (dt_phase th)) m = Some j" "\<forall>b e. dt_phase th \<noteq> Discarding b e" "dt_phase th \<noteq> Stopped"
    "disk_step no_faults config H (Some m) th = (r, th')"
  shows "in_file (dt_phase th') = j \<and> (\<forall>b e. dt_phase th' \<noteq> Discarding b e) \<and> dt_phase th' \<noteq> Stopped \<and> (\<forall>x. r = Some x \<longrightarrow> \<not> fatal x)"
  using assms
  by (cases "dt_phase th"; cases m)
    (auto simp: in_file_def disk_step_def process_whole_file_def process_begin_def process_message_def goes_on_def returns_def temp_begin_file
      Let_def split_def)

lemma no_faults_run:
  assumes "\<forall>m \<in> set ms. temp_message m" "aligned (in_file (dt_phase th)) ms" "\<forall>b e. dt_phase th \<noteq> Discarding b e" "dt_phase th \<noteq> Stopped"
  shows "\<forall>r \<in> set (fst (disk_run no_faults config H ms th)). \<not> fatal r"
  using assms
proof (induction ms arbitrary: th)
  case (Cons m ms)
  obtain r th' where d: "disk_step no_faults config H (Some m) th = (r, th')" by force
  obtain j where j: "after_msg (in_file (dt_phase th)) m = Some j" "aligned j ms" using Cons.prems(2) by (auto split: option.splits)
  show ?case
    using no_faults_step [OF _ j(1) Cons.prems(3,4) d] Cons.prems(1) Cons.IH [of th'] j(2)
    by (auto simp: d Let_def split_def split: option.splits)
qed simp

theorem pipeline_refines_sequential_witness:
  "\<exists>s. (pipe_step no_faults demo_config toy_crates (effective_channel_capacity 8))\<^sup>*\<^sup>* (spawn demo_config (dt_fs demo_thread) demo_files) s \<and>
    dt_fs (ps_disk s) = dt_fs (snd (sequential no_faults demo_config toy_crates (dt_fs demo_thread) demo_files))"
proof -
  obtain s where s: "(pipe_step no_faults demo_config toy_crates (effective_channel_capacity 8))\<^sup>*\<^sup>* (spawn demo_config (dt_fs demo_thread) demo_files) s"
      "ps_net s = Closed"
    using runs_to_the_end(2) [OF demo_only_open demo_files_ok rtranclp.rtrancl_refl] by blast
  obtain rs th where q: "sequential no_faults demo_config toy_crates (dt_fs demo_thread) demo_files = (rs, th)" by force
  have "\<forall>r \<in> set rs. \<not> fatal r"
    using q no_faults_run [of "concat (map fst demo_files)" "\<lparr>dt_fs = dt_fs demo_thread, dt_phase = Idle\<rparr>" demo_config toy_crates]
    by (simp add: sequential_def demo_files_def temp_begin_def needs_rename_of_def demo_begin_def in_file_def del: disk_run.simps)
  then show ?thesis using pipeline_refines_sequential [OF demo_only_open demo_files_ok s q] s(1) q by auto
qed

text \<open>C12: An early error can stop the receiver for good.  When a chunk of a file cannot be written, the disk thread answers with
  the error and then answers each of the remaining messages of that file with an error of its own, because it does not
  drain them as it does after a failed open.  The network thread takes no result before it has sent the whole file.  Let the
  disk thread be idle, with nothing to receive, when the network thread starts to send a file that can be opened and whose
  chunk \<open>k\<close> is the first that fails, with an error that does not end the thread.  If from that chunk on there are more
  than \<open>3 * cap\<close> chunks, less the results that were waiting already, then no execution gets past this file: from every
  reachable state one is reachable in which both threads are blocked, the network thread on a full message
  channel and the disk thread on a full result channel, and those are exactly the states in which an execution ends.\<close>

theorem early_error_deadlocks:
  assumes "chunk_fails fl config b ds k s0" "ps_net s0 = Running (map Send (Begin b # map Chunk ds @ [Commit c]) @ tail)"
    "length (ps_results s0) \<le> cap * 2" "0 < cap" "3 * cap < (length ds - k) + length (ps_results s0)"
    "(pipe_step fl config H cap)\<^sup>*\<^sup>* s0 s"
  shows "(\<exists>s'. (pipe_step fl config H cap)\<^sup>*\<^sup>* s s' \<and> blocked cap s') \<and>
    (blocked cap s \<longleftrightarrow> \<not> (\<exists>s'. pipe_step fl config H cap s s')) \<and> ps_net s \<noteq> Closed"
proof -
  have len: "3 * cap + k < length ds + length (ps_results s0)" using assms(1,5) by (simp add: chunk_fails_def)
  have f: "failing cap b ds c k tail s0 t" if "(pipe_step fl config H cap)\<^sup>*\<^sup>* s0 t" for t
    using failing_run [OF that assms(1) len assms(2,3)] .
  obtain t where t: "(pipe_step fl config H cap)\<^sup>*\<^sup>* s t" "\<not> (\<exists>s'. pipe_step fl config H cap t s')"
    using ends_stuck [of fl config H cap s] by blast
  have "blocked cap t"
    using failing_blocked [OF f [OF rtranclp_trans [OF assms(6) t(1)]] assms(1) len assms(4), of H] t(2) by blast
  moreover have "blocked cap s \<longleftrightarrow> \<not> (\<exists>s'. pipe_step fl config H cap s s')"
    using failing_blocked [OF f [OF assms(6)] assms(1) len assms(4)] .
  moreover have "ps_net s \<noteq> Closed" using f [OF assms(6)] by (auto simp: failing_def)
  ultimately show ?thesis using t(1) by blast
qed

theorem early_error_deadlocks_witness:
  "\<exists>s. (pipe_step demo_faults demo_config toy_crates 8)\<^sup>*\<^sup>*
      (spawn demo_config (dt_fs demo_thread) [(Begin (demo_begin False 0) # map Chunk (replicate 27 [7]) @ [Commit [1]], demo_pending)]) s \<and>
    blocked 8 s"
proof -
  let ?ds = "replicate 27 [7 :: u8]"
  let ?s0 = "spawn demo_config (dt_fs demo_thread) [(Begin (demo_begin False 0) # map Chunk ?ds @ [Commit [1]], demo_pending)]"
  have take2: "concat (take i ?ds) = replicate i 7" if "i \<le> 2" for i using that by (cases i; cases "i - 1") auto
  have "chunk_fails demo_faults demo_config (demo_begin False 0) ?ds 2 ?s0"
    unfolding chunk_fails_def
    by (auto simp: take2 spawn_def demo_faults_def is_terminal_def temp_begin_file temp_begin_def needs_rename_of_def demo_begin_def)
  from early_error_deadlocks [OF this, of "[1]" "[NoteCommit demo_pending, DrainReady, DrainAll]" 8 toy_crates ?s0]
  show ?thesis by (auto simp: spawn_def run_program_def file_program_def)
qed

end
