(* ===== verification/Spec2Isabelle.thy ===== *)
theory Spec2Isabelle
  imports Prelude Codec Varint Rolling_Simd Rolling Ring_Buffer Signature Lookup Index Script Generator Delta Ndx Token_Wire Wire_Signature Basis_Map Sparse Applicator Signature_Parallel Sender File_Transfer Disk_Commit Pipeline
begin

text \<open>
  A verification development for oc-rsync, a Rust implementation of the rsync file synchronisation program.
  It models the transfer of file contents: how a receiver describes the file it has, how a sender finds what is
  new in its own file and answers, and how the receiver builds, verifies and installs the result.

  \<^bold>\<open>The parts and how they interact.\<close>  The receiver cuts its old file, the basis, into blocks and sends for each
  a rolling and a strong checksum (the signature).  The sender indexes the signature, slides a window over its
  source, and answers with a stream of tokens: literal bytes and references to basis blocks, followed by a checksum
  of the whole file.  The receiver applies the tokens to the basis and compares the checksum.  In the pipelined
  receiver a network thread turns the answers into messages on a bounded channel, and a disk thread writes, verifies
  and commits the files and returns a result for each over a second bounded channel.

  \<^bold>\<open>Foundations.\<close>
  \<^item> \<open>Prelude\<close>: words for the machine integers, \<open>io::Result\<close> as a sum type with \<open>bindE\<close> for the question mark operator,
    \<open>Read::read_exact\<close> on the remaining bytes of a stream, little-endian encodings, and generic lemmas.
  \<^item> \<open>Codec\<close>: the contract of a wire item as locales (\<open>codec\<close>, \<open>stream_codec\<close>, \<open>stateful_codec\<close>): from the round
    trip of one item they derive that of sequences, that encodings are prefix-free and that truncation is detected.
    They are interpreted by the integer codecs, the index codecs and the delta operations.

  \<^bold>\<open>Wire formats\<close> (\<open>crates/protocol/src\<close>, \<open>crates/transfer/src\<close>).
  \<^item> \<open>Varint\<close>: \<open>varint/encode.rs\<close>, \<open>decode.rs\<close>, \<open>table.rs\<close>.  Lossless round trips, encoding lengths, and exactly which
    values each minimum width of \<open>read_varlong\<close> loses.
  \<^item> \<open>Ndx\<close>: \<open>codec/ndx\<close>, the legacy and the delta codec of file indices, the read that is retried over a carry-over
    buffer, the writer with the ordering guard, the goodbye handshake.
  \<^item> \<open>Token_Wire\<close>: \<open>wire/delta\<close> and the token reader of batch files.  \<open>Wire_Signature\<close>: the signature header and blocks of
    \<open>receiver/wire.rs\<close> and \<open>generator/protocol_io.rs\<close>, and \<open>wire/signature.rs\<close>, with the limits that bound allocations.

  \<^bold>\<open>Checksums and signatures\<close> (\<open>crates/checksums/src/rolling\<close>, \<open>crates/signature/src\<close>).
  \<^item> \<open>Rolling_Simd\<close>, \<open>Rolling\<close>: the scalar, SSE2, AVX2 and NEON loops lane by lane (locale \<open>vector_step\<close>) agree; rolling
    the window equals computing its checksum anew.
  \<^item> \<open>Signature\<close>: block layout (the block length is exactly the rounded square root of the file length, within its bounds),
    strong checksum selection, batched generation.  \<open>Signature_Parallel\<close>: the parallel generators equal the sequential one.

  \<^bold>\<open>Delta generation\<close> (\<open>crates/matching/src\<close>).
  \<^item> \<open>Ring_Buffer\<close> (locale \<open>sliding_window\<close>), \<open>Lookup\<close> (bit filter, locale \<open>prefilter\<close>; chained table), \<open>Index\<close>: probing is sound
    and complete for the blocks of the signature; a rebuilt index keeps nothing of the old one.
  \<^item> \<open>Script\<close>: what a script denotes and when applying it fails.  \<open>Generator\<close>: the sequential, the consecutive-match
    and the parallel scan.  \<open>Delta\<close>: signature, index, scan and application compose to the source file; with the in-place
    guard the script can be applied to the file it reads from.

  \<^bold>\<open>Applying a delta\<close> (\<open>crates/transfer/src\<close>).
  \<^item> \<open>Basis_Map\<close> (locale \<open>basis_map\<close>): \<open>map_file\<close>, the sliding window and the memory map over the basis; which requests are
    answered, with which bytes, after any history.  \<open>Sparse\<close>: \<open>delta_apply/sparse.rs\<close> and hole punching; holes are invisible.
  \<^item> \<open>Applicator\<close>: \<open>delta_apply\<close> and the plain \<open>token_reader.rs\<close>; receiving a file is exactly what its token stream denotes,
    and the error of the first violation otherwise.
  \<^item> \<open>Sender\<close>: \<open>generator/delta.rs\<close> and \<open>shared/checksum.rs\<close>.  \<open>File_Transfer\<close>: \<open>receiver/basis.rs\<close>, the request and answer of
    \<open>receiver/transfer/sync.rs\<close> and the per-file step of \<open>generator/transfer/transfer_loop.rs\<close>, composed to one file end to end.

  \<^bold>\<open>The pipelined receiver\<close> (\<open>crates/transfer/src/disk_commit\<close>, \<open>pipeline\<close>, \<open>receiver/transfer/pipeline.rs\<close>).
  \<^item> \<open>Disk_Commit\<close>: the disk thread as a state machine (\<open>disk_phase\<close>) over the messages of \<open>pipeline/messages.rs\<close>, with
    the buffered writer (locale \<open>byte_sink\<close>), in-place and append updates, backups, staging and partial files.  The
    record \<open>disk_faults\<close> says which steps fail.  Only verified content is installed; a committed file has the content of
    its stream; chunks cannot be told from one whole message.
  \<^item> \<open>Pipeline\<close>: the two threads and their channels as the step relation \<open>pipe_step\<close>.  Without failures in the middle of a
    file every interleaving ends, closed and clean, in the same state as the sequential run; after a failed write in a long
    file both threads block each other, which is a defect of the code.

  \<^bold>\<open>How the code is represented.\<close>  Definitions keep the names of the source, with a prefix where a name clashes
  (\<open>rb_\<close>, \<open>bm_\<close>, \<open>da_\<close>, \<open>pr_\<close>).  A Rust struct is a record, an enum a datatype.  Integers of 8 to 64 bits are words where wrapping or
  bit operations matter, signed ones read through \<open>sint\<close>; sizes and offsets are natural numbers, with the saturations and
  overflow checks of the code written out.  Mutation is state passing; a reader is the bytes still to come, or the
  list of what its \<open>read\<close> calls return.  Panics and errors are values.  An open output file is its bytes and its position.

  \<^bold>\<open>Bounds and fuel.\<close>  Only the scan loops of \<open>Generator\<close> carry fuel, one unit more than the bytes that can be read; every
  round consumes a byte, and the theorems of \<open>Delta\<close> say that the scan returns a script, so the fuel is never exhausted.
  All other loops are total functions with a termination proof.  Executions of \<open>Pipeline\<close> are bounded by \<open>work_left\<close>.

  \<^bold>\<open>Parameters and hypotheses.\<close>  The hash functions come from external crates and are the record \<open>hash_crates\<close>; the
  theorems assume at most their widths, that their batch functions compute the same digests, and, for reconstruction, that no
  window of the source collides with a basis block it differs from.  What the kernel copies or punches, processor
  features and the number of threads are parameters.

  \<^bold>\<open>What is not modelled.\<close>  Compressed tokens (third-party codecs), file lists, filters, metadata, the local copy engine,
  negotiation, multiplexing, the daemon and the command line.  In the modelled parts: trace output, the batched
  writers of io_uring and completion ports, sandboxed path resolution, and the token loop that produces the messages of the
  disk thread, whose messages are an input of \<open>Pipeline\<close>.  There a connection that fails in the middle of a file, the
  deadline and the recycling of buffers are left out, and a spinning thread is one without a step.  In \<open>Disk_Commit\<close> a
  failing system call changes nothing, and the copy that stands in for a rename across file systems is a single call.
\<close>

end
